(* ===== verification/Prelude.thy ===== *)
theory Prelude
  imports
    Main
    "HOL-Library.Word"
    "HOL-Library.List_Lexorder"
    "HOL-Library.Char_ord"
    "HOL-Library.Multiset"
begin

text \<open>
  Shared vocabulary of the development.

  \<^item> Machine integers and bytes: Rust's \<open>u8\<close>, \<open>u16\<close>, \<open>u32\<close> and \<open>u64\<close> are words of that
    width; \<open>usize\<close> counts and lengths are \<open>nat\<close>. Little-endian encodings
    (\<open>to_le_bytes\<close>, \<open>from_le_bytes\<close>) are \<open>to_le\<close> and \<open>from_le\<close>.
  \<^item> Rust's \<open>Result\<close> is a sum with the error on the left; the \<open>?\<close> operator is \<open>and_then\<close>.
  \<^item> A Rust \<open>String\<close> is a \<open>string\<close>, the list of its UTF-8 bytes read as characters; its
    order is Rust's bytewise order.
  \<^item> Generic facts on strictly sorted keyed lists, which the tree, diff, merge and guard
    components all walk with two or three pointers.
\<close>

named_theorems codec_simps \<open>encoders and decoders on concrete shapes\<close>
named_theorems sorted_simps \<open>strictly sorted keyed lists\<close>

section \<open>Integers and bytes\<close>

type_synonym byte = "8 word"
type_synonym u16 = "16 word"
type_synonym u32 = "32 word"
type_synonym u64 = "64 word"
type_synonym bytes = "byte list"

fun to_le :: "nat \<Rightarrow> nat \<Rightarrow> bytes" where
  "to_le 0 v = []"
| "to_le (Suc n) v = of_nat v # to_le n (v div 256)"

fun from_le :: "bytes \<Rightarrow> nat" where
  "from_le [] = 0"
| "from_le (b # bs) = unat b + 256 * from_le bs"

lemma length_to_le [simp]: "length (to_le n v) = n"
  by (induction n v rule: to_le.induct) auto

lemma unat_byte_less: "unat (b :: byte) < 256"
  using unsigned_less [of b, where ?'a = nat] by simp

lemma unat_of_nat_byte: "unat (of_nat v :: byte) = v mod 256"
  by (simp add: unat_of_nat)

lemma of_nat_byte_mod: "of_nat (v mod 256) = (of_nat v :: byte)"
  by (simp add: word_unat_eq_iff unat_of_nat)

lemma from_le_less: "from_le bs < 256 ^ length bs"
proof (induction bs)
  case (Cons b bs)
  have "unat b + 256 * from_le bs < 256 * Suc (from_le bs)"
    using unat_byte_less [of b] by simp
  also have "\<dots> \<le> 256 * 256 ^ length bs"
    using Cons by (intro mult_le_mono2) simp
  finally show ?case by simp
qed simp

lemma from_le_to_le [simp]: "v < 256 ^ n \<Longrightarrow> from_le (to_le n v) = v"
proof (induction n v rule: to_le.induct)
  case (2 n v)
  then have "v div 256 < 256 ^ n"
    by (simp add: less_mult_imp_div_less mult.commute)
  with 2 show ?case by (simp add: unat_of_nat_byte)
qed simp

lemma to_le_from_le: "length bs = n \<Longrightarrow> to_le n (from_le bs) = bs"
proof (induction bs arbitrary: n)
  case (Cons b bs)
  have "(unat b + 256 * from_le bs) div 256 = from_le bs"
    using unat_byte_less [of b] by simp
  moreover have "of_nat (unat b + 256 * from_le bs) = b"
    using unat_byte_less [of b] by (simp only: word_unat_eq_iff unat_of_nat_byte) simp
  ultimately show ?case using Cons by auto
qed simp

text \<open>Fixed-width encodings of the unsigned integer types.\<close>

definition u16_le :: "u16 \<Rightarrow> bytes" where "u16_le w = to_le 2 (unat w)"
definition u32_le :: "u32 \<Rightarrow> bytes" where "u32_le w = to_le 4 (unat w)"
definition u64_le :: "u64 \<Rightarrow> bytes" where "u64_le w = to_le 8 (unat w)"
definition u16_of_le :: "bytes \<Rightarrow> u16" where "u16_of_le bs = of_nat (from_le bs)"
definition u32_of_le :: "bytes \<Rightarrow> u32" where "u32_of_le bs = of_nat (from_le bs)"
definition u64_of_le :: "bytes \<Rightarrow> u64" where "u64_of_le bs = of_nat (from_le bs)"

lemma length_u_le [simp]:
  "length (u16_le a) = 2" "length (u32_le b) = 4" "length (u64_le c) = 8"
  by (simp_all add: u16_le_def u32_le_def u64_le_def)

lemma u_of_le_le [simp]:
  "u16_of_le (u16_le a) = a" "u32_of_le (u32_le b) = b" "u64_of_le (u64_le c) = c"
  using unsigned_less [of a, where ?'a = nat] unsigned_less [of b, where ?'a = nat]
    unsigned_less [of c, where ?'a = nat]
  by (simp_all add: u16_le_def u32_le_def u64_le_def u16_of_le_def u32_of_le_def u64_of_le_def)

lemma le_of_le:
  "length bs = 2 \<Longrightarrow> u16_le (u16_of_le bs) = bs"
  "length bs = 4 \<Longrightarrow> u32_le (u32_of_le bs) = bs"
  "length bs = 8 \<Longrightarrow> u64_le (u64_of_le bs) = bs"
  using from_le_less [of bs]
  by (simp_all add: u16_le_def u32_le_def u64_le_def u16_of_le_def u32_of_le_def u64_of_le_def
      unat_of_nat to_le_from_le)

lemma unat_of_nat_u16: "n < 65536 \<Longrightarrow> unat (of_nat n :: u16) = n"
  by (simp add: unat_of_nat)

lemma unat_of_nat_u32: "n < 4294967296 \<Longrightarrow> unat (of_nat n :: u32) = n"
  by (simp add: unat_of_nat)

lemma unat_of_nat_u64: "n < 18446744073709551616 \<Longrightarrow> unat (of_nat n :: u64) = n"
  by (simp add: unat_of_nat)

text \<open>Rust's checked and saturating additions.\<close>

definition u64_checked_add :: "u64 \<Rightarrow> u64 \<Rightarrow> u64 option" where
  "u64_checked_add a b = (if unat a + unat b < 2 ^ 64 then Some (a + b) else None)"

definition u64_saturating_add :: "u64 \<Rightarrow> u64 \<Rightarrow> u64" where
  "u64_saturating_add a b = (if unat a + unat b < 2 ^ 64 then a + b else - 1)"

lemma unat_u64_saturating_add:
  "unat (u64_saturating_add a b) = min (unat a + unat b) (2 ^ 64 - 1)"
  by (auto simp: u64_saturating_add_def unat_word_ariths unsigned_minus_1_eq_mask mask_eq_exp_minus_1)

section \<open>Results\<close>

definition and_then :: "'e + 'a \<Rightarrow> ('a \<Rightarrow> 'e + 'b) \<Rightarrow> 'e + 'b" where
  "and_then r f = (case r of Inl e \<Rightarrow> Inl e | Inr a \<Rightarrow> f a)"

lemma and_then_simps [simp]:
  "and_then (Inl e) f = Inl e"
  "and_then (Inr a) f = f a"
  by (simp_all add: and_then_def)

lemma and_then_cong [fundef_cong]:
  "r = r' \<Longrightarrow> (\<And>a. r' = Inr a \<Longrightarrow> f a = g a) \<Longrightarrow> and_then r f = and_then r' g"
  by (cases r') auto

lemma and_then_Inr [simp]: "and_then r f = Inr b \<longleftrightarrow> (\<exists>a. r = Inr a \<and> f a = Inr b)"
  by (cases r) auto

text \<open>Running a fallible function over a list, stopping at the first error.\<close>

fun try_all :: "('a \<Rightarrow> 'e + unit) \<Rightarrow> 'a list \<Rightarrow> 'e + unit" where
  "try_all f [] = Inr ()"
| "try_all f (x # xs) = and_then (f x) (\<lambda>_. try_all f xs)"

lemma try_all_Inr [simp]: "try_all f xs = Inr () \<longleftrightarrow> (\<forall>x \<in> set xs. f x = Inr ())"
  by (induction xs) auto

section \<open>Strings\<close>

definition as_bytes :: "string \<Rightarrow> bytes" where
  "as_bytes s = map of_char s"

definition of_bytes :: "bytes \<Rightarrow> string" where
  "of_bytes bs = map (\<lambda>b. char_of (unat b)) bs"

lemma length_as_bytes [simp]: "length (as_bytes s) = length s"
  by (simp add: as_bytes_def)

lemma length_of_bytes [simp]: "length (of_bytes bs) = length bs"
  by (simp add: of_bytes_def)

lemma char_of_unat_of_char: "char_of (unat (of_char c :: byte)) = c"
proof -
  have "unat (of_char c :: byte) = of_char c"
    by (cases c) (simp add: unsigned_of_nat)
  then show ?thesis by simp
qed

lemma of_char_char_of_unat: "of_char (char_of (unat (b :: byte))) = b"
proof -
  have "(of_char c :: byte) = of_nat (of_char c)" for c
    by (simp only: of_nat_of_char)
  then have "(of_char (char_of (unat b)) :: byte) = of_nat (of_char (char_of (unat b)))" .
  also have "\<dots> = b"
    using unat_byte_less [of b] by simp
  finally show ?thesis .
qed

lemma of_bytes_as_bytes [simp]: "of_bytes (as_bytes s) = s"
  by (simp add: as_bytes_def of_bytes_def comp_def char_of_unat_of_char)

lemma as_bytes_of_bytes [simp]: "as_bytes (of_bytes bs) = bs"
  by (simp add: as_bytes_def of_bytes_def comp_def of_char_char_of_unat)

lemma as_bytes_inject [simp]: "as_bytes s = as_bytes t \<longleftrightarrow> s = t"
  by (metis of_bytes_as_bytes)

text \<open>Rust's \<open>str::split\<close> on one separator character: a string has one more segment than
  separators, and the empty string has one empty segment.\<close>

fun split_on :: "'a \<Rightarrow> 'a list \<Rightarrow> 'a list list" where
  "split_on c [] = [[]]"
| "split_on c (x # xs) =
     (if x = c then [] # split_on c xs
      else (case split_on c xs of [] \<Rightarrow> [[x]] | s # ss \<Rightarrow> (x # s) # ss))"

lemma split_on_nonempty [simp]: "split_on c xs \<noteq> []"
  by (induction xs) (auto split: list.splits)

lemma split_on_no_sep: "s \<in> set (split_on c xs) \<Longrightarrow> c \<notin> set s"
  by (induction xs arbitrary: s) (auto split: list.splits if_splits)

fun join_with :: "'a \<Rightarrow> 'a list list \<Rightarrow> 'a list" where
  "join_with c [] = []"
| "join_with c [s] = s"
| "join_with c (s # t # ss) = s @ c # join_with c (t # ss)"

lemma join_with_split_on [simp]: "join_with c (split_on c xs) = xs"
proof (induction xs)
  case (Cons x xs)
  obtain s ss where "split_on c xs = s # ss"
    by (cases "split_on c xs") auto
  with Cons show ?case by (cases ss) auto
qed simp

section \<open>Strictly sorted keyed lists\<close>

text \<open>
  \<open>index_by f xs\<close> is the finite map a keyed list stands for, \<open>strict_by f xs\<close> says that its
  keys strictly increase, which is the order every persisted entry list has.
\<close>

definition index_by :: "('a \<Rightarrow> 'k) \<Rightarrow> 'a list \<Rightarrow> 'k \<rightharpoonup> 'a" where
  "index_by f xs = map_of (map (\<lambda>x. (f x, x)) xs)"

abbreviation strict_by :: "('a \<Rightarrow> 'k :: linorder) \<Rightarrow> 'a list \<Rightarrow> bool" where
  "strict_by f xs \<equiv> sorted_wrt (<) (map f xs)"

lemma index_by_simps [simp, sorted_simps]:
  "index_by f [] = Map.empty"
  "index_by f (x # xs) = (index_by f xs)(f x \<mapsto> x)"
  by (simp_all add: index_by_def)

lemma index_by_append: "index_by f (xs @ ys) = index_by f ys ++ index_by f xs"
  by (simp add: index_by_def)

lemma index_by_SomeD: "index_by f xs k = Some x \<Longrightarrow> x \<in> set xs \<and> f x = k"
  by (induction xs) (auto split: if_splits)

lemma index_by_None_iff: "index_by f xs k = None \<longleftrightarrow> k \<notin> f ` set xs"
  by (induction xs) auto

lemma dom_index_by [simp]: "dom (index_by f xs) = f ` set xs"
  by (rule set_eqI) (metis domIff index_by_None_iff)

lemma index_by_Some_iff:
  "distinct (map f xs) \<Longrightarrow> index_by f xs k = Some x \<longleftrightarrow> x \<in> set xs \<and> f x = k"
  by (induction xs) (auto simp: image_iff)

lemma strict_by_distinct: "strict_by f xs \<Longrightarrow> distinct (map f xs)"
  using strict_sorted_iff by blast

lemmas index_by_strict = index_by_Some_iff [OF strict_by_distinct]

lemma strict_by_Cons [sorted_simps]:
  "strict_by f (x # xs) \<longleftrightarrow> (\<forall>y \<in> set xs. f x < f y) \<and> strict_by f xs"
  by auto

lemma strict_by_append [sorted_simps]:
  "strict_by f (xs @ ys) \<longleftrightarrow>
     strict_by f xs \<and> strict_by f ys \<and> (\<forall>x \<in> set xs. \<forall>y \<in> set ys. f x < f y)"
  by (auto simp: sorted_wrt_append)

lemma index_by_less_None: "\<forall>y \<in> set xs. k < f y \<Longrightarrow> index_by f xs (k :: 'k :: linorder) = None"
  by (auto simp: index_by_None_iff)

lemma strict_by_same_map:
  "strict_by f xs \<Longrightarrow> strict_by f ys \<Longrightarrow> index_by f xs = index_by f ys \<Longrightarrow> xs = ys"
proof -
  assume s: "strict_by f xs" "strict_by f ys" and eq: "index_by f xs = index_by f ys"
  have set_eq: "set xs = set ys"
  proof -
    have "x \<in> set xs \<longleftrightarrow> x \<in> set ys" for x
      using index_by_strict [OF s(1), of "f x" x] index_by_strict [OF s(2), of "f x" x] eq by simp
    then show ?thesis by blast
  qed
  then have "map f xs = map f ys"
    using s by (intro strict_sorted_equal) simp_all
  moreover have "inj_on f (set xs \<union> set ys)"
    using strict_by_distinct [OF s(1)] set_eq by (simp add: distinct_map)
  ultimately show "xs = ys" by (rule map_inj_on)
qed

lemma strict_by_filter [sorted_simps]: "strict_by f xs \<Longrightarrow> strict_by f (filter P xs)"
  by (induction xs) auto

end
