(* ===== verification/Sorted_Walk.thy ===== *)
theory Sorted_Walk
  imports Prelude
begin

text \<open>
  The two-pointer walk over two strictly sorted lists, which the code writes out four times:
  \<open>diff_entries\<close> (diff.rs), both loops of \<open>merge_prefix_entries\<close> (tree.rs) and
  \<open>compare_entries\<close> (guard.rs). Each call emits at most one record per key; the locale
  \<open>keyed_walk\<close> states that contract once and derives that the output is again strictly sorted
  and which record it holds at every key.
\<close>

fun walk ::
  "('a \<Rightarrow> 'k :: linorder) \<Rightarrow> ('b \<Rightarrow> 'k) \<Rightarrow> ('a \<Rightarrow> 'c list) \<Rightarrow> ('b \<Rightarrow> 'c list) \<Rightarrow> ('a \<Rightarrow> 'b \<Rightarrow> 'c list)
   \<Rightarrow> 'a list \<Rightarrow> 'b list \<Rightarrow> 'c list" where
  "walk kx ky l r b [] ys = concat (map r ys)"
| "walk kx ky l r b (x # xs) [] = concat (map l (x # xs))"
| "walk kx ky l r b (x # xs) (y # ys) =
     (if kx x = ky y then b x y @ walk kx ky l r b xs ys
      else if kx x < ky y then l x @ walk kx ky l r b xs (y # ys)
      else r y @ walk kx ky l r b (x # xs) ys)"

lemma two_lists_induct [case_names left right both]:
  assumes "\<And>ys. P [] ys" and "\<And>x xs. P (x # xs) []"
    and "\<And>x xs y ys. P xs ys \<Longrightarrow> P xs (y # ys) \<Longrightarrow> P (x # xs) ys \<Longrightarrow> P (x # xs) (y # ys)"
  shows "P xs ys"
proof (induction xs arbitrary: ys)
  case (Cons x xs)
  show ?case by (induction ys) (auto intro: assms Cons)
qed (rule assms(1))

definition first_of :: "'a list \<Rightarrow> 'a option" where
  "first_of xs = (case xs of [] \<Rightarrow> None | x # _ \<Rightarrow> Some x)"

lemma first_of_simps [simp]: "first_of [] = None" "first_of (x # xs) = Some x"
  by (simp_all add: first_of_def)

definition at_most_one :: "('c \<Rightarrow> 'k) \<Rightarrow> 'k \<Rightarrow> 'c list \<Rightarrow> bool" where
  "at_most_one kz k zs \<longleftrightarrow> zs = [] \<or> (\<exists>z. zs = [z] \<and> kz z = k)"

lemma at_most_one_simps [simp]:
  "at_most_one kz k []"
  "at_most_one kz k [z] \<longleftrightarrow> kz z = k"
  by (auto simp: at_most_one_def)

lemma at_most_one_index:
  "at_most_one kz k zs \<Longrightarrow> index_by kz (zs @ ws) k' =
     (if k' = k \<and> zs \<noteq> [] then first_of zs else index_by kz ws k')"
  by (auto simp: at_most_one_def)

lemma at_most_one_strict:
  "at_most_one kz k zs \<Longrightarrow> strict_by kz ws \<Longrightarrow> \<forall>w \<in> set ws. k < kz w \<Longrightarrow> strict_by kz (zs @ ws)"
  by (auto simp: at_most_one_def)

lemma at_most_one_keys: "at_most_one kz k zs \<Longrightarrow> z \<in> set zs \<Longrightarrow> kz z = k"
  by (auto simp: at_most_one_def)

lemma emit_strict:
  assumes one: "\<And>x. at_most_one kz (kx x) (l x)"
  shows "strict_by kx xs \<Longrightarrow> strict_by kz (concat (map l xs))"
proof (induction xs)
  case (Cons x xs)
  have "\<forall>w \<in> set (concat (map l xs)). kx x < kz w"
    using Cons.prems at_most_one_keys [OF one] by fastforce
  with Cons show ?case using at_most_one_strict [OF one] by simp
qed simp

lemma emit_index:
  assumes one: "\<And>x. at_most_one kz (kx x) (l x)"
  shows "strict_by kx xs \<Longrightarrow>
    index_by kz (concat (map l xs)) k = Option.bind (index_by kx xs k) (\<lambda>x. first_of (l x))"
proof (induction xs)
  case (Cons x xs)
  have "index_by kx xs (kx x) = None" using Cons.prems by (simp add: index_by_less_None)
  with Cons show ?case by (auto simp: at_most_one_index [OF one])
qed simp

definition emitted :: "('a \<Rightarrow> 'c list) \<Rightarrow> ('b \<Rightarrow> 'c list) \<Rightarrow> ('a \<Rightarrow> 'b \<Rightarrow> 'c list) \<Rightarrow> 'a option \<Rightarrow> 'b option \<Rightarrow> 'c option" where
  "emitted l r b u v =
     (case u of
        None \<Rightarrow> (case v of None \<Rightarrow> None | Some y \<Rightarrow> first_of (r y))
      | Some x \<Rightarrow> (case v of None \<Rightarrow> first_of (l x) | Some y \<Rightarrow> first_of (b x y)))"

lemma emitted_simps [simp]:
  "emitted l r b None None = None"
  "emitted l r b (Some x) None = first_of (l x)"
  "emitted l r b None (Some y) = first_of (r y)"
  "emitted l r b (Some x) (Some y) = first_of (b x y)"
  by (simp_all add: emitted_def)

locale keyed_walk =
  fixes kx :: "'a \<Rightarrow> 'k :: linorder" and ky :: "'b \<Rightarrow> 'k" and kz :: "'c \<Rightarrow> 'k"
    and l :: "'a \<Rightarrow> 'c list" and r :: "'b \<Rightarrow> 'c list" and b :: "'a \<Rightarrow> 'b \<Rightarrow> 'c list"
  assumes left_key: "at_most_one kz (kx x) (l x)"
    and right_key: "at_most_one kz (ky y) (r y)"
    and both_key: "kx x = ky y \<Longrightarrow> at_most_one kz (kx x) (b x y)"
begin

lemma walk_keys:
  "z \<in> set (walk kx ky l r b xs ys) \<Longrightarrow> kz z \<in> kx ` set xs \<union> ky ` set ys"
proof (induction xs ys rule: two_lists_induct)
  case (left ys)
  then show ?case using at_most_one_keys [OF right_key] by auto
next
  case (right x xs)
  then show ?case using at_most_one_keys [OF left_key] by auto
next
  case (both x xs y ys)
  then show ?case
    using at_most_one_keys [OF left_key] at_most_one_keys [OF right_key] at_most_one_keys [OF both_key]
    by (fastforce split: if_splits)
qed

lemma walk_bound:
  "\<forall>x \<in> set xs. k < kx x \<Longrightarrow> \<forall>y \<in> set ys. k < ky y \<Longrightarrow> z \<in> set (walk kx ky l r b xs ys) \<Longrightarrow> k < kz z"
  using walk_keys by fastforce

lemma walk_strict:
  "strict_by kx xs \<Longrightarrow> strict_by ky ys \<Longrightarrow> strict_by kz (walk kx ky l r b xs ys)"
proof (induction xs ys rule: two_lists_induct)
  case (left ys)
  then show ?case using emit_strict [where kx = ky and l = r and xs = ys, OF right_key] by simp
next
  case (right x xs)
  then show ?case using emit_strict [where kx = kx and l = l and xs = "x # xs", OF left_key] by simp
next
  case (both x xs y ys)
  have x: "\<forall>x' \<in> set xs. kx x < kx x'" and y: "\<forall>y' \<in> set ys. ky y < ky y'"
    using both.prems by auto
  consider "kx x = ky y" | "kx x < ky y" | "ky y < kx x" by (metis linorder_cases)
  then show ?case
  proof cases
    case 1
    with x y have "\<forall>w \<in> set (walk kx ky l r b xs ys). kx x < kz w" by (simp add: walk_bound)
    with 1 both show ?thesis by (simp add: at_most_one_strict [OF both_key] del: map_append)
  next
    case 2
    with x y have "\<forall>w \<in> set (walk kx ky l r b xs (y # ys)). kx x < kz w"
      by (intro ballI walk_bound [of xs _ "y # ys"]) (auto dest: order.strict_trans)
    with 2 both show ?thesis
      by (simp add: at_most_one_strict [OF left_key] less_imp_neq del: map_append)
  next
    case 3
    with x y have "\<forall>w \<in> set (walk kx ky l r b (x # xs) ys). ky y < kz w"
      by (intro ballI walk_bound [of "x # xs" _ ys]) (auto dest: order.strict_trans)
    moreover from 3 have "kx x \<noteq> ky y" "\<not> kx x < ky y" by auto
    ultimately show ?thesis using both by (simp add: at_most_one_strict [OF right_key] del: map_append)
  qed
qed

lemma walk_index:
  "strict_by kx xs \<Longrightarrow> strict_by ky ys \<Longrightarrow>
   index_by kz (walk kx ky l r b xs ys) k = emitted l r b (index_by kx xs k) (index_by ky ys k)"
proof (induction xs ys rule: two_lists_induct)
  case (left ys)
  then show ?case
    using emit_index [where kx = ky and l = r and xs = ys, OF right_key, of k] by (cases "index_by ky ys k") simp_all
next
  case (right x xs)
  then show ?case
    using emit_index [where kx = kx and l = l and xs = "x # xs", OF left_key, of k]
    by (cases "index_by kx (x # xs) k") (simp_all del: index_by_simps(2))
next
  case (both x xs y ys)
  have nx: "index_by kx xs (kx x) = None" and ny: "index_by ky ys (ky y) = None"
    using both.prems by (simp_all add: index_by_less_None)
  consider "kx x = ky y" | "kx x < ky y" | "ky y < kx x" by (metis linorder_cases)
  then show ?case
  proof cases
    case 1
    with both nx ny show ?thesis by (auto simp: at_most_one_index [OF both_key])
  next
    case 2
    then have "index_by ky (y # ys) (kx x) = None"
      using both.prems by (intro index_by_less_None) (auto dest: order.strict_trans)
    with 2 both nx show ?thesis by (auto simp: at_most_one_index [OF left_key])
  next
    case 3
    then have "index_by kx (x # xs) (ky y) = None"
      using both.prems by (intro index_by_less_None) (auto dest: order.strict_trans)
    with 3 both ny show ?thesis by (auto simp: at_most_one_index [OF right_key])
  qed
qed

end

end
