(* ===== verification/Entries.thy ===== *)
theory Entries
  imports Prelude
begin

text \<open>
  The data of the Merkle index (\<open>crates/sync-core/src/chunk.rs\<close>, \<open>hash.rs\<close>): a file entry with
  its path, content hash, modification time and size, and the error type of the core. A
  \<open>FileHash\<close> is the byte list of a 32-byte digest; \<open>hash_ok\<close> is the length the Rust array type
  fixes. Entry lists are ordered by path.
\<close>

type_synonym FileHash = bytes

definition ZERO_HASH :: FileHash where
  "ZERO_HASH = replicate 32 0"

abbreviation hash_ok :: "FileHash \<Rightarrow> bool" where
  "hash_ok h \<equiv> length h = 32"

record FileEntry =
  fe_path :: string
  fe_hash :: FileHash
  fe_mtime_ms :: u64
  fe_size_bytes :: u64

datatype ChunkError =
    Deserialize string
  | NotFound FileHash
  | Io

abbreviation invalid :: "string \<Rightarrow> ChunkError + 'a" where
  "invalid message \<equiv> Inl (Deserialize message)"

definition sorted_entries :: "FileEntry list \<Rightarrow> bool" where
  "sorted_entries es = strict_by fe_path es"

definition entry_map :: "FileEntry list \<Rightarrow> string \<rightharpoonup> FileEntry" where
  "entry_map es = index_by fe_path es"

lemma sorted_entries_simps [simp]:
  "sorted_entries []"
  "sorted_entries (e # es) \<longleftrightarrow> (\<forall>x \<in> set es. fe_path e < fe_path x) \<and> sorted_entries es"
  by (simp_all add: sorted_entries_def)

lemma entry_map_simps [simp]:
  "entry_map [] = Map.empty"
  "entry_map (e # es) = (entry_map es)(fe_path e \<mapsto> e)"
  by (simp_all add: entry_map_def)

lemma entry_map_None: "entry_map es p = None \<longleftrightarrow> p \<notin> fe_path ` set es"
  by (simp add: entry_map_def index_by_None_iff)

lemma entry_map_SomeD: "entry_map es p = Some e \<Longrightarrow> e \<in> set es \<and> fe_path e = p"
  unfolding entry_map_def by (rule index_by_SomeD)

lemma entry_map_Some:
  "sorted_entries es \<Longrightarrow> entry_map es p = Some e \<longleftrightarrow> e \<in> set es \<and> fe_path e = p"
  by (simp add: entry_map_def sorted_entries_def index_by_strict)

lemma entry_map_before: "\<forall>x \<in> set es. p < fe_path x \<Longrightarrow> entry_map es p = None"
  by (auto simp: entry_map_None)

lemma entry_map_before_trans:
  "p < q \<Longrightarrow> \<forall>x \<in> set es. q < fe_path x \<Longrightarrow> entry_map es p = None"
  by (rule entry_map_before) (auto intro: order.strict_trans)

lemma sorted_entries_same_map:
  "sorted_entries es \<Longrightarrow> sorted_entries fs \<Longrightarrow> entry_map es = entry_map fs \<Longrightarrow> es = fs"
  by (auto simp: sorted_entries_def entry_map_def intro: strict_by_same_map)

lemma sorted_entries_append:
  "sorted_entries (es @ fs) \<longleftrightarrow>
     sorted_entries es \<and> sorted_entries fs \<and> (\<forall>x \<in> set es. \<forall>y \<in> set fs. fe_path x < fe_path y)"
  by (simp only: sorted_entries_def strict_by_append)

lemma sorted_entries_distinct_paths: "sorted_entries es \<Longrightarrow> distinct (map fe_path es)"
  by (simp add: sorted_entries_def strict_by_distinct)

end
