(* ===== verification/Diff.thy ===== *)
theory Diff
  imports Entries Sorted_Walk
begin

text \<open>
  File-level deltas between two vault states (\<open>crates/sync-core/src/diff.rs\<close>): the two-pointer
  comparison of sorted entry lists and the rename detection that follows it. The
  specification is \<open>apply_deltas\<close>, what a puller does with a delta list; the theorems
  show that the deltas take the old state exactly to the new one, before and after renames
  are recognised.
\<close>

section \<open>Definitions\<close>

datatype FileDelta =
    Added string FileHash u64 u64
  | Modified string FileHash u64 u64
  | Deleted string FileHash
  | Renamed string string FileHash u64 u64

fun delta_path :: "FileDelta \<Rightarrow> string" where
  "delta_path (Added path h sz mtime) = path"
| "delta_path (Modified path h sz mtime) = path"
| "delta_path (Deleted path h) = path"
| "delta_path (Renamed path old_path h sz mtime) = path"

definition added_of :: "FileEntry \<Rightarrow> FileDelta" where
  "added_of e = Added (fe_path e) (fe_hash e) (fe_size_bytes e) (fe_mtime_ms e)"

definition modified_of :: "FileEntry \<Rightarrow> FileDelta" where
  "modified_of e = Modified (fe_path e) (fe_hash e) (fe_size_bytes e) (fe_mtime_ms e)"

definition deleted_of :: "FileEntry \<Rightarrow> FileDelta" where
  "deleted_of e = Deleted (fe_path e) (fe_hash e)"

text \<open>The indices \<open>i\<close> and \<open>j\<close> of the source are the suffixes still to be compared; \<open>deltas\<close> is
  the vector the function appends to.\<close>

fun diff_entries :: "FileEntry list \<Rightarrow> FileEntry list \<Rightarrow> FileDelta list \<Rightarrow> FileDelta list" where
  "diff_entries [] ts deltas = deltas @ map added_of ts"
| "diff_entries (f # fs) [] deltas = deltas @ map deleted_of (f # fs)"
| "diff_entries (f # fs) (t # ts) deltas =
     (if fe_path f = fe_path t then
        diff_entries fs ts
          (if fe_hash f \<noteq> fe_hash t \<or> fe_mtime_ms f \<noteq> fe_mtime_ms t
              \<or> fe_size_bytes f \<noteq> fe_size_bytes t
           then deltas @ [modified_of t] else deltas)
      else if fe_path f < fe_path t then
        diff_entries fs (t # ts) (deltas @ [deleted_of f])
      else
        diff_entries (f # fs) ts (deltas @ [added_of t]))"

text \<open>
  \<open>detect_renames\<close> first records, per content hash, the positions of the deletions and of the
  additions (\<open>entry(hash).or_default().push(index)\<close>), then turns every hash with exactly one
  of each into a rename at the deletion's position. The hash maps are association lists in
  insertion order; the loop over \<open>deleted\<close> visits each hash once, in an order that does not
  matter for the two result tables.
\<close>

type_synonym hash_index = "(FileHash \<times> nat list) list"

fun push_index :: "FileHash \<Rightarrow> nat \<Rightarrow> hash_index \<Rightarrow> hash_index" where
  "push_index h i [] = [(h, [i])]"
| "push_index h i ((k, is) # rest) =
     (if k = h then (k, is @ [i]) # rest else (k, is) # push_index h i rest)"

fun index_deltas :: "nat \<Rightarrow> FileDelta list \<Rightarrow> hash_index \<times> hash_index \<Rightarrow> hash_index \<times> hash_index" where
  "index_deltas i [] (deleted, added) = (deleted, added)"
| "index_deltas i (Deleted path h # ds) (deleted, added) =
     index_deltas (Suc i) ds (push_index h i deleted, added)"
| "index_deltas i (Added path h sz mtime # ds) (deleted, added) =
     index_deltas (Suc i) ds (deleted, push_index h i added)"
| "index_deltas i (d # ds) (deleted, added) = index_deltas (Suc i) ds (deleted, added)"

fun rename_of :: "FileDelta \<Rightarrow> FileDelta \<Rightarrow> FileDelta option" where
  "rename_of (Deleted old_path h) (Added path h' sz mtime) =
     Some (Renamed path old_path h sz mtime)"
| "rename_of _ _ = None"

fun pair_renames ::
  "FileDelta list \<Rightarrow> hash_index \<Rightarrow> hash_index \<Rightarrow> (nat \<rightharpoonup> FileDelta) \<times> nat list
   \<Rightarrow> (nat \<rightharpoonup> FileDelta) \<times> nat list" where
  "pair_renames deltas added [] (replacements, consumed) = (replacements, consumed)"
| "pair_renames deltas added ((h, deleted_indices) # rest) (replacements, consumed) =
     (case (deleted_indices, map_of added h) of
        ([delete_index], Some [add_index]) \<Rightarrow>
          pair_renames deltas added rest
            (replacements(delete_index := rename_of (deltas ! delete_index) (deltas ! add_index)),
             add_index # consumed)
      | _ \<Rightarrow> pair_renames deltas added rest (replacements, consumed))"

fun keep_deltas ::
  "nat \<Rightarrow> (nat \<rightharpoonup> FileDelta) \<Rightarrow> nat list \<Rightarrow> FileDelta list \<Rightarrow> FileDelta list" where
  "keep_deltas i replacements consumed [] = []"
| "keep_deltas i replacements consumed (d # ds) =
     (case replacements i of
        Some r \<Rightarrow> [r]
      | None \<Rightarrow> if i \<in> set consumed then [] else [d])
     @ keep_deltas (Suc i) replacements consumed ds"

definition detect_renames :: "FileDelta list \<Rightarrow> FileDelta list" where
  "detect_renames deltas =
     (let (deleted, added) = index_deltas 0 deltas ([], []);
          (replacements, consumed) = pair_renames deltas added deleted (Map.empty, [])
      in keep_deltas 0 replacements consumed deltas)"

section \<open>Specification: what a delta list does to a vault\<close>

fun delta_writes :: "FileDelta \<Rightarrow> (string \<times> FileEntry option) list" where
  "delta_writes (Added path h sz mtime) = [(path, Some (FileEntry.make path h mtime sz))]"
| "delta_writes (Modified path h sz mtime) = [(path, Some (FileEntry.make path h mtime sz))]"
| "delta_writes (Deleted path h) = [(path, None)]"
| "delta_writes (Renamed path old_path h sz mtime) =
     [(old_path, None), (path, Some (FileEntry.make path h mtime sz))]"

fun apply_writes ::
  "(string \<times> FileEntry option) list \<Rightarrow> (string \<rightharpoonup> FileEntry) \<Rightarrow> (string \<rightharpoonup> FileEntry)" where
  "apply_writes [] m = m"
| "apply_writes ((p, v) # ws) m = apply_writes ws (m(p := v))"

definition all_writes :: "FileDelta list \<Rightarrow> (string \<times> FileEntry option) list" where
  "all_writes ds = concat (map delta_writes ds)"

definition apply_deltas ::
  "FileDelta list \<Rightarrow> (string \<rightharpoonup> FileEntry) \<Rightarrow> (string \<rightharpoonup> FileEntry)" where
  "apply_deltas ds m = apply_writes (all_writes ds) m"

section \<open>Writes of a delta list\<close>

lemma apply_writes_distinct:
  "distinct (map fst ws) \<Longrightarrow>
   apply_writes ws m p = (case map_of ws p of None \<Rightarrow> m p | Some v \<Rightarrow> v)"
proof (induction ws arbitrary: m)
  case (Cons w ws)
  obtain q v where w: "w = (q, v)" by (cases w)
  with Cons.prems have fresh: "map_of ws q = None" and d: "distinct (map fst ws)"
    by (auto simp: map_of_eq_None_iff)
  have "apply_writes ws (m(q := v)) p = (case map_of ws p of None \<Rightarrow> (m(q := v)) p | Some u \<Rightarrow> u)"
    by (rule Cons.IH [OF d])
  with w fresh show ?case by (cases "p = q") (simp_all split: option.split)
qed simp

lemma apply_writes_permuted:
  assumes "mset ws = mset ws'" "distinct (map fst ws)"
  shows "apply_writes ws m = apply_writes ws' m"
proof -
  have d: "distinct (map fst ws')"
    using assms by (metis mset_eq_imp_distinct_iff mset_map)
  have "map_of ws = map_of ws'"
    using assms d mset_eq_setD [OF assms(1)] by (simp add: map_of_inject_set)
  then show ?thesis
    using assms(2) d by (simp add: fun_eq_iff apply_writes_distinct)
qed

lemma all_writes_simps [simp]:
  "all_writes [] = []"
  "all_writes (d # ds) = delta_writes d @ all_writes ds"
  "all_writes (ds @ ds') = all_writes ds @ all_writes ds'"
  by (simp_all add: all_writes_def)

lemma delta_writes_of [simp]:
  "delta_writes (added_of e) = [(fe_path e, Some e)]"
  "delta_writes (modified_of e) = [(fe_path e, Some e)]"
  "delta_writes (deleted_of e) = [(fe_path e, None)]"
  by (simp_all add: added_of_def modified_of_def deleted_of_def FileEntry.make_def)

lemma all_writes_map [simp]:
  "all_writes (map added_of es) = map (\<lambda>e. (fe_path e, Some e)) es"
  "all_writes (map deleted_of es) = map (\<lambda>e. (fe_path e, None)) es"
  by (induction es) auto

section \<open>The two-pointer comparison\<close>

text \<open>The same comparison without the accumulator, the form the proofs induct on.\<close>

fun diff_list :: "FileEntry list \<Rightarrow> FileEntry list \<Rightarrow> FileDelta list" where
  "diff_list [] ts = map added_of ts"
| "diff_list (f # fs) [] = map deleted_of (f # fs)"
| "diff_list (f # fs) (t # ts) =
     (if fe_path f = fe_path t then (if f = t then [] else [modified_of t]) @ diff_list fs ts
      else if fe_path f < fe_path t then deleted_of f # diff_list fs (t # ts)
      else added_of t # diff_list (f # fs) ts)"

lemma same_entry:
  "fe_path f = fe_path t \<Longrightarrow>
   fe_hash f \<noteq> fe_hash t \<or> fe_mtime_ms f \<noteq> fe_mtime_ms t \<or> fe_size_bytes f \<noteq> fe_size_bytes t
   \<longleftrightarrow> f \<noteq> (t :: FileEntry)"
  by (auto intro: FileEntry.equality)

lemma diff_entries_eq: "diff_entries fs ts deltas = deltas @ diff_list fs ts"
proof (induction fs ts deltas rule: diff_entries.induct)
  case (3 f fs t ts deltas)
  show ?case
  proof (cases "fe_path f = fe_path t")
    case True
    with "3.IH"(1) [OF True] same_entry [OF True] show ?thesis by auto
  next
    case False
    with "3.IH"(2,3) show ?thesis by simp
  qed
qed simp_all

definition write_removed :: "FileEntry \<Rightarrow> (string \<times> FileEntry option) list" where
  "write_removed f = [(fe_path f, None)]"

definition write_new :: "FileEntry \<Rightarrow> (string \<times> FileEntry option) list" where
  "write_new t = [(fe_path t, Some t)]"

definition write_changed :: "FileEntry \<Rightarrow> FileEntry \<Rightarrow> (string \<times> FileEntry option) list" where
  "write_changed f t = (if f = t then [] else [(fe_path t, Some t)])"

lemmas write_defs = write_removed_def write_new_def write_changed_def

interpretation diff_walk: keyed_walk fe_path fe_path fst write_removed write_new write_changed
  by unfold_locales (auto simp: write_defs)

lemma diff_list_walk:
  "all_writes (diff_list fs ts) = walk fe_path fe_path write_removed write_new write_changed fs ts"
proof (induction fs ts rule: diff_list.induct)
  case (1 ts)
  show ?case by (induction ts) (auto simp: write_defs)
next
  case (2 f fs)
  have "all_writes (map deleted_of es) = concat (map write_removed es)" for es
    by (induction es) (auto simp: write_defs)
  from this [of "f # fs"] show ?case by simp
qed (auto simp: write_defs)

lemma diff_list_sorted:
  "sorted_entries fs \<Longrightarrow> sorted_entries ts \<Longrightarrow> strict_by fst (all_writes (diff_list fs ts))"
  unfolding diff_list_walk sorted_entries_def by (rule diff_walk.walk_strict)

lemma diff_list_writes:
  assumes "sorted_entries fs" "sorted_entries ts"
  shows "map_of (all_writes (diff_list fs ts)) p =
    (if entry_map fs p = entry_map ts p then None else Some (entry_map ts p))"
proof -
  have "index_by fst ws p = map_option (\<lambda>v. (p, v)) (map_of ws p)"
    for ws :: "(string \<times> FileEntry option) list"
    by (induction ws) auto
  moreover have "index_by fst (all_writes (diff_list fs ts)) p =
      emitted write_removed write_new write_changed (entry_map fs p) (entry_map ts p)"
    using assms unfolding diff_list_walk sorted_entries_def entry_map_def
    by (rule diff_walk.walk_index)
  ultimately show ?thesis
    by (cases "entry_map fs p"; cases "entry_map ts p")
      (auto simp: write_defs dest: entry_map_SomeD split: if_splits)
qed

lemma diff_list_apply:
  assumes "sorted_entries fs" "sorted_entries ts"
  shows "apply_deltas (diff_list fs ts) (entry_map fs) = entry_map ts"
proof -
  have "distinct (map fst (all_writes (diff_list fs ts)))"
    using diff_list_sorted [OF assms] strict_sorted_iff by blast
  then show ?thesis
    by (simp add: fun_eq_iff apply_deltas_def apply_writes_distinct diff_list_writes [OF assms])
qed

section \<open>Rename detection\<close>

fun deletes_hash :: "FileHash \<Rightarrow> FileDelta \<Rightarrow> bool" where
  "deletes_hash h (Deleted path h') = (h = h')"
| "deletes_hash h _ = False"

fun adds_hash :: "FileHash \<Rightarrow> FileDelta \<Rightarrow> bool" where
  "adds_hash h (Added path h' sz mtime) = (h = h')"
| "adds_hash h _ = False"

fun positions :: "(FileDelta \<Rightarrow> bool) \<Rightarrow> nat \<Rightarrow> FileDelta list \<Rightarrow> nat list" where
  "positions P i [] = []"
| "positions P i (d # ds) = (if P d then [i] else []) @ positions P (Suc i) ds"

lemma positions_from:
  "k \<in> set (positions P i ds) \<longleftrightarrow> i \<le> k \<and> k < i + length ds \<and> P (ds ! (k - i))"
proof (induction P i ds rule: positions.induct)
  case (2 P i d ds)
  show ?case
  proof (cases "k = i")
    case False
    then have "i \<le> k \<longleftrightarrow> Suc i \<le> k" and "Suc i \<le> k \<Longrightarrow> (d # ds) ! (k - i) = ds ! (k - Suc i)"
      by (auto simp: nth_Cons' Suc_diff_Suc)
    with 2 False show ?thesis by auto
  qed (use 2 in auto)
qed simp

lemma positions_mem: "k \<in> set (positions P 0 ds) \<longleftrightarrow> k < length ds \<and> P (ds ! k)"
  by (simp add: positions_from)

lemma push_index_lookup:
  "map_of (push_index h i ix) k =
     (if k = h then Some ((case map_of ix h of None \<Rightarrow> [] | Some is \<Rightarrow> is) @ [i]) else map_of ix k)"
  by (induction h i ix rule: push_index.induct) auto

lemma push_index_keys: "fst ` set (push_index h i ix) = insert h (fst ` set ix)"
  by (induction h i ix rule: push_index.induct) auto

lemma push_index_distinct: "distinct (map fst ix) \<Longrightarrow> distinct (map fst (push_index h i ix))"
  by (induction h i ix rule: push_index.induct) (auto simp: push_index_keys)

definition extend_index :: "nat list option \<Rightarrow> nat list \<Rightarrow> nat list option" where
  "extend_index is js =
     (if js = [] then is else Some ((case is of None \<Rightarrow> [] | Some is' \<Rightarrow> is') @ js))"

lemma index_deltas_lookup:
  assumes "index_deltas i ds (D, A) = (D', A')"
  shows "map_of D' h = extend_index (map_of D h) (positions (deletes_hash h) i ds)"
    and "map_of A' h = extend_index (map_of A h) (positions (adds_hash h) i ds)"
    and "distinct (map fst D) \<Longrightarrow> distinct (map fst D')"
  using assms
  by (induction i ds "(D, A)" arbitrary: D A rule: index_deltas.induct)
    (auto simp: push_index_lookup push_index_distinct extend_index_def split: option.splits)

text \<open>The rename partner of position \<open>k\<close>: the only addition of the hash whose only deletion is
  at \<open>k\<close>.\<close>

definition partner :: "FileDelta list \<Rightarrow> nat \<Rightarrow> nat option" where
  "partner ds k =
     (if k < length ds then
        (case ds ! k of
           Deleted path h \<Rightarrow>
             (case (positions (deletes_hash h) 0 ds, positions (adds_hash h) 0 ds) of
                ([_], [j]) \<Rightarrow> Some j
              | _ \<Rightarrow> None)
         | _ \<Rightarrow> None)
      else None)"

lemma partner_Some:
  "partner ds k = Some j \<longleftrightarrow>
     (\<exists>h. positions (deletes_hash h) 0 ds = [k] \<and> positions (adds_hash h) 0 ds = [j])"
proof
  assume "partner ds k = Some j"
  then obtain path h where k: "k < length ds" "ds ! k = Deleted path h"
    and ps: "\<exists>x. positions (deletes_hash h) 0 ds = [x]" "positions (adds_hash h) 0 ds = [j]"
    by (auto simp: partner_def split: if_splits FileDelta.splits list.splits)
  then have "k \<in> set (positions (deletes_hash h) 0 ds)" by (simp add: positions_mem)
  with ps show "\<exists>h. positions (deletes_hash h) 0 ds = [k] \<and> positions (adds_hash h) 0 ds = [j]"
    by auto
next
  assume "\<exists>h. positions (deletes_hash h) 0 ds = [k] \<and> positions (adds_hash h) 0 ds = [j]"
  then obtain h where ps: "positions (deletes_hash h) 0 ds = [k]" "positions (adds_hash h) 0 ds = [j]"
    by blast
  then have "k < length ds" "deletes_hash h (ds ! k)"
    using positions_mem [of k "deletes_hash h" ds] by auto
  with ps show "partner ds k = Some j"
    by (cases "ds ! k") (auto simp: partner_def)
qed


definition paired :: "hash_index \<Rightarrow> hash_index \<Rightarrow> nat \<Rightarrow> nat \<Rightarrow> bool" where
  "paired D A k j \<longleftrightarrow> (\<exists>h. (h, [k]) \<in> set D \<and> map_of A h = Some [j])"

lemma paired_Cons:
  "paired ((h, is) # D) A k j \<longleftrightarrow> is = [k] \<and> map_of A h = Some [j] \<or> paired D A k j"
  by (auto simp: paired_def)

lemma pair_renames_step:
  "pair_renames ds A ((h, is) # D) (R, C) =
     (if \<exists>k j. is = [k] \<and> map_of A h = Some [j]
      then pair_renames ds A D
             (R(hd is := rename_of (ds ! hd is) (ds ! hd (the (map_of A h)))),
              hd (the (map_of A h)) # C)
      else pair_renames ds A D (R, C))"
  by (auto split: list.splits option.splits)

lemma pair_renames_consumed:
  "set (snd (pair_renames ds A D (R, C))) = set C \<union> {j. \<exists>k. paired D A k j}"
proof (induction D arbitrary: R C)
  case (Cons x D)
  obtain h "is" where x: "x = (h, is)" by (cases x)
  show ?case
    unfolding x pair_renames_step using Cons by (auto simp: paired_Cons)
qed (simp add: paired_def)

lemma deletes_hash_unique: "deletes_hash h d \<Longrightarrow> deletes_hash h' d \<Longrightarrow> h = h'"
  by (cases d) auto

lemma pair_renames_replacements:
  assumes "distinct (map fst D)"
    and "\<forall>(h, is) \<in> set D. \<forall>k \<in> set is. deletes_hash h (ds ! k)"
  shows "(\<forall>j. paired D A k j \<longrightarrow>
            fst (pair_renames ds A D (R, C)) k = rename_of (ds ! k) (ds ! j)) \<and>
         ((\<nexists>j. paired D A k j) \<longrightarrow> fst (pair_renames ds A D (R, C)) k = R k)"
  using assms
proof (induction D arbitrary: R C)
  case (Cons x D)
  obtain h "is" where x: "x = (h, is)" by (cases x)
  have alone: "\<not> paired D A k j" if k: "is = [k]" for j
  proof
    assume "paired D A k j"
    then obtain h' where h': "(h', [k]) \<in> set D" by (auto simp: paired_def)
    with Cons.prems(2) have "deletes_hash h' (ds ! k)" by fastforce
    moreover have "deletes_hash h (ds ! k)" using Cons.prems(2) x k by simp
    ultimately have "h' = h" by (rule deletes_hash_unique)
    with Cons.prems(1) x h' show False by force
  qed
  have IH: "(\<forall>j. paired D A k j \<longrightarrow>
            fst (pair_renames ds A D (R, C)) k = rename_of (ds ! k) (ds ! j)) \<and>
         ((\<nexists>j. paired D A k j) \<longrightarrow> fst (pair_renames ds A D (R, C)) k = R k)" for R C
    using Cons by simp
  show ?case
  proof (cases "\<exists>k j. is = [k] \<and> map_of A h = Some [j]")
    case True
    then obtain k0 j0 where eq: "is = [k0]" "map_of A h = Some [j0]" by blast
    then have step: "pair_renames ds A (x # D) (R, C) =
        pair_renames ds A D (R(k0 := rename_of (ds ! k0) (ds ! j0)), j0 # C)"
      using x by simp
    show ?thesis
      unfolding step unfolding x paired_Cons eq
      using IH [of "R(k0 := rename_of (ds ! k0) (ds ! j0))" "j0 # C"] alone eq
      by (cases "k = k0") simp_all
  next
    case False
    then have step: "pair_renames ds A (x # D) (R, C) = pair_renames ds A D (R, C)"
      unfolding x pair_renames_step by (simp only: if_False)
    have "paired (x # D) A k j \<longleftrightarrow> paired D A k j" for j
      unfolding x paired_Cons using False by blast
    then show ?thesis unfolding step using IH [of R C] by simp
  qed
qed (simp add: paired_def)

lemma detect_renames_eq:
  "\<exists>consumed. set consumed = ran (partner ds) \<and>
     detect_renames ds =
       keep_deltas 0 (\<lambda>k. Option.bind (partner ds k) (\<lambda>j. rename_of (ds ! k) (ds ! j))) consumed ds"
proof -
  obtain D A where DA: "index_deltas 0 ds ([], []) = (D, A)" by (metis surj_pair)
  obtain R C where RC: "pair_renames ds A D (Map.empty, []) = (R, C)" by (metis surj_pair)
  note look = index_deltas_lookup [OF DA]
  have dist: "distinct (map fst D)" by (simp add: look(3))
  have inD: "(h, is) \<in> set D \<longleftrightarrow> is \<noteq> [] \<and> positions (deletes_hash h) 0 ds = is" for h "is"
    using look(1) [of h] map_of_eq_Some_iff [OF dist, of h "is"]
    by (auto simp: extend_index_def split: if_splits)
  have inA: "map_of A h = Some [j] \<longleftrightarrow> positions (adds_hash h) 0 ds = [j]" for h j
    using look(2) [of h] by (simp add: extend_index_def)
  have pair: "paired D A k j \<longleftrightarrow> partner ds k = Some j" for k j
    unfolding paired_def inD inA partner_Some by auto
  have hs: "\<forall>(h, is) \<in> set D. \<forall>k \<in> set is. deletes_hash h (ds ! k)"
    by (auto simp: inD positions_mem)
  have "R k = Option.bind (partner ds k) (\<lambda>j. rename_of (ds ! k) (ds ! j))" for k
    using pair_renames_replacements [OF dist hs, of A k Map.empty "[]"]
    unfolding RC pair fst_conv by (cases "partner ds k") simp_all
  then have R: "R = (\<lambda>k. Option.bind (partner ds k) (\<lambda>j. rename_of (ds ! k) (ds ! j)))" ..
  have "set C = ran (partner ds)"
    using pair_renames_consumed [of ds A D Map.empty "[]"] unfolding RC pair by (simp add: ran_def)
  then show ?thesis
    using DA RC R by (intro exI [of _ C]) (simp add: detect_renames_def)
qed

lemma partner_shape:
  assumes "partner ds k = Some j"
  obtains h old_path path sz mtime where
    "k < length ds" "j < length ds" "ds ! k = Deleted old_path h" "ds ! j = Added path h sz mtime"
proof -
  from assms obtain h where ps: "positions (deletes_hash h) 0 ds = [k]" "positions (adds_hash h) 0 ds = [j]"
    by (auto simp: partner_Some)
  then have "k < length ds \<and> deletes_hash h (ds ! k)" "j < length ds \<and> adds_hash h (ds ! j)"
    using positions_mem [of k "deletes_hash h" ds] positions_mem [of j "adds_hash h" ds] by auto
  then show ?thesis
    using that by (cases "ds ! k"; cases "ds ! j") auto
qed

lemma partner_inj: "partner ds k = Some j \<Longrightarrow> partner ds k' = Some j \<Longrightarrow> k = k'"
proof -
  assume "partner ds k = Some j" "partner ds k' = Some j"
  then obtain h h' where ps: "positions (deletes_hash h) 0 ds = [k]" "positions (adds_hash h) 0 ds = [j]"
    "positions (deletes_hash h') 0 ds = [k']" "positions (adds_hash h') 0 ds = [j]"
    by (auto simp: partner_Some)
  then have "adds_hash h (ds ! j)" "adds_hash h' (ds ! j)"
    using positions_mem [of j "adds_hash h" ds] positions_mem [of j "adds_hash h'" ds] by auto
  then have "h = h'" by (cases "ds ! j") auto
  with ps show "k = k'" by simp
qed

definition kept :: "(nat \<rightharpoonup> FileDelta) \<Rightarrow> nat set \<Rightarrow> nat \<Rightarrow> FileDelta \<Rightarrow> FileDelta list" where
  "kept R C k d = (case R k of Some r \<Rightarrow> [r] | None \<Rightarrow> if k \<in> C then [] else [d])"

lemma keep_deltas_writes:
  "mset (all_writes (keep_deltas i R C ds)) =
     (\<Sum>k < length ds. mset (all_writes (kept R (set C) (i + k) (ds ! k))))"
proof (induction i R C ds rule: keep_deltas.induct)
  case (2 i R C d ds)
  have "keep_deltas i R C (d # ds) = kept R (set C) i d @ keep_deltas (Suc i) R C ds"
    by (simp add: kept_def)
  with 2 show ?case
    by (simp add: sum.lessThan_Suc_shift del: sum.lessThan_Suc keep_deltas.simps)
qed simp

text \<open>Pairing moves the addition's write next to the deletion's and loses none: the multiset of
  writes is unchanged.\<close>

lemma detect_renames_writes: "mset (all_writes (detect_renames ds)) = mset (all_writes ds)"
proof -
  obtain C where C: "set C = ran (partner ds)" and eq: "detect_renames ds =
      keep_deltas 0 (\<lambda>k. Option.bind (partner ds k) (\<lambda>j. rename_of (ds ! k) (ds ! j))) C ds"
    using detect_renames_eq by blast
  define n where "n = length ds"
  define W where "W k = mset (delta_writes (ds ! k))" for k
  define K where "K = dom (partner ds)"
  define J where "J = ran (partner ds)"
  define \<pi> where "\<pi> k = the (partner ds k)" for k
  have K: "K \<subseteq> {..<n}" and J: "J \<subseteq> {..<n}" and KJ: "K \<inter> J = {}"
    by (auto simp: K_def J_def n_def ran_def elim!: partner_shape)
  have only_in: "(\<Sum>k < n. if k \<in> S then f k else {#}) = (\<Sum>k \<in> S. f k)" if "S \<subseteq> {..<n}"
    for S and f :: "nat \<Rightarrow> (string \<times> FileEntry option) multiset"
    using that by (intro sum.mono_neutral_cong_right) auto
  have bij: "bij_betw \<pi> K J"
    unfolding bij_betw_def inj_on_def K_def J_def \<pi>_def ran_def
    by (auto intro: partner_inj simp: image_iff) force
  have out: "mset (all_writes (kept (\<lambda>k. Option.bind (partner ds k) (\<lambda>j. rename_of (ds ! k) (ds ! j)))
        (set C) k (ds ! k))) = (if k \<in> J then {#} else W k) + (if k \<in> K then W (\<pi> k) else {#})" for k
  proof (cases "partner ds k")
    case None
    then show ?thesis by (auto simp: kept_def C J_def K_def W_def)
  next
    case (Some j)
    then have "k \<in> K" "k \<notin> J" using KJ by (auto simp: K_def)
    moreover from Some obtain h old_path path sz mtime where
      "ds ! k = Deleted old_path h" "ds ! j = Added path h sz mtime" by (rule partner_shape)
    ultimately show ?thesis using Some by (simp add: kept_def W_def \<pi>_def)
  qed
  have "mset (all_writes (detect_renames ds)) =
      (\<Sum>k < n. (if k \<in> J then {#} else W k) + (if k \<in> K then W (\<pi> k) else {#}))"
    unfolding eq keep_deltas_writes by (simp add: out n_def)
  also have "\<dots> = (\<Sum>k < n. if k \<in> J then {#} else W k) + (\<Sum>k \<in> K. W (\<pi> k))"
    unfolding sum.distrib only_in [OF K] ..
  also have "(\<Sum>k \<in> K. W (\<pi> k)) = (\<Sum>k < n. if k \<in> J then W k else {#})"
    unfolding only_in [OF J] by (rule sum.reindex_bij_betw [OF bij])
  also have "(\<Sum>k < n. if k \<in> J then {#} else W k) + \<dots> = (\<Sum>k < n. W k)"
    unfolding sum.distrib [symmetric] by (rule sum.cong) auto
  also have "\<dots> = mset (all_writes ds)"
    unfolding W_def n_def all_writes_def mset_concat
    by (simp add: sum_list_sum_nth atLeast0LessThan)
  finally show ?thesis .
qed


lemma positions_filter: "map (\<lambda>k. ds ! (k - i)) (positions P i ds) = filter P ds"
proof (induction P i ds rule: positions.induct)
  case (2 P i d ds)
  have "map (\<lambda>k. (d # ds) ! (k - i)) (positions P (Suc i) ds) =
      map (\<lambda>k. ds ! (k - Suc i)) (positions P (Suc i) ds)"
    by (rule map_cong) (auto simp: positions_from nth_Cons' Suc_diff_Suc)
  with 2 show ?case by simp
qed simp

lemma positions_single: "(\<exists>k. positions P 0 ds = [k] \<and> ds ! k = d) \<longleftrightarrow> filter P ds = [d]"
  using positions_filter [of ds 0 P] by (cases "positions P 0 ds") auto

lemma keep_deltas_mem:
  "r \<in> set (keep_deltas i R C ds) \<longleftrightarrow> (\<exists>k < length ds. r \<in> set (kept R (set C) (i + k) (ds ! k)))"
proof (induction i R C ds rule: keep_deltas.induct)
  case (2 i R C d ds)
  have "keep_deltas i R C (d # ds) = kept R (set C) i d @ keep_deltas (Suc i) R C ds"
    by (simp add: kept_def)
  with 2 show ?case
    by (simp add: Ex_less_Suc2 del: keep_deltas.simps)
qed simp

section \<open>Properties\<close>

lemma diff_renames_apply:
  assumes "sorted_entries fs" and "sorted_entries ts"
  shows "apply_deltas (detect_renames (diff_entries fs ts [])) (entry_map fs) = entry_map ts"
proof -
  have "distinct (map fst (all_writes (diff_list fs ts)))"
    using diff_list_sorted [OF assms] strict_sorted_iff by blast
  then have "apply_writes (all_writes (detect_renames (diff_list fs ts))) (entry_map fs) =
      apply_writes (all_writes (diff_list fs ts)) (entry_map fs)"
    by (intro apply_writes_permuted [symmetric]) (simp_all add: detect_renames_writes)
  then show ?thesis
    using diff_list_apply [OF assms] by (simp add: diff_entries_eq apply_deltas_def)
qed

text \<open>(C14) The delta list computed for two sorted vault states, after rename detection, takes the
  old state exactly to the new one: every path ends with the new entry (content hash, size
  and modification time) or is absent.\<close>

theorem diff_then_apply:
  assumes "sorted_entries fs" and "sorted_entries ts"
  shows "apply_deltas (detect_renames (diff_entries fs ts [])) (entry_map fs) = entry_map ts"
  using assms by (rule diff_renames_apply)

theorem diff_then_apply_witness:
  "let fs = [FileEntry.make ''a'' [1] 10 5, FileEntry.make ''b'' [2] 11 6];
       ts = [FileEntry.make ''b'' [3] 12 7, FileEntry.make ''c'' [1] 10 5]
   in detect_renames (diff_entries fs ts []) =
        [Renamed ''c'' ''a'' [1] 5 10, Modified ''b'' [3] 7 12]
      \<and> apply_deltas (detect_renames (diff_entries fs ts [])) (entry_map fs) = entry_map ts"
proof -
  let ?fs = "[FileEntry.make ''a'' [1] 10 5, FileEntry.make ''b'' [2] 11 6]"
  let ?ts = "[FileEntry.make ''b'' [3] 12 7, FileEntry.make ''c'' [1] 10 5]"
  have "sorted_entries ?fs" "sorted_entries ?ts" by (simp_all add: FileEntry.make_def)
  from diff_then_apply [OF this]
  have "apply_deltas (detect_renames (diff_entries ?fs ?ts [])) (entry_map ?fs) = entry_map ?ts" .
  moreover have "detect_renames (diff_entries ?fs ?ts []) =
      [Renamed ''c'' ''a'' [1] 5 10, Modified ''b'' [3] 7 12]"
    by code_simp
  ultimately show ?thesis by simp
qed

text \<open>(C15) The delta list is exact: the paths it touches, counting both ends of a rename, are
  pairwise different and are precisely the paths whose entry differs between the two
  states. In particular equal states give an empty delta list.\<close>

theorem diff_touches_exactly:
  assumes "sorted_entries fs" and "sorted_entries ts"
  shows "distinct (map fst (all_writes (detect_renames (diff_entries fs ts []))))
    \<and> fst ` set (all_writes (detect_renames (diff_entries fs ts []))) =
        {p. entry_map fs p \<noteq> entry_map ts p}"
proof -
  let ?ws = "all_writes (diff_list fs ts)" and ?rs = "all_writes (detect_renames (diff_list fs ts))"
  have m: "mset ?rs = mset ?ws" by (rule detect_renames_writes)
  then have same_keys: "mset (map fst ?rs) = mset (map fst ?ws)" by simp
  have "distinct (map fst ?ws)"
    using diff_list_sorted [OF assms] strict_sorted_iff by blast
  moreover have "p \<in> fst ` set ?ws \<longleftrightarrow> entry_map fs p \<noteq> entry_map ts p" for p
    using diff_list_writes [OF assms, of p] map_of_eq_None_iff [of ?ws p] by (auto split: if_splits)
  ultimately show ?thesis
    using mset_eq_setD [OF m] mset_eq_imp_distinct_iff [OF same_keys]
    unfolding diff_entries_eq by auto
qed

theorem diff_touches_exactly_witness:
  "let fs = [FileEntry.make ''a'' [1] 10 5, FileEntry.make ''b'' [2] 11 6];
       ts = [FileEntry.make ''b'' [2] 12 6]
   in fst ` set (all_writes (detect_renames (diff_entries fs ts []))) =
        {p. entry_map fs p \<noteq> entry_map ts p}"
proof -
  have "sorted_entries [FileEntry.make ''a'' [1] 10 5, FileEntry.make ''b'' [2] 11 6]"
    "sorted_entries [FileEntry.make ''b'' [2] 12 6]" by (simp_all add: FileEntry.make_def)
  from diff_touches_exactly [OF this] show ?thesis by simp
qed

text \<open>(C16) A rename is reported exactly in the unambiguous case: the raw deltas contain one
  deletion and one addition of that content hash and no more of either.\<close>

theorem detect_renames_exact:
  assumes "\<forall>d \<in> set ds. \<forall>p q g s m. d \<noteq> Renamed p q g s m"
  shows "Renamed path old_path h sz mtime \<in> set (detect_renames ds) \<longleftrightarrow>
    filter (deletes_hash h) ds = [Deleted old_path h]
    \<and> filter (adds_hash h) ds = [Added path h sz mtime]"
    (is "?r \<in> _ \<longleftrightarrow> ?unique")
proof -
  obtain C where C: "set C = ran (partner ds)" and eq: "detect_renames ds =
      keep_deltas 0 (\<lambda>k. Option.bind (partner ds k) (\<lambda>j. rename_of (ds ! k) (ds ! j))) C ds"
    using detect_renames_eq by blast
  have raw: "ds ! k \<noteq> ?r" if "k < length ds" for k
    using assms nth_mem [OF that] by auto
  have shape: "rename_of (ds ! k) (ds ! j) = Some ?r \<longleftrightarrow>
      ds ! k = Deleted old_path h \<and> ds ! j = Added path h sz mtime" if "partner ds k = Some j" for k j
    using that by (elim partner_shape) auto
  have "?r \<in> set (detect_renames ds) \<longleftrightarrow>
      (\<exists>k j. partner ds k = Some j \<and> rename_of (ds ! k) (ds ! j) = Some ?r)"
    (is "_ \<longleftrightarrow> (\<exists>k. ?at k)")
  proof -
    have kept_at: "?r \<in> set (kept (\<lambda>k. Option.bind (partner ds k) (\<lambda>j. rename_of (ds ! k) (ds ! j)))
        (set C) k (ds ! k)) \<longleftrightarrow> ?at k" if "k < length ds" for k
    proof (cases "partner ds k")
      case None
      then show ?thesis using raw [OF that] by (auto simp: kept_def)
    next
      case (Some j)
      then show ?thesis by (auto simp: kept_def elim!: partner_shape)
    qed
    have "?at k \<Longrightarrow> k < length ds" for k by (auto elim: partner_shape)
    then show ?thesis
      unfolding eq keep_deltas_mem using kept_at by auto
  qed
  also have "\<dots> \<longleftrightarrow> (\<exists>k j. partner ds k = Some j \<and> ds ! k = Deleted old_path h
      \<and> ds ! j = Added path h sz mtime)"
    using shape by blast
  also have "\<dots> \<longleftrightarrow> (\<exists>k. positions (deletes_hash h) 0 ds = [k] \<and> ds ! k = Deleted old_path h)
      \<and> (\<exists>j. positions (adds_hash h) 0 ds = [j] \<and> ds ! j = Added path h sz mtime)"
  proof (intro iffI; elim exE conjE)
    fix k j assume kj: "ds ! k = Deleted old_path h" "ds ! j = Added path h sz mtime"
      and "partner ds k = Some j"
    then obtain h' where h': "positions (deletes_hash h') 0 ds = [k]" "positions (adds_hash h') 0 ds = [j]"
      by (auto simp: partner_Some)
    then have "deletes_hash h' (ds ! k)" using positions_mem [of k "deletes_hash h'" ds] by simp
    with kj have "h' = h" by simp
    with h' kj show "(\<exists>k. positions (deletes_hash h) 0 ds = [k] \<and> ds ! k = Deleted old_path h)
      \<and> (\<exists>j. positions (adds_hash h) 0 ds = [j] \<and> ds ! j = Added path h sz mtime)" by blast
  qed (auto simp: partner_Some)
  also have "\<dots> \<longleftrightarrow> ?unique" unfolding positions_single ..
  finally show ?thesis .
qed

theorem detect_renames_exact_witness:
  "Renamed ''c'' ''a'' [1] 5 10 \<in> set (detect_renames [Deleted ''a'' [1], Added ''c'' [1] 5 10])
   \<and> Renamed ''c'' ''a'' [1] 5 10
       \<notin> set (detect_renames [Deleted ''a'' [1], Added ''c'' [1] 5 10, Added ''d'' [1] 5 10])"
  using detect_renames_exact [of "[Deleted ''a'' [1], Added ''c'' [1] 5 10]" "''c''" "''a''" "[1]" 5 10]
    detect_renames_exact [of "[Deleted ''a'' [1], Added ''c'' [1] 5 10, Added ''d'' [1] 5 10]"
      "''c''" "''a''" "[1]" 5 10]
  by simp

end
