(* ===== verification/Entry_Merge.thy ===== *)
theory Entry_Merge
  imports Entries Sorted_Walk
begin

text \<open>
  \<open>merge_prefix_entries\<close> of \<open>crates/sync-core/src/tree.rs\<close>: applying a batch of upserts and
  deletions to a sorted entry list in one linear pass. Both tree formats build their
  incremental updates on it. The specification is the sequential semantics the comments name:
  delete every named path, then insert the upserts in order.
\<close>

section \<open>Definitions\<close>

datatype FinalPathState =
    Upsert FileEntry
  | Delete string

fun state_path :: "FinalPathState \<Rightarrow> string" where
  "state_path (Upsert entry) = fe_path entry"
| "state_path (Delete path) = path"

text \<open>The loop that keeps the last of every run of equal paths (\<open>upserts.last_mut()\<close>).\<close>

fun squash_upserts :: "FileEntry list \<Rightarrow> FileEntry list \<Rightarrow> FileEntry list" where
  "squash_upserts upserts [] = upserts"
| "squash_upserts upserts (entry # rest) =
     (if upserts \<noteq> [] \<and> fe_path (last upserts) = fe_path entry
      then squash_upserts (butlast upserts @ [entry]) rest
      else squash_upserts (upserts @ [entry]) rest)"

text \<open>Merging the two normalised operation streams; equality selects the upsert.\<close>

fun merge_states :: "FileEntry list \<Rightarrow> string list \<Rightarrow> FinalPathState list" where
  "merge_states [] deletions = map Delete deletions"
| "merge_states (upsert # upserts) [] = map Upsert (upsert # upserts)"
| "merge_states (upsert # upserts) (deletion # deletions) =
     (if fe_path upsert = deletion then Upsert upsert # merge_states upserts deletions
      else if fe_path upsert < deletion then
        Upsert upsert # merge_states upserts (deletion # deletions)
      else Delete deletion # merge_states (upsert # upserts) deletions)"

fun push_state :: "FinalPathState \<Rightarrow> FileEntry list" where
  "push_state (Upsert entry) = [entry]"
| "push_state (Delete path) = []"

text \<open>The two-pointer pass over the existing entries and the final states.\<close>

fun apply_states :: "FileEntry list \<Rightarrow> FinalPathState list \<Rightarrow> FileEntry list" where
  "apply_states [] states = concat (map push_state states)"
| "apply_states (entry # existing) [] = entry # existing"
| "apply_states (entry # existing) (state # states) =
     (if fe_path entry = state_path state then push_state state @ apply_states existing states
      else if fe_path entry < state_path state then entry # apply_states existing (state # states)
      else push_state state @ apply_states (entry # existing) states)"

definition merge_prefix_entries ::
  "FileEntry list \<Rightarrow> FileEntry list \<Rightarrow> string list \<Rightarrow> FileEntry list" where
  "merge_prefix_entries existing sorted_upserts deletions =
     (let sorted_upserts =
            (if sorted (map fe_path sorted_upserts) then sorted_upserts
             else sort_key fe_path sorted_upserts);
          upserts = squash_upserts [] sorted_upserts;
          deletions = remdups_adj (if sorted deletions then deletions else sort deletions)
      in apply_states existing (merge_states upserts deletions))"

section \<open>Specification\<close>

definition upsert_one :: "(string \<rightharpoonup> FileEntry) \<Rightarrow> FileEntry \<Rightarrow> (string \<rightharpoonup> FileEntry)" where
  "upsert_one m entry = m(fe_path entry \<mapsto> entry)"

definition apply_changes ::
  "(string \<rightharpoonup> FileEntry) \<Rightarrow> FileEntry list \<Rightarrow> string list \<Rightarrow> (string \<rightharpoonup> FileEntry)" where
  "apply_changes m changed deleted = foldl upsert_one (m |` (- set deleted)) changed"

section \<open>Normalising the upserts\<close>

definition last_upsert :: "FileEntry list \<Rightarrow> string \<Rightarrow> FileEntry option" where
  "last_upsert es p = first_of (rev (filter (\<lambda>e. fe_path e = p) es))"

lemma last_upsert_snoc:
  "last_upsert (es @ [e]) p = (if fe_path e = p then Some e else last_upsert es p)"
  by (simp add: last_upsert_def)

lemma foldl_upsert_one:
  "foldl upsert_one m es p = (case last_upsert es p of Some e \<Rightarrow> Some e | None \<Rightarrow> m p)"
proof (induction es rule: rev_induct)
  case (snoc e es)
  then show ?case by (simp add: last_upsert_snoc upsert_one_def)
qed (simp add: last_upsert_def)

lemma last_upsert_sort: "last_upsert (sort_key fe_path es) = last_upsert es"
  by (simp add: fun_eq_iff last_upsert_def sort_key_stable)

fun last_of_runs :: "FileEntry list \<Rightarrow> FileEntry list" where
  "last_of_runs [] = []"
| "last_of_runs [e] = [e]"
| "last_of_runs (e # f # es) =
     (if fe_path e = fe_path f then last_of_runs (f # es) else e # last_of_runs (f # es))"

lemma squash_upserts_runs: "squash_upserts (us @ [e]) es = us @ last_of_runs (e # es)"
proof (induction es arbitrary: us e)
  case (Cons f es)
  show ?case
  proof (cases "fe_path e = fe_path f")
    case True
    with Cons [of us f] show ?thesis by simp
  next
    case False
    with Cons [of "us @ [e]" f] show ?thesis by simp
  qed
qed simp

lemma squash_upserts_eq: "squash_upserts [] es = last_of_runs es"
  using squash_upserts_runs [of "[]"] by (cases es) simp_all

lemma last_of_runs_subset: "set (last_of_runs es) \<subseteq> set es"
  by (induction es rule: last_of_runs.induct) auto

lemma last_of_runs_sorted: "sorted (map fe_path es) \<Longrightarrow> sorted_entries (last_of_runs es)"
proof (induction es rule: last_of_runs.induct)
  case (3 e f es)
  show ?case
  proof (cases "fe_path e = fe_path f")
    case False
    with 3 have "\<forall>x \<in> set (f # es). fe_path e < fe_path x"
      by (auto simp: order.strict_iff_order)
    with 3 False last_of_runs_subset [of "f # es"] show ?thesis by auto
  qed (use 3 in simp)
qed simp_all

lemma last_of_runs_map:
  "sorted (map fe_path es) \<Longrightarrow> entry_map (last_of_runs es) p = last_upsert es p"
proof (induction es rule: last_of_runs.induct)
  case (3 e f es)
  have cons: "last_upsert (e # es') p =
      (case last_upsert es' p of Some x \<Rightarrow> Some x | None \<Rightarrow> if fe_path e = p then Some e else None)"
    for es'
    using foldl_upsert_one [of Map.empty "e # es'" p] foldl_upsert_one [of "upsert_one Map.empty e" es' p]
    by (simp add: upsert_one_def split: option.splits if_splits)
  show ?case
  proof (cases "fe_path e = fe_path f")
    case True
    then have "last_upsert (f # es) p \<noteq> None" if "fe_path e = p"
      using that by (auto simp: last_upsert_def first_of_def split: list.splits)
    with True 3 show ?thesis by (auto simp: cons [of "f # es"] split: option.splits)
  next
    case False
    with 3 have "\<forall>x \<in> set (f # es). fe_path e < fe_path x"
      by (auto simp: order.strict_iff_order)
    then have "filter (\<lambda>x. fe_path x = fe_path e) (f # es) = []"
      by (auto simp: filter_empty_conv)
    then have "last_upsert (f # es) (fe_path e) = None"
      unfolding last_upsert_def by (simp only:) simp
    with False 3 show ?thesis by (auto simp: cons [of "f # es"] split: option.splits)
  qed
qed (auto simp: last_upsert_def)

section \<open>The two passes\<close>

interpretation states_walk: keyed_walk fe_path "\<lambda>d. d" state_path
    "\<lambda>u. [Upsert u]" "\<lambda>d. [Delete d]" "\<lambda>u d. [Upsert u]"
  by unfold_locales auto

lemma merge_states_walk:
  "merge_states us ds = walk fe_path (\<lambda>d. d) (\<lambda>u. [Upsert u]) (\<lambda>d. [Delete d]) (\<lambda>u d. [Upsert u]) us ds"
  by (induction us ds rule: merge_states.induct) (auto simp: concat_map_singleton)

interpretation apply_walk: keyed_walk fe_path state_path fe_path
    "\<lambda>e. [e]" push_state "\<lambda>e s. push_state s"
proof unfold_locales
  show "at_most_one fe_path (state_path s) (push_state s)" for s by (cases s) auto
  then show "fe_path e = state_path s \<Longrightarrow> at_most_one fe_path (fe_path e) (push_state s)" for e s
    by simp
qed simp

lemma apply_states_walk:
  "apply_states es ss = walk fe_path state_path (\<lambda>e. [e]) push_state (\<lambda>e s. push_state s) es ss"
  by (induction es ss rule: apply_states.induct) auto

lemma strict_remdups_adj: "sorted ds \<Longrightarrow> sorted_wrt (<) (remdups_adj (ds :: 'a :: linorder list))"
  by (induction ds rule: remdups_adj.induct) (auto simp: order.strict_iff_order)

lemma merge_states_correct:
  assumes "sorted_entries us" "sorted_wrt (<) ds"
  shows "strict_by state_path (merge_states us ds)"
    and "index_by state_path (merge_states us ds) p =
      (case entry_map us p of Some e \<Rightarrow> Some (Upsert e)
       | None \<Rightarrow> if p \<in> set ds then Some (Delete p) else None)"
proof -
  have ds: "strict_by (\<lambda>d. d) ds" using assms(2) by simp
  note us = assms(1) [unfolded sorted_entries_def]
  show "strict_by state_path (merge_states us ds)"
    unfolding merge_states_walk by (rule states_walk.walk_strict [OF us ds])
  have "index_by (\<lambda>d. d) ds p = (if p \<in> set ds then Some p else None)"
    by (induction ds) auto
  then show "index_by state_path (merge_states us ds) p =
      (case entry_map us p of Some e \<Rightarrow> Some (Upsert e)
       | None \<Rightarrow> if p \<in> set ds then Some (Delete p) else None)"
    unfolding merge_states_walk entry_map_def states_walk.walk_index [OF us ds]
    by (simp split: option.split)
qed

lemma apply_states_correct:
  assumes "sorted_entries es" "strict_by state_path ss"
  shows "sorted_entries (apply_states es ss)"
    and "entry_map (apply_states es ss) p =
      (case index_by state_path ss p of
         None \<Rightarrow> entry_map es p
       | Some (Upsert e) \<Rightarrow> Some e
       | Some (Delete q) \<Rightarrow> None)"
proof -
  note es = assms(1) [unfolded sorted_entries_def]
  show "sorted_entries (apply_states es ss)"
    unfolding apply_states_walk sorted_entries_def by (rule apply_walk.walk_strict [OF es assms(2)])
  show "entry_map (apply_states es ss) p =
      (case index_by state_path ss p of
         None \<Rightarrow> entry_map es p
       | Some (Upsert e) \<Rightarrow> Some e
       | Some (Delete q) \<Rightarrow> None)"
    unfolding apply_states_walk entry_map_def apply_walk.walk_index [OF es assms(2)]
    by (cases "index_by fe_path es p") (auto split: option.splits FinalPathState.splits)
qed

lemma merge_prefix_entries_correct:
  assumes "sorted_entries existing"
  shows "sorted_entries (merge_prefix_entries existing changed deleted)"
    and "entry_map (merge_prefix_entries existing changed deleted) =
      apply_changes (entry_map existing) changed deleted"
proof -
  define us where "us = (if sorted (map fe_path changed) then changed else sort_key fe_path changed)"
  define ds where "ds = remdups_adj (if sorted deleted then deleted else sort deleted)"
  have us: "sorted_entries (last_of_runs us)"
      "entry_map (last_of_runs us) p = last_upsert changed p" for p
    by (simp_all add: us_def last_of_runs_sorted last_of_runs_map last_upsert_sort)
  have ds: "sorted_wrt (<) ds" "set ds = set deleted"
    by (simp_all add: ds_def strict_remdups_adj)
  have eq: "merge_prefix_entries existing changed deleted =
      apply_states existing (merge_states (last_of_runs us) ds)"
    by (simp add: merge_prefix_entries_def us_def ds_def squash_upserts_eq Let_def)
  note states = merge_states_correct [OF us(1) ds(1)]
  show "sorted_entries (merge_prefix_entries existing changed deleted)"
    unfolding eq by (rule apply_states_correct(1) [OF assms states(1)])
  have "entry_map (merge_prefix_entries existing changed deleted) p =
      apply_changes (entry_map existing) changed deleted p" for p
    unfolding eq apply_states_correct(2) [OF assms states(1)] states(2) apply_changes_def foldl_upsert_one
    by (auto simp: us(2) ds(2) restrict_map_def split: option.splits)
  then show "entry_map (merge_prefix_entries existing changed deleted) =
      apply_changes (entry_map existing) changed deleted" ..
qed

section \<open>Properties\<close>

text \<open>(C17) The linear merge of a batch of changes into a sorted entry list is sorted and equals the
  sequential semantics: delete every listed path, then insert the upserts in order, the last
  one of a path winning and an upsert winning over a deletion of the same path.\<close>

theorem merge_prefix_entries_sequential:
  assumes "sorted_entries existing"
  shows "sorted_entries (merge_prefix_entries existing changed deleted)
    \<and> entry_map (merge_prefix_entries existing changed deleted) =
        apply_changes (entry_map existing) changed deleted"
  using merge_prefix_entries_correct [OF assms] by blast

theorem merge_prefix_entries_sequential_witness:
  "let existing = [FileEntry.make ''a'' [1] 1 1, FileEntry.make ''b'' [2] 2 2];
       changed = [FileEntry.make ''c'' [3] 3 3, FileEntry.make ''a'' [4] 4 4, FileEntry.make ''a'' [5] 5 5];
       deleted = [''b'', ''a'', ''b'']
   in merge_prefix_entries existing changed deleted =
        [FileEntry.make ''a'' [5] 5 5, FileEntry.make ''c'' [3] 3 3]
      \<and> entry_map (merge_prefix_entries existing changed deleted) =
        apply_changes (entry_map existing) changed deleted"
proof -
  have "sorted_entries [FileEntry.make ''a'' [1] 1 1, FileEntry.make ''b'' [2] 2 2]"
    by (simp add: FileEntry.make_def)
  note seq = merge_prefix_entries_sequential [OF this,
      of "[FileEntry.make ''c'' [3] 3 3, FileEntry.make ''a'' [4] 4 4, FileEntry.make ''a'' [5] 5 5]"
         "[''b'', ''a'', ''b'']"]
  moreover have "merge_prefix_entries [FileEntry.make ''a'' [1] 1 1, FileEntry.make ''b'' [2] 2 2]
      [FileEntry.make ''c'' [3] 3 3, FileEntry.make ''a'' [4] 4 4, FileEntry.make ''a'' [5] 5 5]
      [''b'', ''a'', ''b''] = [FileEntry.make ''a'' [5] 5 5, FileEntry.make ''c'' [3] 3 3]"
    by (simp add: merge_prefix_entries_def FileEntry.make_def)
  ultimately show ?thesis by simp
qed

end
