(* ===== verification/Merge.thy ===== *)
theory Merge
  imports Entries Sorted_Walk
begin

text \<open>
  \<open>merge_entry_lists\<close> of \<open>crates/sync-core/src/merge.rs\<close>: the three-way merge of two sorted
  entry lists against their common ancestor. The code first merges the three path sequences
  with three cursors, then decides every path from the three lookups; modify-modify paths are
  deferred to the content-level pass. The specification \<open>three_way\<close> decides one path from the
  three versions alone.
\<close>

section \<open>Definitions\<close>

record FileConflict =
  fc_path :: string
  fc_base_hash :: FileHash
  fc_side_a_hash :: FileHash
  fc_side_b_hash :: FileHash

record TextMergeTodo =
  todo_path :: string
  todo_base_hash :: FileHash
  todo_a :: FileEntry
  todo_b :: FileEntry

text \<open>The four out-parameters of the call.\<close>

record MergeOut =
  merged :: "FileEntry list"
  conflicts :: "FileConflict list"
  auto_resolved :: nat
  text_todo :: "TextMergeTodo list"

definition push_path :: "string list \<Rightarrow> string \<Rightarrow> string list" where
  "push_path paths p = (if paths \<noteq> [] \<and> last paths = p then paths else paths @ [p])"

text \<open>The loop with the three cursors \<open>ii\<close>, \<open>ji\<close>, \<open>ki\<close>, each given by the rest of its list.\<close>

function merge_paths ::
  "string list \<Rightarrow> FileEntry list \<Rightarrow> FileEntry list \<Rightarrow> FileEntry list \<Rightarrow> string list" where
  "merge_paths paths [] [] [] = paths"
| "merge_paths paths (a # as) [] [] = merge_paths (push_path paths (fe_path a)) as [] []"
| "merge_paths paths [] (b # bs) [] = merge_paths (push_path paths (fe_path b)) [] bs []"
| "merge_paths paths [] [] (c # cs) = merge_paths (push_path paths (fe_path c)) [] [] cs"
| "merge_paths paths (a # as) (b # bs) [] =
     (if fe_path a \<le> fe_path b
      then merge_paths (push_path paths (fe_path a)) as
             (if fe_path a = fe_path b then bs else b # bs) []
      else merge_paths (push_path paths (fe_path b)) (a # as) bs [])"
| "merge_paths paths (a # as) [] (c # cs) =
     (if fe_path a \<le> fe_path c
      then merge_paths (push_path paths (fe_path a)) as []
             (if fe_path a = fe_path c then cs else c # cs)
      else merge_paths (push_path paths (fe_path c)) (a # as) [] cs)"
| "merge_paths paths [] (b # bs) (c # cs) =
     (if fe_path b \<le> fe_path c
      then merge_paths (push_path paths (fe_path b)) [] bs
             (if fe_path b = fe_path c then cs else c # cs)
      else merge_paths (push_path paths (fe_path c)) [] (b # bs) cs)"
| "merge_paths paths (a # as) (b # bs) (c # cs) =
     (let min3 = min (min (fe_path a) (fe_path b)) (fe_path c) in
      merge_paths (push_path paths min3)
        (if fe_path a = min3 then as else a # as)
        (if fe_path b = min3 then bs else b # bs)
        (if fe_path c = min3 then cs else c # cs))"
  by pat_completeness auto
termination
  by (relation "measure (\<lambda>(paths, as, bs, cs). length as + length bs + length cs)")
     (auto simp: min_def)

text \<open>The decision of one path, in the order of the match arms.\<close>

definition merge_path ::
  "(string \<rightharpoonup> FileEntry) \<Rightarrow> (string \<rightharpoonup> FileEntry) \<Rightarrow> (string \<rightharpoonup> FileEntry) \<Rightarrow> string \<Rightarrow> MergeOut \<Rightarrow> MergeOut" where
  "merge_path base_map a_map b_map path s =
     (case (base_map path, a_map path, b_map path) of
        (Some base, Some a, Some b) \<Rightarrow>
          if fe_hash a = fe_hash base \<and> fe_hash b = fe_hash base then s\<lparr>merged := merged s @ [base]\<rparr>
          else if fe_hash b = fe_hash base \<and> fe_hash a \<noteq> fe_hash base then
            s\<lparr>auto_resolved := auto_resolved s + 1, merged := merged s @ [a]\<rparr>
          else if fe_hash a = fe_hash base \<and> fe_hash b \<noteq> fe_hash base then
            s\<lparr>auto_resolved := auto_resolved s + 1, merged := merged s @ [b]\<rparr>
          else if fe_hash a = fe_hash b then
            s\<lparr>merged := merged s @ [a], auto_resolved := auto_resolved s + 1\<rparr>
          else
            s\<lparr>merged := merged s @ [a],
              text_todo := text_todo s @ [\<lparr>todo_path = path, todo_base_hash = fe_hash base, todo_a = a, todo_b = b\<rparr>]\<rparr>
      | (None, Some a, None) \<Rightarrow> s\<lparr>auto_resolved := auto_resolved s + 1, merged := merged s @ [a]\<rparr>
      | (None, None, Some b) \<Rightarrow> s\<lparr>auto_resolved := auto_resolved s + 1, merged := merged s @ [b]\<rparr>
      | (None, Some a, Some b) \<Rightarrow>
          (let s' = s\<lparr>merged := merged s @ [a]\<rparr> in
           if fe_hash a \<noteq> fe_hash b then
             s'\<lparr>conflicts := conflicts s' @ [\<lparr>fc_path = path, fc_base_hash = ZERO_HASH,
                  fc_side_a_hash = fe_hash a, fc_side_b_hash = fe_hash b\<rparr>]\<rparr>
           else s')
      | (Some base, None, Some b) \<Rightarrow>
          if fe_hash b = fe_hash base then s
          else s\<lparr>auto_resolved := auto_resolved s + 1, merged := merged s @ [b]\<rparr>
      | (Some base, Some a, None) \<Rightarrow>
          if fe_hash a = fe_hash base then s
          else s\<lparr>auto_resolved := auto_resolved s + 1, merged := merged s @ [a]\<rparr>
      | (Some base, None, None) \<Rightarrow> s
      | (None, None, None) \<Rightarrow> s)"

text \<open>A \<open>HashMap\<close> collected from the entries keeps the last entry of a path.\<close>

definition collect_map :: "FileEntry list \<Rightarrow> (string \<rightharpoonup> FileEntry)" where
  "collect_map es = map_of (rev (map (\<lambda>e. (fe_path e, e)) es))"

definition merge_entry_lists ::
  "FileEntry list \<Rightarrow> FileEntry list \<Rightarrow> FileEntry list \<Rightarrow> MergeOut \<Rightarrow> MergeOut" where
  "merge_entry_lists base_entries a_entries b_entries out =
     fold (merge_path (collect_map base_entries) (collect_map a_entries) (collect_map b_entries))
       (merge_paths [] a_entries b_entries base_entries) out"

definition empty_out :: MergeOut where
  "empty_out = \<lparr>merged = [], conflicts = [], auto_resolved = 0, text_todo = []\<rparr>"

section \<open>Specification of one path\<close>

text \<open>
  A side changed a path when its content hash, or its presence, differs from the ancestor's.
\<close>

definition changed :: "FileEntry option \<Rightarrow> FileEntry option \<Rightarrow> bool" where
  "changed base side \<longleftrightarrow> map_option fe_hash side \<noteq> map_option fe_hash base"

definition three_way :: "FileEntry option \<Rightarrow> FileEntry option \<Rightarrow> FileEntry option \<Rightarrow> FileEntry option" where
  "three_way base a b =
     (if \<not> changed base a \<and> \<not> changed base b then base
      else if \<not> changed base b then a
      else if \<not> changed base a then b
      else if a \<noteq> None then a else b)"

text \<open>Both sides wrote different contents: the only case a merge may not decide alone.\<close>

definition clash :: "FileEntry option \<Rightarrow> FileEntry option \<Rightarrow> FileEntry option \<Rightarrow> bool" where
  "clash base a b \<longleftrightarrow> changed base a \<and> changed base b \<and> a \<noteq> None \<and> b \<noteq> None
     \<and> map_option fe_hash a \<noteq> map_option fe_hash b"

section \<open>The path sequence\<close>

lemma push_path_strict:
  assumes "sorted_wrt (<) paths" "\<forall>q \<in> set paths. q < p"
  shows "push_path paths p = paths @ [p]"
  using assms by (cases paths rule: rev_cases) (auto simp: push_path_def)

text \<open>Whatever the shape of the three lists, one turn of the loop takes the least head path.\<close>

fun skip_path :: "string \<Rightarrow> FileEntry list \<Rightarrow> FileEntry list" where
  "skip_path m [] = []"
| "skip_path m (e # es) = (if fe_path e = m then es else e # es)"

fun head_paths :: "FileEntry list \<Rightarrow> string set" where
  "head_paths [] = {}"
| "head_paths (e # es) = {fe_path e}"

lemma merge_paths_step:
  assumes "as \<noteq> [] \<or> bs \<noteq> [] \<or> cs \<noteq> []"
  shows "\<exists>m \<in> head_paths as \<union> head_paths bs \<union> head_paths cs.
    (\<forall>h \<in> head_paths as \<union> head_paths bs \<union> head_paths cs. m \<le> h) \<and>
    merge_paths paths as bs cs =
      merge_paths (push_path paths m) (skip_path m as) (skip_path m bs) (skip_path m cs)"
    (is "\<exists>m \<in> ?heads. ?least m")
proof -
  let ?m = "Min ?heads"
  have fin: "finite ?heads" "?heads \<noteq> {}" using assms by (cases as; cases bs; cases cs; simp)+
  from Min_in [OF fin] have "?m \<in> ?heads" .
  moreover have "\<forall>h \<in> ?heads. ?m \<le> h" using Min_le [OF fin(1)] by blast
  moreover have "merge_paths paths as bs cs =
      merge_paths (push_path paths ?m) (skip_path ?m as) (skip_path ?m bs) (skip_path ?m cs)"
    using assms by (cases as; cases bs; cases cs) (auto simp: Let_def min_def)
  ultimately show ?thesis by blast
qed

lemma skip_path_sorted:
  assumes "sorted_entries es" "\<forall>h \<in> head_paths es. m \<le> h"
  shows "sorted_entries (skip_path m es)" "\<forall>e \<in> set (skip_path m es). m < fe_path e"
    "m \<in> head_paths es \<Longrightarrow> m \<in> fe_path ` set es" "set (skip_path m es) \<subseteq> set es"
    "fe_path ` set es \<subseteq> insert m (fe_path ` set (skip_path m es))"
  using assms by (cases es; auto simp: order.strict_iff_order)+

lemma skip_path_length:
  "length (skip_path m es) \<le> length es" "m \<in> head_paths es \<Longrightarrow> length (skip_path m es) < length es"
  by (cases es; auto)+

lemma merge_paths_sorted:
  assumes "sorted_entries as" "sorted_entries bs" "sorted_entries cs" "sorted_wrt (<) paths"
    "\<forall>q \<in> set paths. \<forall>e \<in> set as \<union> set bs \<union> set cs. q < fe_path e"
  shows "sorted_wrt (<) (merge_paths paths as bs cs)
    \<and> set (merge_paths paths as bs cs) = set paths \<union> fe_path ` (set as \<union> set bs \<union> set cs)"
  using assms
proof (induction "length as + length bs + length cs" arbitrary: paths as bs cs rule: less_induct)
  case less
  show ?case
  proof (cases "as = [] \<and> bs = [] \<and> cs = []")
    case False
    then obtain m where m: "m \<in> head_paths as \<union> head_paths bs \<union> head_paths cs"
        "\<forall>h \<in> head_paths as \<union> head_paths bs \<union> head_paths cs. m \<le> h"
        "merge_paths paths as bs cs =
          merge_paths (push_path paths m) (skip_path m as) (skip_path m bs) (skip_path m cs)"
      using merge_paths_step [of as bs cs paths] by blast
    from m(2) have le: "\<forall>h \<in> head_paths as. m \<le> h" "\<forall>h \<in> head_paths bs. m \<le> h" "\<forall>h \<in> head_paths cs. m \<le> h"
      by blast+
    note sa = skip_path_sorted [OF less.prems(1) le(1)] and sb = skip_path_sorted [OF less.prems(2) le(2)]
      and sc = skip_path_sorted [OF less.prems(3) le(3)]
    have in_all: "m \<in> fe_path ` (set as \<union> set bs \<union> set cs)" using m(1) sa(3) sb(3) sc(3) by blast
    then have lt: "\<forall>q \<in> set paths. q < m" using less.prems(5) by blast
    have p: "push_path paths m = paths @ [m]" using push_path_strict less.prems(4) lt by blast
    have "length (skip_path m as) + length (skip_path m bs) + length (skip_path m cs)
        < length as + length bs + length cs"
      using m(1) skip_path_length(1) [of m as] skip_path_length(1) [of m bs] skip_path_length(1) [of m cs]
        skip_path_length(2) [of m as] skip_path_length(2) [of m bs] skip_path_length(2) [of m cs]
      by auto
    note IH = less.hyps [OF this sa(1) sb(1) sc(1), of "paths @ [m]"]
    have "sorted_wrt (<) (paths @ [m])" using less.prems(4) lt by (simp add: sorted_wrt_append)
    moreover have "\<forall>q \<in> set (paths @ [m]). \<forall>e \<in> set (skip_path m as) \<union> set (skip_path m bs) \<union> set (skip_path m cs). q < fe_path e"
      using lt sa(2) sb(2) sc(2) by (auto intro: less_trans)
    ultimately have "sorted_wrt (<) (merge_paths paths as bs cs)
        \<and> set (merge_paths paths as bs cs) = set (paths @ [m]) \<union>
            fe_path ` (set (skip_path m as) \<union> set (skip_path m bs) \<union> set (skip_path m cs))"
      unfolding m(3) p by (rule IH)
    moreover have "set (paths @ [m]) \<union> fe_path ` (set (skip_path m as) \<union> set (skip_path m bs) \<union> set (skip_path m cs))
        = set paths \<union> fe_path ` (set as \<union> set bs \<union> set cs)"
      using in_all sa(4,5) sb(4,5) sc(4,5) by auto
    ultimately show ?thesis by simp
  qed (use less.prems in simp)
qed

section \<open>Deciding the paths\<close>

lemma collect_map_sorted: "sorted_entries es \<Longrightarrow> collect_map es = entry_map es"
proof (induction es)
  case (Cons e es)
  then have "collect_map es = entry_map es" by simp
  moreover have "collect_map (e # es) p = (case collect_map es p of None \<Rightarrow> if p = fe_path e then Some e else None | Some x \<Rightarrow> Some x)" for p
    by (simp add: collect_map_def map_add_def split: option.split)
  moreover have "entry_map es (fe_path e) = None" using Cons.prems by (simp add: entry_map_before)
  ultimately show ?case by (auto simp: fun_eq_iff split: option.split)
qed (simp add: collect_map_def fun_eq_iff)

definition conflict_at :: "FileEntry option \<Rightarrow> FileEntry option \<Rightarrow> FileEntry option \<Rightarrow> string \<Rightarrow> FileConflict list" where
  "conflict_at base a b p =
     (if base = None \<and> clash base a b
      then [\<lparr>fc_path = p, fc_base_hash = ZERO_HASH, fc_side_a_hash = fe_hash (the a), fc_side_b_hash = fe_hash (the b)\<rparr>]
      else [])"

definition todo_at :: "FileEntry option \<Rightarrow> FileEntry option \<Rightarrow> FileEntry option \<Rightarrow> string \<Rightarrow> TextMergeTodo list" where
  "todo_at base a b p =
     (if base \<noteq> None \<and> clash base a b
      then [\<lparr>todo_path = p, todo_base_hash = fe_hash (the base), todo_a = the a, todo_b = the b\<rparr>]
      else [])"

lemmas decision_defs = three_way_def clash_def changed_def conflict_at_def todo_at_def

lemma merge_path_decision:
  fixes m_base m_a m_b p s
  defines "s' \<equiv> merge_path m_base m_a m_b p s"
  shows "merged s' = merged s @ (case three_way (m_base p) (m_a p) (m_b p) of None \<Rightarrow> [] | Some e \<Rightarrow> [e])"
    and "conflicts s' = conflicts s @ conflict_at (m_base p) (m_a p) (m_b p) p"
    and "text_todo s' = text_todo s @ todo_at (m_base p) (m_a p) (m_b p) p"
  unfolding s'_def merge_path_def
  by (cases "m_base p"; cases "m_a p"; cases "m_b p"; simp add: decision_defs Let_def)+

lemma fold_decisions:
  fixes m_base m_a m_b ps s
  defines "s' \<equiv> fold (merge_path m_base m_a m_b) ps s"
  shows "merged s' = merged s @ concat (map (\<lambda>p. case three_way (m_base p) (m_a p) (m_b p) of None \<Rightarrow> [] | Some e \<Rightarrow> [e]) ps)"
    and "conflicts s' = conflicts s @ concat (map (\<lambda>p. conflict_at (m_base p) (m_a p) (m_b p) p) ps)"
    and "text_todo s' = text_todo s @ concat (map (\<lambda>p. todo_at (m_base p) (m_a p) (m_b p) p) ps)"
  unfolding s'_def by (induction ps arbitrary: s) (simp_all add: merge_path_decision)

lemma three_way_absent [simp]: "three_way None None None = None"
  by (simp add: three_way_def changed_def)

lemma three_way_source: "three_way base a b = Some e \<Longrightarrow> base = Some e \<or> a = Some e \<or> b = Some e"
  by (auto simp: three_way_def split: if_splits)

lemma clash_present: "clash base a b \<Longrightarrow> a \<noteq> None \<and> b \<noteq> None"
  by (simp add: clash_def)

lemma merge_paths_all:
  assumes "sorted_entries base" "sorted_entries as" "sorted_entries bs"
  shows "sorted_wrt (<) (merge_paths [] as bs base)"
    and "p \<in> set (merge_paths [] as bs base) \<longleftrightarrow>
      \<not> (entry_map base p = None \<and> entry_map as p = None \<and> entry_map bs p = None)"
  using merge_paths_sorted [OF assms(2,3,1), of "[]"] by (auto simp: entry_map_None)

lemma merged_entry_lists:
  assumes "sorted_entries base" "sorted_entries as" "sorted_entries bs"
  shows "sorted_entries (merged (merge_entry_lists base as bs empty_out))"
    and "entry_map (merged (merge_entry_lists base as bs empty_out)) p =
      three_way (entry_map base p) (entry_map as p) (entry_map bs p)"
proof -
  define pick where "pick q = (case three_way (entry_map base q) (entry_map as q) (entry_map bs q) of
    None \<Rightarrow> [] | Some e \<Rightarrow> [e])" for q
  define ps where "ps = merge_paths [] as bs base"
  have out: "merged (merge_entry_lists base as bs empty_out) = concat (map pick ps)"
    by (simp add: merge_entry_lists_def empty_out_def fold_decisions collect_map_sorted assms pick_def [abs_def] ps_def)
  have one: "at_most_one fe_path q (pick q)" for q
    by (auto simp: pick_def split: option.split dest!: three_way_source entry_map_SomeD)
  note ps = merge_paths_all [OF assms, folded ps_def]
  have strict: "strict_by (\<lambda>q. q) ps" using ps(1) by simp
  show "sorted_entries (merged (merge_entry_lists base as bs empty_out))"
    unfolding out sorted_entries_def by (rule emit_strict [where kx = "\<lambda>q. q", OF one strict])
  have "index_by (\<lambda>q. q) ps p = (if p \<in> set ps then Some p else None)" by (induction ps) auto
  then show "entry_map (merged (merge_entry_lists base as bs empty_out)) p =
      three_way (entry_map base p) (entry_map as p) (entry_map bs p)"
    unfolding out entry_map_def emit_index [where kx = "\<lambda>q. q", OF one strict]
    using ps(2) [of p] by (auto simp: pick_def entry_map_def split: option.split)
qed

lemma recorded_entry_lists:
  assumes "sorted_entries base" "sorted_entries as" "sorted_entries bs"
  shows "c \<in> set (conflicts (merge_entry_lists base as bs empty_out)) \<longleftrightarrow>
      (\<exists>p. c \<in> set (conflict_at (entry_map base p) (entry_map as p) (entry_map bs p) p))"
    and "t \<in> set (text_todo (merge_entry_lists base as bs empty_out)) \<longleftrightarrow>
      (\<exists>p. t \<in> set (todo_at (entry_map base p) (entry_map as p) (entry_map bs p) p))"
proof -
  note ps = merge_paths_all(2) [OF assms]
  show "c \<in> set (conflicts (merge_entry_lists base as bs empty_out)) \<longleftrightarrow>
      (\<exists>p. c \<in> set (conflict_at (entry_map base p) (entry_map as p) (entry_map bs p) p))"
    by (auto simp: merge_entry_lists_def empty_out_def fold_decisions collect_map_sorted assms ps
        conflict_at_def dest: clash_present split: if_splits)
  show "t \<in> set (text_todo (merge_entry_lists base as bs empty_out)) \<longleftrightarrow>
      (\<exists>p. t \<in> set (todo_at (entry_map base p) (entry_map as p) (entry_map bs p) p))"
    by (auto simp: merge_entry_lists_def empty_out_def fold_decisions collect_map_sorted assms ps
        todo_at_def dest: clash_present split: if_splits)
qed

section \<open>Properties\<close>

text \<open>(C18) The three-way merge of three sorted entry lists is sorted and decides every path by the
  specification: an unchanged side yields to the other one, identical changes agree, a change
  wins over a deletion, and side A stands provisionally where both sides wrote.\<close>

theorem merge_entry_lists_three_way:
  assumes "sorted_entries base" "sorted_entries as" "sorted_entries bs"
  shows "sorted_entries (merged (merge_entry_lists base as bs empty_out))
    \<and> (\<forall>p. entry_map (merged (merge_entry_lists base as bs empty_out)) p =
          three_way (entry_map base p) (entry_map as p) (entry_map bs p))"
  using merged_entry_lists [OF assms] by blast

theorem merge_entry_lists_three_way_witness:
  "let base = [FileEntry.make ''a'' [1] 1 1, FileEntry.make ''b'' [2] 2 2];
       as = [FileEntry.make ''a'' [3] 3 3, FileEntry.make ''b'' [2] 2 2];
       bs = [FileEntry.make ''a'' [1] 1 1, FileEntry.make ''c'' [4] 4 4];
       out = merge_entry_lists base as bs empty_out
   in map fe_path (merged out) = [''a'', ''c''] \<and> entry_map (merged out) ''a'' = Some (FileEntry.make ''a'' [3] 3 3)"
proof -
  let ?base = "[FileEntry.make ''a'' [1] 1 1, FileEntry.make ''b'' [2] 2 2]"
  let ?as = "[FileEntry.make ''a'' [3] 3 3, FileEntry.make ''b'' [2] 2 2]"
  let ?bs = "[FileEntry.make ''a'' [1] 1 1, FileEntry.make ''c'' [4] 4 4]"
  have s: "sorted_entries ?base" "sorted_entries ?as" "sorted_entries ?bs"
    by (simp_all add: FileEntry.make_def)
  have "entry_map (merged (merge_entry_lists ?base ?as ?bs empty_out)) ''a'' = Some (FileEntry.make ''a'' [3] 3 3)"
    using merge_entry_lists_three_way [OF s] by (simp add: FileEntry.make_def three_way_def changed_def)
  moreover have "map fe_path (merged (merge_entry_lists ?base ?as ?bs empty_out)) = [''a'', ''c'']"
    by code_simp
  ultimately show ?thesis by simp
qed

text \<open>(C19) No update is lost: where the two sides do not clash, the content either of them changed is
  in the merge; where they clash, side A's content is in the merge and the path is recorded with
  both contents, as a conflict without an ancestor or as a text-merge candidate with one.\<close>

theorem merge_keeps_every_update:
  assumes "sorted_entries base" "sorted_entries as" "sorted_entries bs"
  shows "(\<forall>p e. changed (entry_map base p) (Some e) \<and> entry_map bs p = Some e
          \<and> \<not> clash (entry_map base p) (entry_map as p) (entry_map bs p) \<longrightarrow>
          map_option fe_hash (entry_map (merged (merge_entry_lists base as bs empty_out)) p) = Some (fe_hash e))
    \<and> (\<forall>p e. changed (entry_map base p) (Some e) \<and> entry_map as p = Some e \<longrightarrow>
          entry_map (merged (merge_entry_lists base as bs empty_out)) p = Some e)
    \<and> (\<forall>p a b. entry_map as p = Some a \<and> entry_map bs p = Some b
          \<and> clash (entry_map base p) (Some a) (Some b) \<longrightarrow>
          (case entry_map base p of
             None \<Rightarrow> \<lparr>fc_path = p, fc_base_hash = ZERO_HASH, fc_side_a_hash = fe_hash a, fc_side_b_hash = fe_hash b\<rparr>
               \<in> set (conflicts (merge_entry_lists base as bs empty_out))
           | Some c \<Rightarrow> \<lparr>todo_path = p, todo_base_hash = fe_hash c, todo_a = a, todo_b = b\<rparr>
               \<in> set (text_todo (merge_entry_lists base as bs empty_out))))"
proof (intro conjI allI impI)
  fix p a b assume *: "entry_map as p = Some a \<and> entry_map bs p = Some b \<and> clash (entry_map base p) (Some a) (Some b)"
  show "case entry_map base p of
      None \<Rightarrow> \<lparr>fc_path = p, fc_base_hash = ZERO_HASH, fc_side_a_hash = fe_hash a, fc_side_b_hash = fe_hash b\<rparr>
        \<in> set (conflicts (merge_entry_lists base as bs empty_out))
    | Some c \<Rightarrow> \<lparr>todo_path = p, todo_base_hash = fe_hash c, todo_a = a, todo_b = b\<rparr>
        \<in> set (text_todo (merge_entry_lists base as bs empty_out))"
  proof (cases "entry_map base p")
    case None
    with * show ?thesis unfolding recorded_entry_lists(1) [OF assms] None option.case
      by (intro exI [of _ p]) (simp add: conflict_at_def None)
  next
    case (Some c)
    with * show ?thesis unfolding recorded_entry_lists(2) [OF assms] Some option.case
      by (intro exI [of _ p]) (simp add: todo_at_def Some)
  qed
qed (auto simp: merged_entry_lists(2) [OF assms] three_way_def changed_def clash_def)

theorem merge_keeps_every_update_witness:
  "let base = [FileEntry.make ''a'' [1] 1 1];
       as = [FileEntry.make ''a'' [3] 3 3]; bs = [FileEntry.make ''a'' [4] 4 4, FileEntry.make ''b'' [5] 5 5];
       out = merge_entry_lists base as bs empty_out
   in entry_map (merged out) ''a'' = Some (FileEntry.make ''a'' [3] 3 3)
    \<and> map_option fe_hash (entry_map (merged out) ''b'') = Some [5]
    \<and> \<lparr>todo_path = ''a'', todo_base_hash = [1], todo_a = FileEntry.make ''a'' [3] 3 3,
        todo_b = FileEntry.make ''a'' [4] 4 4\<rparr> \<in> set (text_todo out)"
proof -
  let ?base = "[FileEntry.make ''a'' [1] 1 1]"
  let ?as = "[FileEntry.make ''a'' [3] 3 3]"
  let ?bs = "[FileEntry.make ''a'' [4] 4 4, FileEntry.make ''b'' [5] 5 5]"
  have s: "sorted_entries ?base" "sorted_entries ?as" "sorted_entries ?bs"
    by (simp_all add: FileEntry.make_def)
  note * = merge_keeps_every_update [OF s]
  show ?thesis unfolding Let_def
    using spec [OF spec [OF conjunct1 [OF *]], of "''b''" "FileEntry.make ''b'' [5] 5 5"]
      spec [OF spec [OF conjunct1 [OF conjunct2 [OF *]]], of "''a''" "FileEntry.make ''a'' [3] 3 3"]
      spec [OF spec [OF spec [OF conjunct2 [OF conjunct2 [OF *]]]], of "''a''" "FileEntry.make ''a'' [3] 3 3" "FileEntry.make ''a'' [4] 4 4"]
    by (simp add: FileEntry.make_def changed_def clash_def)
qed

end
