(* ===== verification/Utf8.thy ===== *)
theory Utf8
  imports Prelude
begin

text \<open>
  What the program uses of Rust's UTF-8 strings: \<open>str::from_utf8\<close> (a validity test),
  \<open>String::from_utf8_lossy\<close> (every malformed stretch becomes U+FFFD), \<open>str::chars\<close> and
  \<open>char::is_control\<close>. The scanner classifies the head of a byte sequence the way the standard
  library does: a scalar value with its width, or a malformed prefix with its length.
\<close>

datatype utf8_item = Scalar nat nat | Malformed nat

definition byte_at :: "bytes \<Rightarrow> nat \<Rightarrow> nat" where
  "byte_at bs i = (if i < length bs then unat (bs ! i) else 0)"

definition continuation :: "nat \<Rightarrow> bool" where
  "continuation b = (0x80 \<le> b \<and> b \<le> 0xBF)"

definition utf8_head :: "bytes \<Rightarrow> utf8_item" where
  "utf8_head bs =
     (let a = byte_at bs 0; b = byte_at bs 1; c = byte_at bs 2; d = byte_at bs 3 in
      if a < 0x80 then Scalar a 1
      else if 0xC2 \<le> a \<and> a \<le> 0xDF then
        (if continuation b then Scalar ((a - 0xC0) * 64 + (b - 0x80)) 2 else Malformed 1)
      else if 0xE0 \<le> a \<and> a \<le> 0xEF then
        (if continuation b \<and> (a = 0xE0 \<longrightarrow> 0xA0 \<le> b) \<and> (a = 0xED \<longrightarrow> b \<le> 0x9F) then
           (if continuation c then Scalar ((a - 0xE0) * 4096 + (b - 0x80) * 64 + (c - 0x80)) 3 else Malformed 2)
         else Malformed 1)
      else if 0xF0 \<le> a \<and> a \<le> 0xF4 then
        (if continuation b \<and> (a = 0xF0 \<longrightarrow> 0x90 \<le> b) \<and> (a = 0xF4 \<longrightarrow> b \<le> 0x8F) then
           (if continuation c then
              (if continuation d
               then Scalar ((a - 0xF0) * 262144 + (b - 0x80) * 4096 + (c - 0x80) * 64 + (d - 0x80)) 4
               else Malformed 3)
            else Malformed 2)
         else Malformed 1)
      else Malformed 1)"

fun item_width :: "utf8_item \<Rightarrow> nat" where
  "item_width (Scalar c w) = w"
| "item_width (Malformed w) = w"

lemma item_width_pos: "0 < item_width (utf8_head bs)"
  by (simp add: utf8_head_def Let_def)

function utf8_items :: "bytes \<Rightarrow> (utf8_item \<times> bytes) list" where
  "utf8_items bs =
     (if bs = [] then []
      else (let item = utf8_head bs; w = item_width item in (item, take w bs) # utf8_items (drop w bs)))"
  by pat_completeness auto
termination
  by (relation "measure length") (auto simp: item_width_pos)

declare utf8_items.simps [simp del]

fun is_scalar :: "utf8_item \<Rightarrow> bool" where
  "is_scalar (Scalar c w) = True"
| "is_scalar (Malformed w) = False"

definition from_utf8_ok :: "bytes \<Rightarrow> bool" where
  "from_utf8_ok bs = list_all (\<lambda>(i, _). is_scalar i) (utf8_items bs)"

definition from_utf8_lossy :: "bytes \<Rightarrow> bytes" where
  "from_utf8_lossy bs = concat (map (\<lambda>(i, raw). if is_scalar i then raw else [0xEF, 0xBF, 0xBD]) (utf8_items bs))"

definition str_chars :: "bytes \<Rightarrow> nat list" where
  "str_chars bs = concat (map (\<lambda>(i, _). case i of Scalar c w \<Rightarrow> [c] | Malformed w \<Rightarrow> []) (utf8_items bs))"

text \<open>The category Cc.\<close>

definition is_control :: "nat \<Rightarrow> bool" where
  "is_control c = (c < 0x20 \<or> 0x7F \<le> c \<and> c \<le> 0x9F)"

lemma utf8_items_concat: "concat (map snd (utf8_items bs)) = bs"
proof (induction bs rule: utf8_items.induct)
  case (1 bs)
  then show ?case by (subst utf8_items.simps) (auto simp: Let_def)
qed

text \<open>Valid input is kept as it is.\<close>

lemma from_utf8_lossy_valid: "from_utf8_ok bs \<Longrightarrow> from_utf8_lossy bs = bs"
proof -
  assume "from_utf8_ok bs"
  then have "map (\<lambda>(i, raw). if is_scalar i then raw else [0xEF, 0xBF, 0xBD]) (utf8_items bs) = map snd (utf8_items bs)"
    by (auto simp: from_utf8_ok_def list_all_iff)
  then show ?thesis unfolding from_utf8_lossy_def by (simp only: utf8_items_concat)
qed

lemma utf8_items_ascii: "\<forall>b \<in> set bs. unat b < 128 \<Longrightarrow> utf8_items bs = map (\<lambda>b. (Scalar (unat b) 1, [b])) bs"
proof (induction bs)
  case Nil
  show ?case by (simp add: utf8_items.simps)
next
  case (Cons b bs)
  then have "utf8_head (b # bs) = Scalar (unat b) 1" by (simp add: utf8_head_def byte_at_def Let_def)
  with Cons show ?case by (subst utf8_items.simps) simp
qed

lemma from_utf8_ok_ascii: "\<forall>b \<in> set bs. unat b < 128 \<Longrightarrow> from_utf8_ok bs"
  by (simp add: from_utf8_ok_def utf8_items_ascii list_all_iff)

lemma str_chars_ascii: "\<forall>b \<in> set bs. unat b < 128 \<Longrightarrow> str_chars bs = map unat bs"
  by (simp add: str_chars_def utf8_items_ascii o_def)

text \<open>A sequence splits before an ASCII byte: no character and no malformed stretch spans it.\<close>

lemma utf8_head_append:
  assumes "a \<noteq> []" "b = [] \<or> unat (hd b) < 128"
  shows "utf8_head (a @ b) = utf8_head a" "item_width (utf8_head a) \<le> length a"
proof -
  have cont: "continuation (byte_at (a @ b) i) = continuation (byte_at a i)" if "i \<le> length a" for i
  proof (cases "i = length a")
    case True
    then show ?thesis using assms(2) by (cases b) (auto simp: byte_at_def continuation_def)
  qed (use that in \<open>simp add: byte_at_def nth_append\<close>)
  have same: "byte_at (a @ b) i = byte_at a i" if "i < length a" for i
    using that by (simp add: byte_at_def nth_append)
  have inside: "i < length a" if "continuation (byte_at a i)" for i
    using that by (auto simp: byte_at_def continuation_def split: if_splits)
  have two: "byte_at (a @ b) 1 = byte_at a 1 \<or> \<not> continuation (byte_at (a @ b) 1) \<and> \<not> continuation (byte_at a 1)"
    using cont [of 1] same [of 1] inside [of 1] assms(1) by (cases "1 < length a") (auto simp: Suc_le_eq)
  have three: "byte_at (a @ b) 2 = byte_at a 2 \<or> \<not> continuation (byte_at (a @ b) 2) \<and> \<not> continuation (byte_at a 2)"
      if "continuation (byte_at a 1)"
    using cont [of 2] same [of 2] inside [of 2] inside [OF that] by (cases "2 < length a") auto
  have four: "byte_at (a @ b) 3 = byte_at a 3 \<or> \<not> continuation (byte_at (a @ b) 3) \<and> \<not> continuation (byte_at a 3)"
      if "continuation (byte_at a 2)"
    using cont [of 3] same [of 3] inside [of 3] inside [OF that] by (cases "3 < length a") auto
  have one: "byte_at (a @ b) 0 = byte_at a 0" using same [of 0] assms(1) by simp
  show "utf8_head (a @ b) = utf8_head a"
  proof (cases "continuation (byte_at a 1)")
    case True
    then have eq: "byte_at (a @ b) 1 = byte_at a 1" using two by blast
    show ?thesis
    proof (cases "continuation (byte_at a 2)")
      case True
      then have "byte_at (a @ b) 2 = byte_at a 2" using three \<open>continuation (byte_at a 1)\<close> by blast
      moreover have "continuation (byte_at (a @ b) 3) = continuation (byte_at a 3)"
        "continuation (byte_at a 3) \<Longrightarrow> byte_at (a @ b) 3 = byte_at a 3" using four [OF True] by auto
      ultimately show ?thesis unfolding utf8_head_def Let_def one eq by (simp cong: if_cong)
    next
      case False
      then have "\<not> continuation (byte_at (a @ b) 2)" using three \<open>continuation (byte_at a 1)\<close> by auto
      with False show ?thesis unfolding utf8_head_def Let_def one eq by simp
    qed
  next
    case False
    then have "\<not> continuation (byte_at (a @ b) 1)" using two by auto
    with False show ?thesis unfolding utf8_head_def Let_def one by simp
  qed
  show "item_width (utf8_head a) \<le> length a"
    using inside [of 1] inside [of 2] inside [of 3] assms(1) by (auto simp: utf8_head_def Let_def Suc_le_eq)
qed

lemma utf8_items_append:
  "b = [] \<or> unat (hd b) < 128 \<Longrightarrow> utf8_items (a @ b) = utf8_items a @ utf8_items b"
proof (induction a rule: utf8_items.induct)
  case (1 a)
  show ?case
  proof (cases "a = []")
    case True
    then show ?thesis by (simp add: utf8_items.simps [of "[]"])
  next
    case False
    note head = utf8_head_append [OF False 1(2)]
    have "utf8_items (drop (item_width (utf8_head a)) a @ b) = utf8_items (drop (item_width (utf8_head a)) a) @ utf8_items b"
      using 1 False by blast
    then show ?thesis
      using False head by (simp add: utf8_items.simps [of "a @ b"] utf8_items.simps [of a] Let_def)
  qed
qed

lemma from_utf8_ok_append:
  "b = [] \<or> unat (hd b) < 128 \<Longrightarrow> from_utf8_ok (a @ b) \<longleftrightarrow> from_utf8_ok a \<and> from_utf8_ok b"
  by (simp add: from_utf8_ok_def utf8_items_append)

end
