(* ===== verification/Globs.thy ===== *)
theory Globs
  imports Utf8
begin

text \<open>
  The two pattern matchers of the program: \<open>glob_match\<close> of
  \<open>crates/sync-core/src/sync_rules.rs\<close> (with its rules table and \<open>is_text_file\<close>) and
  \<open>wildcard\<close> / \<open>matches_any\<close> of \<open>crates/sync-server/src/ignore_match.rs\<close>. Both are compared
  with one declarative meaning of a pattern, \<open>glob_spec\<close> on bytes. The comment on \<open>glob_match\<close> speaks
  of characters; \<open>glob_chars\<close> is that meaning, which agrees with the bytes on ASCII text only.
\<close>

section \<open>sync\_rules.rs\<close>

datatype BinaryStrategy = ConflictCopy | LocalOnly | Immutable

text \<open>
  The backtracking loop. \<open>star\<close> holds \<open>star_pi\<close> and \<open>star_ti\<close>; \<open>None\<close> is the sentinel
  \<open>usize::MAX\<close>. The result is the final \<open>pi\<close>, or \<open>None\<close> inside for the early \<open>return false\<close>.
\<close>

partial_function (option) glob_loop ::
  "string \<Rightarrow> string \<Rightarrow> nat \<Rightarrow> nat \<Rightarrow> (nat \<times> nat) option \<Rightarrow> nat option option" where
  "glob_loop pattern text pi ti star =
     (if ti < length text then
        if pi < length pattern \<and> (pattern ! pi = CHR ''?'' \<or> pattern ! pi = text ! ti)
        then glob_loop pattern text (pi + 1) (ti + 1) star
        else if pi < length pattern \<and> pattern ! pi = CHR ''*''
        then glob_loop pattern text (pi + 1) ti (Some (pi, ti))
        else (case star of
            Some (star_pi, star_ti) \<Rightarrow>
              glob_loop pattern text (star_pi + 1) (star_ti + 1) (Some (star_pi, star_ti + 1))
          | None \<Rightarrow> Some None)
      else Some (Some pi))"

declare glob_loop.simps [code]

fun skip_stars :: "string \<Rightarrow> string" where
  "skip_stars [] = []"
| "skip_stars (c # cs) = (if c = CHR ''*'' then skip_stars cs else c # cs)"

definition glob_match :: "string \<Rightarrow> string \<Rightarrow> bool option" where
  "glob_match pattern text =
     (case glob_loop pattern text 0 0 None of
        None \<Rightarrow> None
      | Some None \<Rightarrow> Some False
      | Some (Some pi) \<Rightarrow> Some (skip_stars (drop pi pattern) = []))"

definition default_rules :: "(string \<times> BinaryStrategy) list" where
  "default_rules =
     [(''*.sqlite'', LocalOnly), (''*.sqlite-wal'', LocalOnly), (''*.sqlite-shm'', LocalOnly),
      (''.DS_Store'', LocalOnly), (''thumbs.db'', LocalOnly),
      (''*.png'', Immutable), (''*.jpg'', Immutable), (''*.jpeg'', Immutable), (''*.webp'', Immutable),
      (''*.gif'', Immutable), (''*.bmp'', Immutable), (''*.svg'', Immutable), (''*.pdf'', Immutable),
      (''*.mp3'', Immutable), (''*.mp4'', Immutable), (''*.wav'', Immutable), (''*.ogg'', Immutable),
      (''*.flac'', Immutable), (''*.zip'', Immutable), (''*.tar'', Immutable), (''*.gz'', Immutable),
      (''*'', ConflictCopy)]"

text \<open>\<open>rsplit(c).next()\<close>: the text after the last \<open>c\<close>, all of it when there is none.\<close>

definition after_last :: "char \<Rightarrow> string \<Rightarrow> string" where
  "after_last c s = rev (takeWhile (\<lambda>x. x \<noteq> c) (rev s))"

fun first_rule :: "(string \<times> BinaryStrategy) list \<Rightarrow> string \<Rightarrow> BinaryStrategy" where
  "first_rule [] filename = ConflictCopy"
| "first_rule ((pattern, strategy) # rules) filename =
     (if glob_match pattern filename = Some True then strategy else first_rule rules filename)"

definition strategy_for :: "(string \<times> BinaryStrategy) list \<Rightarrow> string \<Rightarrow> BinaryStrategy" where
  "strategy_for rules path = first_rule rules (after_last CHR ''/'' path)"

definition is_local_only :: "(string \<times> BinaryStrategy) list \<Rightarrow> string \<Rightarrow> bool" where
  "is_local_only rules path = (strategy_for rules path = LocalOnly)"

definition TEXT_EXTENSIONS :: "string list" where
  "TEXT_EXTENSIONS = [''md'', ''txt'', ''css'', ''json'', ''js'', ''ts'', ''html'', ''xml'', ''yaml'', ''yml'',
     ''toml'', ''csv'', ''canvas'', ''excalidraw'', ''svg'', ''tex'', ''bib'', ''org'', ''rst'']"

text \<open>
  \<open>to_lowercase\<close> as far as membership in the ASCII table can see it: no character outside
  ASCII lowers to a string of the letters the table uses.
\<close>

definition lower :: "char \<Rightarrow> char" where
  "lower c = (let n = of_char c :: nat in if 65 \<le> n \<and> n \<le> 90 then char_of (n + 32) else c)"

definition is_text_file :: "string \<Rightarrow> bool" where
  "is_text_file path = (map lower (after_last CHR ''.'' path) \<in> set TEXT_EXTENSIONS)"

section \<open>ignore\_match.rs\<close>

fun starts_with :: "string \<Rightarrow> string \<Rightarrow> bool" where
  "starts_with s [] = True"
| "starts_with [] (p # ps) = False"
| "starts_with (c # s) (p # ps) = (c = p \<and> starts_with s ps)"

definition ends_with :: "string \<Rightarrow> string \<Rightarrow> bool" where
  "ends_with s suf = starts_with (rev s) (rev suf)"

text \<open>\<open>str::find\<close>: the least index at which the needle starts.\<close>

fun find_str :: "string \<Rightarrow> string \<Rightarrow> nat option" where
  "find_str [] part = (if part = [] then Some 0 else None)"
| "find_str (c # s) part =
     (if starts_with (c # s) part then Some 0 else map_option Suc (find_str s part))"

text \<open>The loop over the enumerated parts; \<open>text\<close> is the unmatched rest \<open>text[pos..]\<close>.\<close>

fun wildcard_parts :: "nat \<Rightarrow> nat \<Rightarrow> string \<Rightarrow> string list \<Rightarrow> bool" where
  "wildcard_parts parts_len i text [] = True"
| "wildcard_parts parts_len i text (part # parts) =
     (if part = [] then wildcard_parts parts_len (i + 1) text parts
      else if i = 0 then
        (if starts_with text part then wildcard_parts parts_len (i + 1) (drop (length part) text) parts else False)
      else if i = parts_len - 1 then
        (if ends_with text part then wildcard_parts parts_len (i + 1) text parts else False)
      else (case find_str text part of
          Some idx \<Rightarrow> wildcard_parts parts_len (i + 1) (drop (idx + length part) text) parts
        | None \<Rightarrow> False))"

definition wildcard :: "string \<Rightarrow> string \<Rightarrow> bool" where
  "wildcard text pat =
     (if CHR ''*'' \<notin> set pat then text = pat
      else (let parts = split_on CHR ''*'' pat in wildcard_parts (length parts) 0 text parts))"

text \<open>\<open>str::trim\<close>: the UTF-8 encodings of the characters with the property White\_Space.\<close>

definition space_seqs :: "string list" where
  "space_seqs =
     [[CHR 0x09], [CHR 0x0A], [CHR 0x0B], [CHR 0x0C], [CHR 0x0D], [CHR 0x20],
      [CHR 0xC2, CHR 0x85], [CHR 0xC2, CHR 0xA0], [CHR 0xE1, CHR 0x9A, CHR 0x80]]
     @ map (\<lambda>c. [CHR 0xE2, CHR 0x80, c])
         [CHR 0x80, CHR 0x81, CHR 0x82, CHR 0x83, CHR 0x84, CHR 0x85, CHR 0x86, CHR 0x87,
          CHR 0x88, CHR 0x89, CHR 0x8A, CHR 0xA8, CHR 0xA9, CHR 0xAF]
     @ [[CHR 0xE2, CHR 0x81, CHR 0x9F], [CHR 0xE3, CHR 0x80, CHR 0x80]]"

function trim_left :: "string list \<Rightarrow> string \<Rightarrow> string" where
  "trim_left seqs s =
     (case find (\<lambda>q. q \<noteq> [] \<and> starts_with s q) seqs of
        None \<Rightarrow> s
      | Some q \<Rightarrow> trim_left seqs (drop (length q) s))"
  by pat_completeness auto
termination
proof (relation "measure (\<lambda>(seqs, s). length s)")
  fix seqs s q assume "find (\<lambda>q. q \<noteq> [] \<and> starts_with s q) seqs = Some q"
  then have "q \<noteq> []" "starts_with s q" by (auto simp: find_Some_iff)
  then have "s \<noteq> []" by (cases s; cases q) auto
  with \<open>q \<noteq> []\<close> show "((seqs, drop (length q) s), (seqs, s)) \<in> measure (\<lambda>(seqs, s). length s)" by simp
qed simp

declare trim_left.simps [simp del]

definition trim :: "string \<Rightarrow> string" where
  "trim s = rev (trim_left (map rev space_seqs) (rev (trim_left space_seqs s)))"

fun trim_dot_slash :: "string \<Rightarrow> string" where
  "trim_dot_slash (c # d # s) =
     (if c = CHR ''.'' \<and> d = CHR ''/'' then trim_dot_slash s else c # d # s)"
| "trim_dot_slash s = s"

definition matches_one :: "string \<Rightarrow> string list \<Rightarrow> string \<Rightarrow> bool" where
  "matches_one path segments raw =
     (let p = trim raw in
      if p = [] \<or> starts_with p ''#'' then False
      else
        let dir_only = ends_with p ''/'';
            p = (if dir_only then butlast p else p);
            p = (if starts_with p ''/'' then tl p else p)
        in if p = [] then False
           else if CHR ''/'' \<in> set p then path = p \<or> starts_with path (p @ ''/'')
           else if dir_only then list_ex (\<lambda>s. wildcard s p) (butlast segments)
           else list_ex (\<lambda>s. wildcard s p) segments)"

definition matches_any :: "string \<Rightarrow> string list \<Rightarrow> bool" where
  "matches_any path patterns =
     (let norm = dropWhile (\<lambda>c. c = CHR ''/'') (trim_dot_slash path) in
      if norm = [] then False
      else list_ex (matches_one norm (split_on CHR ''/'' norm)) patterns)"

section \<open>The meaning of a pattern\<close>

text \<open>\<open>*\<close> stands for any text, \<open>?\<close> (where \<open>q\<close> allows it) for one byte, any other byte for itself.\<close>

fun glob_spec :: "bool \<Rightarrow> string \<Rightarrow> string \<Rightarrow> bool" where
  "glob_spec q [] t = (t = [])"
| "glob_spec q (c # p) [] = (c = CHR ''*'' \<and> glob_spec q p [])"
| "glob_spec q (c # p) (x # t) =
     (if c = CHR ''*'' then glob_spec q p (x # t) \<or> glob_spec q (c # p) t
      else (c = x \<or> q \<and> c = CHR ''?'') \<and> glob_spec q p t)"

lemma glob_spec_star: "glob_spec q (CHR ''*'' # p) t \<longleftrightarrow> (\<exists>u v. t = u @ v \<and> glob_spec q p v)"
proof (induction t)
  case (Cons x t)
  have "(\<exists>u v. x # t = u @ v \<and> glob_spec q p v) \<longleftrightarrow>
      glob_spec q p (x # t) \<or> (\<exists>u v. t = u @ v \<and> glob_spec q p v)"
    by (auto simp: Cons_eq_append_conv)
  with Cons show ?case by simp
qed simp

lemma glob_spec_star_more: "glob_spec q (CHR ''*'' # p) v \<Longrightarrow> glob_spec q (CHR ''*'' # p) (u @ v)"
  by (auto simp: glob_spec_star) (metis append.assoc)

lemma glob_spec_star_end: "glob_spec q (CHR ''*'' # []) t"
  by (simp add: glob_spec_star)

lemma glob_spec_literal:
  "CHR ''*'' \<notin> set seg \<Longrightarrow> glob_spec q (seg @ p) t \<longleftrightarrow>
     length seg \<le> length t \<and> glob_spec q seg (take (length seg) t) \<and> glob_spec q p (drop (length seg) t)"
proof (induction seg arbitrary: t)
  case (Cons c seg)
  then show ?case by (cases t) auto
qed simp

lemma glob_spec_star_drop: "glob_spec q (CHR ''*'' # p) t \<longleftrightarrow> (\<exists>k \<le> length t. glob_spec q p (drop k t))"
proof
  assume "glob_spec q (CHR ''*'' # p) t"
  then obtain u v where "t = u @ v" "glob_spec q p v" by (auto simp: glob_spec_star)
  then show "\<exists>k \<le> length t. glob_spec q p (drop k t)" by (intro exI [of _ "length u"]) simp
next
  assume "\<exists>k \<le> length t. glob_spec q p (drop k t)"
  then obtain k where "glob_spec q p (drop k t)" by blast
  then show "glob_spec q (CHR ''*'' # p) t"
    unfolding glob_spec_star by (intro exI [of _ "take k t"] exI [of _ "drop k t"]) simp
qed

lemma glob_spec_plain: "CHR ''*'' \<notin> set p \<Longrightarrow> glob_spec False p t \<longleftrightarrow> t = p"
proof (induction p arbitrary: t)
  case (Cons c p)
  then show ?case by (cases t) auto
qed simp

section \<open>The backtracking loop decides the pattern\<close>

text \<open>
  The loop is at pattern position \<open>pi\<close> and text position \<open>ti\<close>; since the last star was recorded
  it consumed a star-free stretch of the pattern, one text byte per pattern byte.
\<close>

definition star_ok :: "string \<Rightarrow> nat \<Rightarrow> nat \<Rightarrow> (nat \<times> nat) option \<Rightarrow> bool" where
  "star_ok pattern pi ti star =
     (case star of None \<Rightarrow> True
      | Some (sp, st) \<Rightarrow> sp < pi \<and> pi \<le> length pattern \<and> st \<le> ti \<and> ti - st = pi - sp - 1
          \<and> pattern ! sp = CHR ''*'' \<and> CHR ''*'' \<notin> set (take (pi - sp - 1) (drop (sp + 1) pattern)))"

definition retry_ok :: "string \<Rightarrow> string \<Rightarrow> (nat \<times> nat) option \<Rightarrow> bool" where
  "retry_ok pattern text star =
     (case star of None \<Rightarrow> False
      | Some (sp, st) \<Rightarrow> \<exists>k. st < k \<and> k \<le> length text \<and> glob_spec True (drop (sp + 1) pattern) (drop k text))"

lemma glob_spec_all_stars: "glob_spec q p [] \<longleftrightarrow> skip_stars p = []"
  by (induction p) auto

definition loop_measure :: "string \<Rightarrow> string \<Rightarrow> nat \<Rightarrow> nat \<Rightarrow> (nat \<times> nat) option \<Rightarrow> nat \<times> nat \<times> nat" where
  "loop_measure pattern text pi ti star =
     (case star of None \<Rightarrow> (length pattern + 1, 0, length text - ti)
      | Some (sp, st) \<Rightarrow> (length pattern - sp, length text - st, length text - ti))"

lemma retry_dominated:
  assumes "star_ok pattern pi ti star" "pi < length pattern" "pattern ! pi = CHR ''*''"
    "ti \<le> length text" "retry_ok pattern text star"
  shows "glob_spec True (drop pi pattern) (drop ti text)"
proof -
  obtain sp st where star: "star = Some (sp, st)" using assms(5) by (auto simp: retry_ok_def split: option.splits)
  then obtain k where k: "st < k" "k \<le> length text" "glob_spec True (drop (sp + 1) pattern) (drop k text)"
    using assms(5) by (auto simp: retry_ok_def)
  define seg where "seg = take (pi - sp - 1) (drop (sp + 1) pattern)"
  have ok: "sp < pi" "st \<le> ti" "ti - st = pi - sp - 1" "CHR ''*'' \<notin> set seg"
    using assms(1) by (auto simp: star_ok_def star seg_def)
  have len: "length seg = pi - sp - 1" using assms(2) by (simp add: seg_def)
  have split: "drop (sp + 1) pattern = seg @ drop pi pattern"
    using ok(1) append_take_drop_id [of "pi - sp - 1" "drop (sp + 1) pattern"] by (simp add: seg_def)
  have rest: "glob_spec True (drop pi pattern) (drop (length seg + k) text)"
    using k(3) unfolding split glob_spec_literal [OF ok(4)] by simp
  have star_head: "drop pi pattern = CHR ''*'' # drop (pi + 1) pattern"
    using assms(2,3) by (simp add: Cons_nth_drop_Suc [symmetric])
  have "ti \<le> length seg + k" using ok len k(1) by linarith
  then have "drop ti text = take (length seg + k - ti) (drop ti text) @ drop (length seg + k) text"
    using append_take_drop_id [of "length seg + k - ti" "drop ti text"] by simp
  then show ?thesis using glob_spec_star_more rest unfolding star_head by metis
qed

lemma retry_at_end:
  assumes "star_ok pattern pi (length text) star"
  shows "\<not> retry_ok pattern text star"
proof
  assume "retry_ok pattern text star"
  then obtain sp st k where star: "star = Some (sp, st)" and k: "st < k" "k \<le> length text"
      "glob_spec True (drop (sp + 1) pattern) (drop k text)"
    by (auto simp: retry_ok_def split: option.splits)
  define seg where "seg = take (pi - sp - 1) (drop (sp + 1) pattern)"
  have ok: "sp < pi" "pi \<le> length pattern" "length text - st = pi - sp - 1" "CHR ''*'' \<notin> set seg"
    using assms by (auto simp: star_ok_def star seg_def)
  have "drop (sp + 1) pattern = seg @ drop (pi - sp - 1) (drop (sp + 1) pattern)"
    by (simp only: seg_def append_take_drop_id)
  then have "length seg \<le> length (drop k text)"
    using k(3) glob_spec_literal [OF ok(4)] by metis
  moreover have "length seg = pi - sp - 1" using ok by (simp add: seg_def)
  ultimately show False using k(1,2) ok by simp
qed

lemma star_ok_literal:
  assumes "star_ok pattern pi ti star" "pi < length pattern" "pattern ! pi \<noteq> CHR ''*''"
  shows "star_ok pattern (pi + 1) (ti + 1) star"
proof (cases star)
  case (Some s)
  obtain sp st where s: "s = (sp, st)" by (cases s)
  have ok: "sp < pi" "st \<le> ti" "ti - st = pi - sp - 1" "pattern ! sp = CHR ''*''"
      "CHR ''*'' \<notin> set (take (pi - sp - 1) (drop (sp + 1) pattern))"
    using assms(1) by (auto simp: star_ok_def Some s)
  have "take (pi - sp) (drop (sp + 1) pattern) = take (pi - sp - 1) (drop (sp + 1) pattern) @ [pattern ! pi]"
    using ok(1) assms(2) take_Suc_conv_app_nth [of "pi - sp - 1" "drop (sp + 1) pattern"]
    by (simp add: Suc_diff_Suc)
  with ok assms show ?thesis by (auto simp: star_ok_def Some s)
qed (simp add: star_ok_def)

lemma retry_split:
  assumes "st < length text"
  shows "retry_ok pattern text (Some (sp, st)) \<longleftrightarrow>
    glob_spec True (drop (sp + 1) pattern) (drop (st + 1) text) \<or> retry_ok pattern text (Some (sp, st + 1))"
proof -
  let ?P = "\<lambda>k. glob_spec True (drop (sp + 1) pattern) (drop k text)"
  have "(\<exists>k. st < k \<and> k \<le> length text \<and> ?P k) \<longleftrightarrow> ?P (st + 1) \<or> (\<exists>k. st + 1 < k \<and> k \<le> length text \<and> ?P k)"
    (is "?l \<longleftrightarrow> ?r")
  proof
    assume ?l
    then obtain k where k: "st < k" "k \<le> length text" "?P k" by blast
    show ?r
    proof (cases "k = st + 1")
      case False
      with k have "st + 1 < k" by linarith
      with k show ?thesis by blast
    qed (use k in blast)
  next
    assume ?r
    then show ?l
    proof
      assume "?P (st + 1)"
      with assms show ?l by (intro exI [of _ "st + 1"]) linarith
    next
      assume "\<exists>k. st + 1 < k \<and> k \<le> length text \<and> ?P k"
      then obtain k where "st + 1 < k" "k \<le> length text" "?P k" by blast
      then show ?l by (intro exI [of _ k]) simp
    qed
  qed
  then show ?thesis by (simp only: retry_ok_def option.case prod.case)
qed

lemma star_split:
  assumes "pi < length pattern" "pattern ! pi = CHR ''*''" "ti \<le> length text"
  shows "glob_spec True (drop pi pattern) (drop ti text) \<longleftrightarrow>
    glob_spec True (drop (pi + 1) pattern) (drop ti text) \<or> retry_ok pattern text (Some (pi, ti))"
proof -
  have d: "drop pi pattern = CHR ''*'' # drop (pi + 1) pattern"
    using assms(1,2) by (simp add: Cons_nth_drop_Suc [symmetric])
  have "(\<exists>k \<le> length text - ti. glob_spec True (drop (pi + 1) pattern) (drop k (drop ti text))) \<longleftrightarrow>
      (\<exists>k. ti \<le> k \<and> k \<le> length text \<and> glob_spec True (drop (pi + 1) pattern) (drop k text))"
    (is "?l \<longleftrightarrow> ?r")
  proof
    assume ?l
    then obtain k where "k \<le> length text - ti" "glob_spec True (drop (pi + 1) pattern) (drop (k + ti) text)" by auto
    with assms(3) show ?r by (intro exI [of _ "k + ti"]) auto
  next
    assume ?r
    then obtain k where "ti \<le> k" "k \<le> length text" "glob_spec True (drop (pi + 1) pattern) (drop k text)" by blast
    then show ?l by (intro exI [of _ "k - ti"]) auto
  qed
  then show ?thesis unfolding d glob_spec_star_drop retry_ok_def
    using assms(3) by (auto simp: le_less)
qed

lemma glob_loop_correct:
  assumes "CHR ''*'' \<notin> set (drop n text)" "star_ok pattern pi ti star" "ti \<le> length text" "pi \<le> length pattern"
    "n \<le> ti" "\<forall>sp st. star = Some (sp, st) \<longrightarrow> n \<le> st"
  shows "\<exists>r. glob_loop pattern text pi ti star = Some r \<and>
    ((case r of None \<Rightarrow> False | Some pi' \<Rightarrow> skip_stars (drop pi' pattern) = []) \<longleftrightarrow>
       glob_spec True (drop pi pattern) (drop ti text) \<or> retry_ok pattern text star)"
  using assms
proof (induction "loop_measure pattern text pi ti star" arbitrary: pi ti star
    rule: wf_induct_rule [OF wf_lex_prod [OF wf_less_than wf_lex_prod [OF wf_less_than wf_less_than]]])
  case 1
  note IH = 1(1) [OF _ 1(2)]
  show ?case
  proof (cases "ti < length text")
    case False
    then have "ti = length text" using 1 by simp
    then show ?thesis using retry_at_end [of pattern pi "text" star] 1(3)
      by (subst glob_loop.simps) (simp add: glob_spec_all_stars)
  next
    case True
    have tx: "drop ti text = text ! ti # drop (ti + 1) text" "text ! ti \<noteq> CHR ''*''"
      using True 1(2,6) nth_mem [of "ti - n" "drop n text"] by (simp add: Cons_nth_drop_Suc, force)
    consider (lit) "pi < length pattern" "pattern ! pi = CHR ''?'' \<or> pattern ! pi = text ! ti"
      | (star) "pi < length pattern" "\<not> (pattern ! pi = CHR ''?'' \<or> pattern ! pi = text ! ti)" "pattern ! pi = CHR ''*''"
      | (again) "\<not> (pi < length pattern \<and> (pattern ! pi = CHR ''?'' \<or> pattern ! pi = text ! ti))"
          "\<not> (pi < length pattern \<and> pattern ! pi = CHR ''*'')"
      by blast
    then show ?thesis
    proof cases
      case lit
      then have ns: "pattern ! pi \<noteq> CHR ''*''" using tx(2) by auto
      have "drop pi pattern = pattern ! pi # drop (pi + 1) pattern"
        using lit(1) by (simp add: Cons_nth_drop_Suc)
      then have eq: "glob_spec True (drop pi pattern) (drop ti text) \<longleftrightarrow>
          glob_spec True (drop (pi + 1) pattern) (drop (ti + 1) text)"
        using ns lit(2) tx(1) by auto
      have "glob_loop pattern text pi ti star = glob_loop pattern text (pi + 1) (ti + 1) star"
        using True lit by (subst glob_loop.simps) simp
      moreover have "(loop_measure pattern text (pi + 1) (ti + 1) star, loop_measure pattern text pi ti star)
          \<in> less_than <*lex*> less_than <*lex*> less_than"
        using True by (auto simp: loop_measure_def split: option.splits)
      ultimately show ?thesis
        using IH [of "pi + 1" "ti + 1" star] star_ok_literal [OF 1(3) lit(1) ns] True lit(1) eq 1(6,7) by simp
    next
      case star
      have "glob_loop pattern text pi ti star = glob_loop pattern text (pi + 1) ti (Some (pi, ti))"
        using True star by (subst glob_loop.simps) simp
      moreover have "(loop_measure pattern text (pi + 1) ti (Some (pi, ti)), loop_measure pattern text pi ti star)
          \<in> less_than <*lex*> less_than <*lex*> less_than"
        using star(1) 1(3) by (auto simp: loop_measure_def star_ok_def split: option.splits)
      moreover have "star_ok pattern (pi + 1) ti (Some (pi, ti))" using star by (simp add: star_ok_def)
      ultimately show ?thesis
        using IH [of "pi + 1" ti "Some (pi, ti)"] star_split [OF star(1,3) 1(4)]
          retry_dominated [OF 1(3) star(1,3) 1(4)] 1(4,6) star(1) by auto
    next
      case again
      have "\<not> glob_spec True (drop pi pattern) (drop ti text)"
      proof (cases "pi < length pattern")
        case True
        then have "drop pi pattern = pattern ! pi # drop (pi + 1) pattern" by (simp add: Cons_nth_drop_Suc)
        with again True tx(1) show ?thesis by auto
      qed (simp add: tx(1))
      note no = this
      show ?thesis
      proof (cases star)
        case None
        have "glob_loop pattern text pi ti star = Some None"
          using True again None by (subst glob_loop.simps) auto
        then show ?thesis using no by (simp add: retry_ok_def None)
      next
        case (Some s)
        obtain sp st where s: "s = (sp, st)" by (cases s)
        have ok: "sp < length pattern" "st \<le> ti" "pattern ! sp = CHR ''*''"
          using 1(3) by (auto simp: star_ok_def Some s)
        have "glob_loop pattern text pi ti star = glob_loop pattern text (sp + 1) (st + 1) (Some (sp, st + 1))"
          using True again by (subst glob_loop.simps) (auto simp: Some s)
        moreover have "(loop_measure pattern text (sp + 1) (st + 1) (Some (sp, st + 1)), loop_measure pattern text pi ti star)
            \<in> less_than <*lex*> less_than <*lex*> less_than"
          using ok True by (auto simp: loop_measure_def Some s)
        moreover have "star_ok pattern (sp + 1) (st + 1) (Some (sp, st + 1))" using ok by (simp add: star_ok_def)
        ultimately show ?thesis
          using IH [of "sp + 1" "st + 1" "Some (sp, st + 1)"] no ok True
            retry_split [of st "text" pattern sp] 1(7) by (auto simp: Some s)
      qed
    qed
  qed
qed

lemma glob_match_correct:
  assumes "CHR ''*'' \<notin> set text"
  shows "glob_match pattern text = Some (glob_spec True pattern text)"
proof -
  obtain r where "glob_loop pattern text 0 0 None = Some r"
      "(case r of None \<Rightarrow> False | Some pi' \<Rightarrow> skip_stars (drop pi' pattern) = []) \<longleftrightarrow> glob_spec True pattern text"
    using glob_loop_correct [of 0 "text" pattern 0 0 None] assms by (auto simp: star_ok_def retry_ok_def)
  then show ?thesis by (auto simp: glob_match_def split: option.splits)
qed

text \<open>A star at the start of both is taken as a literal, and no wildcard is recorded.\<close>

lemma glob_match_both_star:
  assumes "CHR ''*'' \<notin> set t"
  shows "glob_match (CHR ''*'' # p) (CHR ''*'' # t) = Some (glob_spec True p t)"
proof -
  let ?p = "CHR ''*'' # p" and ?t = "CHR ''*'' # t"
  obtain r where r: "glob_loop ?p ?t 1 1 None = Some r"
      "(case r of None \<Rightarrow> False | Some pi' \<Rightarrow> skip_stars (drop pi' ?p) = []) \<longleftrightarrow> glob_spec True p t"
    using glob_loop_correct [of 1 ?t ?p 1 1 None] assms by (auto simp: star_ok_def retry_ok_def)
  have "glob_loop ?p ?t 0 0 None = glob_loop ?p ?t 1 1 None" by (subst glob_loop.simps) simp
  then show ?thesis using r by (auto simp: glob_match_def split: option.splits)
qed

section \<open>The loop always returns and never matches wrongly\<close>

definition star_before :: "string \<Rightarrow> nat \<Rightarrow> nat \<Rightarrow> (nat \<times> nat) option \<Rightarrow> bool" where
  "star_before pattern pi ti star =
     (case star of None \<Rightarrow> True
      | Some (sp, st) \<Rightarrow> sp < pi \<and> st \<le> ti \<and> sp < length pattern \<and> pattern ! sp = CHR ''*'')"

lemma glob_loop_sound:
  assumes "star_before pattern pi ti star" "ti \<le> length text" "pi \<le> length pattern"
  shows "\<exists>r. glob_loop pattern text pi ti star = Some r \<and>
    ((case r of None \<Rightarrow> False | Some pi' \<Rightarrow> skip_stars (drop pi' pattern) = []) \<longrightarrow>
       glob_spec True (drop pi pattern) (drop ti text) \<or> retry_ok pattern text star)"
  using assms
proof (induction "loop_measure pattern text pi ti star" arbitrary: pi ti star
    rule: wf_induct_rule [OF wf_lex_prod [OF wf_less_than wf_lex_prod [OF wf_less_than wf_less_than]]])
  case 1
  show ?case
  proof (cases "ti < length text")
    case False
    then have "ti = length text" using 1 by simp
    then show ?thesis by (subst glob_loop.simps) (simp add: glob_spec_all_stars)
  next
    case True
    have tx: "drop ti text = text ! ti # drop (ti + 1) text" using True by (simp add: Cons_nth_drop_Suc)
    consider (lit) "pi < length pattern" "pattern ! pi = CHR ''?'' \<or> pattern ! pi = text ! ti"
      | (star) "pi < length pattern" "\<not> (pattern ! pi = CHR ''?'' \<or> pattern ! pi = text ! ti)" "pattern ! pi = CHR ''*''"
      | (again) "\<not> (pi < length pattern \<and> (pattern ! pi = CHR ''?'' \<or> pattern ! pi = text ! ti))"
          "\<not> (pi < length pattern \<and> pattern ! pi = CHR ''*'')"
      by blast
    then show ?thesis
    proof cases
      case lit
      have pt: "drop pi pattern = pattern ! pi # drop (pi + 1) pattern"
        using lit(1) by (simp add: Cons_nth_drop_Suc)
      have cons: "glob_spec True (c # p) (x # t)" if "c = CHR ''?'' \<or> c = x" "glob_spec True p t" for c p x t
        using that glob_spec_star [of True p "x # t"] by (cases "c = CHR ''*''") auto
      have step: "glob_spec True (drop (pi + 1) pattern) (drop (ti + 1) text) \<Longrightarrow>
          glob_spec True (drop pi pattern) (drop ti text)"
        unfolding pt tx by (rule cons [OF lit(2)])
      have "glob_loop pattern text pi ti star = glob_loop pattern text (pi + 1) (ti + 1) star"
        using True lit by (subst glob_loop.simps) simp
      moreover have "(loop_measure pattern text (pi + 1) (ti + 1) star, loop_measure pattern text pi ti star)
          \<in> less_than <*lex*> less_than <*lex*> less_than"
        using True by (auto simp: loop_measure_def split: option.splits)
      moreover have "star_before pattern (pi + 1) (ti + 1) star"
        using 1(2) by (auto simp: star_before_def split: option.splits)
      ultimately show ?thesis
        using 1(1) [of "pi + 1" "ti + 1" star] True lit(1) step by auto
    next
      case star
      have "glob_loop pattern text pi ti star = glob_loop pattern text (pi + 1) ti (Some (pi, ti))"
        using True star by (subst glob_loop.simps) simp
      moreover have "(loop_measure pattern text (pi + 1) ti (Some (pi, ti)), loop_measure pattern text pi ti star)
          \<in> less_than <*lex*> less_than <*lex*> less_than"
        using star(1) 1(2) by (auto simp: loop_measure_def star_before_def split: option.splits)
      moreover have "star_before pattern (pi + 1) ti (Some (pi, ti))" using star by (simp add: star_before_def)
      ultimately show ?thesis
        using 1(1) [of "pi + 1" ti "Some (pi, ti)"] star_split [OF star(1,3) 1(3)] 1(3) star(1) by auto
    next
      case again
      show ?thesis
      proof (cases star)
        case None
        have "glob_loop pattern text pi ti star = Some None"
          using True again None by (subst glob_loop.simps) auto
        then show ?thesis by simp
      next
        case (Some s)
        obtain sp st where s: "s = (sp, st)" by (cases s)
        have ok: "sp < length pattern" "st \<le> ti" "pattern ! sp = CHR ''*''"
          using 1(2) by (auto simp: star_before_def Some s)
        have "glob_loop pattern text pi ti star = glob_loop pattern text (sp + 1) (st + 1) (Some (sp, st + 1))"
          using True again by (subst glob_loop.simps) (auto simp: Some s)
        moreover have "(loop_measure pattern text (sp + 1) (st + 1) (Some (sp, st + 1)), loop_measure pattern text pi ti star)
            \<in> less_than <*lex*> less_than <*lex*> less_than"
          using ok True by (auto simp: loop_measure_def Some s)
        moreover have "star_before pattern (sp + 1) (st + 1) (Some (sp, st + 1))" using ok by (simp add: star_before_def)
        ultimately show ?thesis
          using 1(1) [of "sp + 1" "st + 1" "Some (sp, st + 1)"] ok True
            retry_split [of st "text" pattern sp] by (auto simp: Some s)
      qed
    qed
  qed
qed

lemma glob_match_sound:
  "\<exists>r. glob_match pattern text = Some r \<and> (r \<longrightarrow> glob_spec True pattern text)"
proof -
  obtain r where "glob_loop pattern text 0 0 None = Some r"
      "(case r of None \<Rightarrow> False | Some pi' \<Rightarrow> skip_stars (drop pi' pattern) = []) \<longrightarrow> glob_spec True pattern text"
    using glob_loop_sound [of pattern 0 0 None "text"] by (auto simp: star_before_def retry_ok_def)
  then show ?thesis by (auto simp: glob_match_def split: option.splits)
qed

section \<open>The segment matcher decides the pattern\<close>

lemma starts_with_iff: "starts_with s p \<longleftrightarrow> (\<exists>r. s = p @ r)"
  by (induction s p rule: starts_with.induct) auto

lemma ends_with_iff: "ends_with s p \<longleftrightarrow> (\<exists>r. s = r @ p)"
  unfolding ends_with_def starts_with_iff by (metis rev_append rev_rev_ident)

lemma glob_spec_prefix:
  assumes "CHR ''*'' \<notin> set part"
  shows "glob_spec False (part @ p) t \<longleftrightarrow> starts_with t part \<and> glob_spec False p (drop (length part) t)"
  unfolding glob_spec_literal [OF assms] glob_spec_plain [OF assms] starts_with_iff
  by (metis append_eq_conv_conj append_take_drop_id le_add1 length_append take_all)

lemma glob_spec_suffix:
  assumes "CHR ''*'' \<notin> set part"
  shows "glob_spec False (CHR ''*'' # part) t \<longleftrightarrow> ends_with t part"
  unfolding glob_spec_star ends_with_iff glob_spec_plain [OF assms] by auto

lemma glob_spec_find:
  assumes "CHR ''*'' \<notin> set part"
  shows "glob_spec False (CHR ''*'' # part @ CHR ''*'' # p) t \<longleftrightarrow>
    (case find_str t part of None \<Rightarrow> False
     | Some idx \<Rightarrow> glob_spec False (CHR ''*'' # p) (drop (idx + length part) t))"
proof (induction t)
  case Nil
  then show ?case using glob_spec_prefix [OF assms, of "CHR ''*'' # p" "[]"] by (cases part) auto
next
  case (Cons c t)
  show ?case
  proof (cases "starts_with (c # t) part")
    case True
    have "glob_spec False (CHR ''*'' # p) (drop (length part) (c # t))"
      if "glob_spec False (CHR ''*'' # part @ CHR ''*'' # p) t"
    proof -
      from that obtain u v where t: "t = u @ v" "starts_with v part"
          "glob_spec False (CHR ''*'' # p) (drop (length part) v)"
        unfolding glob_spec_star [of False "part @ CHR ''*'' # p"] glob_spec_prefix [OF assms] by blast
      have "length part \<le> length (c # u) + length part" by simp
      then have "drop (length part) (c # t) =
          take (length (c # u)) (drop (length part) (c # t)) @ drop (length part) v"
        using append_take_drop_id [of "length (c # u)" "drop (length part) (c # t)"] t(1)
        by (simp add: add.commute [of _ "length part"] del: append_take_drop_id)
      then show ?thesis using glob_spec_star_more t(3) by metis
    qed
    then show ?thesis
      using True glob_spec_prefix [OF assms, of "CHR ''*'' # p" "c # t"] by auto
  next
    case False
    then show ?thesis
      using Cons glob_spec_prefix [OF assms, of "CHR ''*'' # p" "c # t"] by (auto split: option.splits)
  qed
qed

lemma wildcard_parts_correct:
  assumes "0 < i" "i + length parts = n" "parts \<noteq> []" "\<forall>part \<in> set parts. CHR ''*'' \<notin> set part"
  shows "wildcard_parts n i text parts \<longleftrightarrow> glob_spec False (CHR ''*'' # join_with CHR ''*'' parts) text"
  using assms
proof (induction parts arbitrary: i "text")
  case (Cons part parts)
  show ?case
  proof (cases parts)
    case Nil
    with Cons.prems show ?thesis by (auto simp: glob_spec_star_end glob_spec_suffix ends_with_iff)
  next
    case (Cons part' parts')
    note ih = Cons.IH [of "i + 1"]
    have last: "i \<noteq> n - 1" using Cons.prems Cons by simp
    have IH: "wildcard_parts n (i + 1) t parts \<longleftrightarrow> glob_spec False (CHR ''*'' # join_with CHR ''*'' parts) t" for t
      using ih Cons.prems Cons by simp
    show ?thesis
    proof (cases "part = []")
      case True
      have "glob_spec False (CHR ''*'' # CHR ''*'' # p) t \<longleftrightarrow> glob_spec False (CHR ''*'' # p) t" for p t
        using glob_spec_star_more by (auto simp: glob_spec_star [of _ "CHR ''*'' # p"] intro: exI [of _ "[]"])
      with True IH Cons show ?thesis by simp
    next
      case False
      with IH Cons Cons.prems last glob_spec_find [of part "join_with CHR ''*'' parts" "text"]
      show ?thesis by (simp split: option.splits)
    qed
  qed
qed simp

lemma wildcard_correct: "wildcard text pat \<longleftrightarrow> glob_spec False pat text"
proof (cases "CHR ''*'' \<in> set pat")
  case False
  then show ?thesis by (auto simp: wildcard_def glob_spec_plain)
next
  case True
  obtain part parts where sp: "split_on CHR ''*'' pat = part # parts"
    by (cases "split_on CHR ''*'' pat") auto
  have pat: "join_with CHR ''*'' (part # parts) = pat" unfolding sp [symmetric] by simp
  have no: "\<forall>x \<in> set (part # parts). CHR ''*'' \<notin> set x" using split_on_no_sep sp by metis
  then have ne: "parts \<noteq> []" using True pat by (cases parts) auto
  then have pat': "pat = part @ CHR ''*'' # join_with CHR ''*'' parts" using pat by (cases parts) auto
  have rest: "wildcard_parts (Suc (length parts)) (Suc 0) t parts \<longleftrightarrow>
      glob_spec False (CHR ''*'' # join_with CHR ''*'' parts) t" for t
    using wildcard_parts_correct [of 1 parts] ne no by simp
  have "wildcard text pat \<longleftrightarrow> starts_with text part \<and>
      glob_spec False (CHR ''*'' # join_with CHR ''*'' parts) (drop (length part) text)"
    using True rest by (simp add: wildcard_def sp)
  then show ?thesis using glob_spec_prefix [of part "CHR ''*'' # join_with CHR ''*'' parts" "text"] no
    by (simp add: pat' [symmetric])
qed

section \<open>Properties\<close>

lemma first_rule_local:
  "first_rule default_rules f = LocalOnly \<longleftrightarrow>
     (\<exists>p \<in> {''*.sqlite'', ''*.sqlite-wal'', ''*.sqlite-shm'', ''.DS_Store'', ''thumbs.db''}. glob_match p f = Some True)"
  by (simp add: default_rules_def)

text \<open>The meaning the comment on \<open>glob_match\<close> gives a pattern, on the characters of pattern and text: a star (42)
  stands for any characters, a question mark (63) for a single one.\<close>

fun glob_chars :: "nat list \<Rightarrow> nat list \<Rightarrow> bool" where
  "glob_chars [] t = (t = [])"
| "glob_chars (c # p) [] = (c = 42 \<and> glob_chars p [])"
| "glob_chars (c # p) (x # t) =
     (if c = 42 then glob_chars p (x # t) \<or> glob_chars (c # p) t else (c = x \<or> c = 63) \<and> glob_chars p t)"

definition chars_of :: "string \<Rightarrow> nat list" where
  "chars_of s = str_chars (as_bytes s)"

definition is_ascii :: "string \<Rightarrow> bool" where
  "is_ascii s \<longleftrightarrow> (\<forall>c \<in> set s. (of_char c :: nat) < 128)"

lemma chars_of_ascii: "is_ascii s \<Longrightarrow> chars_of s = map of_char s"
proof -
  assume s: "is_ascii s"
  have code: "unat (of_char c :: byte) = of_char c" for c :: char
    by (simp add: of_char_def unsigned_of_nat take_bit_nat_eq_self)
  have "\<forall>b \<in> set (as_bytes s). unat b < 128" using s by (auto simp: is_ascii_def as_bytes_def code)
  then show ?thesis by (simp add: chars_of_def str_chars_ascii) (simp add: as_bytes_def code)
qed

lemma glob_chars_bytes: "glob_chars (map of_char p) (map of_char t) = glob_spec True p t"
proof -
  have eq: "(of_char c :: nat) = of_char d \<longleftrightarrow> c = d" for c d :: char by simp
  have star: "(of_char c :: nat) = 42 \<longleftrightarrow> c = CHR ''*''" for c using eq [of c "CHR ''*''"] by simp
  have mark: "(of_char c :: nat) = 63 \<longleftrightarrow> c = CHR ''?''" for c using eq [of c "CHR ''?''"] by simp
  show ?thesis by (induction True p t rule: glob_spec.induct) (simp_all add: star mark)
qed

lemma glob_chars_marks: "glob_chars (replicate n 63) t \<longleftrightarrow> n = length t"
proof (induction n arbitrary: t)
  case (Suc n)
  then show ?case by (cases t) simp_all
qed auto

lemma glob_spec_marks: "glob_spec True (replicate n (CHR ''?'')) t \<longleftrightarrow> n = length t"
proof (induction n arbitrary: t)
  case (Suc n)
  then show ?case by (cases t) simp_all
qed auto

text \<open>(C24) The rule matcher returns on every input. On ASCII pattern and text a match it reports is a match of the
  pattern as the comment describes it, and when the text has no literal star it decides the
  pattern exactly.\<close>

theorem glob_match_decides:
  "\<exists>r. glob_match pattern text = Some r
    \<and> (is_ascii pattern \<and> is_ascii text \<longrightarrow>
        (r \<longrightarrow> glob_chars (chars_of pattern) (chars_of text))
        \<and> (CHR ''*'' \<notin> set text \<longrightarrow> r = glob_chars (chars_of pattern) (chars_of text)))"
  using glob_match_sound [of pattern "text"] glob_match_correct [of "text" pattern]
  by (auto simp: chars_of_ascii glob_chars_bytes)

theorem glob_match_decides_witness:
  "glob_match ''a*b?c*'' ''axbybzc'' = Some True \<and> glob_match ''*.png'' ''a.png.md'' = Some False"
proof -
  have "is_ascii ''a*b?c*''" "is_ascii ''axbybzc''" "is_ascii ''*.png''" "is_ascii ''a.png.md''" by (simp_all add: is_ascii_def)
  then show ?thesis
    using glob_match_decides [of "''a*b?c*''" "''axbybzc''"] glob_match_decides [of "''*.png''" "''a.png.md''"]
    by (auto simp: chars_of_ascii)
qed

text \<open>Outside ASCII a question mark is not a single character. Against any text without a literal star, \<open>n\<close>
  question marks match exactly when the text has \<open>n\<close> bytes; as the comment describes the pattern they
  should match exactly when it has \<open>n\<close> characters.\<close>

theorem question_mark_counts_bytes:
  assumes "CHR ''*'' \<notin> set text"
  shows "glob_match (replicate n (CHR ''?'')) text = Some (n = length text)
    \<and> (glob_chars (chars_of (replicate n (CHR ''?''))) (chars_of text) \<longleftrightarrow> n = length (chars_of text))"
proof -
  have "chars_of (replicate n (CHR ''?'')) = replicate n 63" by (simp add: chars_of_ascii is_ascii_def)
  then show ?thesis using assms by (simp add: glob_match_correct glob_spec_marks glob_chars_marks)
qed

theorem question_mark_counts_bytes_witness:
  "glob_match ''?'' [CHR 0xC3, CHR 0xA9] = Some False \<and> glob_chars (chars_of ''?'') (chars_of [CHR 0xC3, CHR 0xA9])"
proof -
  have "length (chars_of [CHR 0xC3, CHR 0xA9]) = 1"
    by (simp add: chars_of_def as_bytes_def str_chars_def utf8_items.simps utf8_head_def byte_at_def continuation_def Let_def)
  then show ?thesis using question_mark_counts_bytes [of "[CHR 0xC3, CHR 0xA9]" 1] by simp
qed

text \<open>(C25) A pattern star that meets a literal star in the text is consumed by it and is no wildcard: for every
  pattern and every text with no other star, the rest of the pattern has to match the rest of the
  text as it stands. The pattern means more, a match of its rest at any later place.\<close>

theorem glob_match_literal_star:
  assumes "CHR ''*'' \<notin> set t"
  shows "glob_match (CHR ''*'' # p) (CHR ''*'' # t) = Some (glob_spec True p t)
    \<and> (glob_spec True (CHR ''*'' # p) (CHR ''*'' # t) \<longleftrightarrow> (\<exists>k \<le> length t + 1. glob_spec True p (drop k (CHR ''*'' # t))))"
  using glob_match_both_star [OF assms] glob_spec_star_drop [of True p "CHR ''*'' # t"] by simp

theorem glob_match_literal_star_witness:
  "glob_match ''*x'' ''*x'' = Some True \<and> glob_match ''*x'' ''*yx'' = Some False \<and> glob_spec True ''*x'' ''*yx''"
  using glob_match_literal_star [of "''x''" "''x''"] glob_match_literal_star [of "''yx''" "''x''"] by simp

text \<open>(C26) With the default rules a file stays on its device exactly when its name ends in one of the
  three database suffixes or is one of the two system files. This is for file names without a
  literal star.\<close>

theorem default_local_only:
  assumes "CHR ''*'' \<notin> set (after_last CHR ''/'' path)"
  shows "is_local_only default_rules path \<longleftrightarrow>
    (\<exists>s \<in> {''.sqlite'', ''.sqlite-wal'', ''.sqlite-shm''}. ends_with (after_last CHR ''/'' path) s)
    \<or> after_last CHR ''/'' path \<in> {''.DS_Store'', ''thumbs.db''}"
proof -
  define f where "f = after_last CHR ''/'' path"
  have lit: "glob_spec True p t \<longleftrightarrow> t = p" if "CHR ''*'' \<notin> set p" "CHR ''?'' \<notin> set p" for p t
    using that
  proof (induction p arbitrary: t)
    case (Cons c p)
    then show ?case by (cases t) auto
  qed simp
  have suf: "glob_spec True (CHR ''*'' # p) t \<longleftrightarrow> ends_with t p" if "CHR ''*'' \<notin> set p" "CHR ''?'' \<notin> set p" for p t
    unfolding glob_spec_star lit [OF that] ends_with_iff by auto
  have dec: "glob_match p f = Some True \<longleftrightarrow> glob_spec True p f" for p
    using glob_match_correct [OF assms] by (simp add: f_def)
  show ?thesis
    unfolding is_local_only_def strategy_for_def f_def [symmetric] first_rule_local dec
    by (simp add: suf lit)
qed

theorem default_local_only_witness:
  "is_local_only default_rules ''db/x.sqlite-wal'' \<and> \<not> is_local_only default_rules ''db/x.sqlite.md''"
proof -
  have "CHR ''*'' \<notin> set (after_last CHR ''/'' ''db/x.sqlite-wal'')" "CHR ''*'' \<notin> set (after_last CHR ''/'' ''db/x.sqlite.md'')"
    by (simp_all add: after_last_def)
  from default_local_only [OF this(1)] default_local_only [OF this(2)]
  show ?thesis by (simp add: after_last_def ends_with_def)
qed

text \<open>(C27) The purge matcher decides each segment exactly by the meaning of the pattern: the greedy
  leftmost placement of the literal parts loses no match.\<close>

theorem wildcard_decides: "wildcard text pat \<longleftrightarrow> glob_spec False pat text"
  by (rule wildcard_correct)

text \<open>(C28) A purge pattern without an inner slash is not anchored by a leading slash: \<open>/p\<close> selects exactly the
  paths that have a segment, in whatever directory, which matches \<open>p\<close>.\<close>

theorem leading_slash_not_anchored:
  assumes "p \<noteq> []" "CHR ''/'' \<notin> set p" "trim (CHR ''/'' # p) = CHR ''/'' # p"
    "dropWhile (\<lambda>c. c = CHR ''/'') (trim_dot_slash path) = norm" "norm \<noteq> []"
  shows "matches_any path [CHR ''/'' # p] \<longleftrightarrow> (\<exists>seg \<in> set (split_on CHR ''/'' norm). glob_spec False p seg)"
proof -
  have "\<not> ends_with (CHR ''/'' # p) ''/''"
    using assms(1,2) by (cases p rule: rev_cases) (auto simp: ends_with_def)
  then show ?thesis
    using assms by (auto simp: matches_any_def matches_one_def list_ex_iff wildcard_correct)
qed

theorem leading_slash_not_anchored_witness:
  "matches_any ''notes/foo'' [''/foo''] \<and> \<not> matches_any ''notes/food'' [''/foo'']"
proof -
  have t: "trim ''/foo'' = ''/foo''" by (simp add: trim_def trim_left.simps space_seqs_def)
  have n: "dropWhile (\<lambda>c. c = CHR ''/'') (trim_dot_slash ''notes/foo'') = ''notes/foo''"
    "dropWhile (\<lambda>c. c = CHR ''/'') (trim_dot_slash ''notes/food'') = ''notes/food''" by simp_all
  show ?thesis
    using leading_slash_not_anchored [OF _ _ t n(1)] leading_slash_not_anchored [OF _ _ t n(2)] by simp
qed

end
