(* ===== verification/Storage_Path.thy ===== *)
theory Storage_Path
  imports Entries
begin

text \<open>
  Names in the server's storage directory (\<open>storage_component\<close> of
  \<open>crates/sync-server/src/storage.rs\<close>) and \<open>hash_to_hex\<close> of \<open>crates/sync-core/src/hash.rs\<close>. An
  identifier that is safe as a file name stands for itself; any other is replaced by a tilde and the
  hash of its bytes. The hash function is the parameter \<open>H\<close>.
\<close>

definition hex_digit :: "nat \<Rightarrow> char" where
  "hex_digit n = char_of (if n < 10 then 48 + n else 87 + n)"

definition hash_to_hex :: "FileHash \<Rightarrow> string" where
  "hash_to_hex h = concat (map (\<lambda>b. [hex_digit (unat b div 16), hex_digit (unat b mod 16)]) h)"

definition safe_char :: "char \<Rightarrow> bool" where
  "safe_char c \<longleftrightarrow>
     (let n = (of_char c :: nat) in
      48 \<le> n \<and> n \<le> 57 \<or> 65 \<le> n \<and> n \<le> 90 \<or> 97 \<le> n \<and> n \<le> 122 \<or> c = CHR ''-'' \<or> c = CHR ''_'' \<or> c = CHR ''.'')"

definition safe_component :: "string \<Rightarrow> bool" where
  "safe_component value \<longleftrightarrow>
     value \<noteq> [] \<and> length value \<le> 128 \<and> value \<noteq> ''.'' \<and> value \<noteq> ''..'' \<and> list_all safe_char value"

definition storage_component :: "(bytes \<Rightarrow> FileHash) \<Rightarrow> string \<Rightarrow> string" where
  "storage_component H value =
     (if safe_component value then value else CHR ''~'' # hash_to_hex (H (as_bytes value)))"

lemma storage_component_safe [simp]: "safe_component d \<Longrightarrow> storage_component H d = d"
  by (simp add: storage_component_def)

lemma safe_no_tilde: "safe_component (CHR ''~'' # s) \<Longrightarrow> False"
  by (simp add: safe_component_def safe_char_def Let_def)

text \<open>A safe identifier is no other identifier's name.\<close>

lemma storage_component_eq: "safe_component d \<Longrightarrow> storage_component H e = d \<longleftrightarrow> e = d"
  using safe_no_tilde by (auto simp: storage_component_def split: if_splits)

lemma storage_component_not_tokens: "storage_component H e = ''tokens'' \<longleftrightarrow> e = ''tokens''"
  by (rule storage_component_eq) (simp add: safe_component_def safe_char_def)

end
