(* ===== verification/Seq_Tracker.thy ===== *)
theory Seq_Tracker
  imports Storage_Path "HOL-Library.AList"
begin

unbundle bit_operations_syntax

text \<open>
  \<open>crates/sync-server/src/seq_tracker.rs\<close>: the per-device anti-replay window of the HTTP
  transport, a 1024-bit sliding window in memory and a durable reservation ceiling on disk.
  The tracker's steps (the in-memory fast path, the reserving slow path, a restart) are run in
  any order, each under the tracker's mutex, and with any outcome of the disk reads and writes. The
  file of a device lies in the directory \<open>storage_component\<close> gives for its id. No sequence number
  of a device whose id is its own directory name is accepted twice; for any other id a restart
  forgets the window.
\<close>

section \<open>The window\<close>

definition WINDOW_BITS :: nat where "WINDOW_BITS = 1024"
definition WINDOW_BYTES :: nat where "WINDOW_BYTES = WINDOW_BITS div 8"
definition RESERVATION_BLOCK :: u64 where "RESERVATION_BLOCK = 4096"
definition FILE_BYTES :: nat where "FILE_BYTES = 8"

datatype ReplayDecision =
    Accepted
  | Replay u64

record ReplayWindow =
  greatest_seen :: u64
  reserved_through :: u64
  seen :: bytes

definition window_default :: ReplayWindow where
  "window_default = \<lparr>greatest_seen = 0, reserved_through = 0, seen = replicate WINDOW_BYTES 0\<rparr>"

definition reservation_ceiling :: "u64 \<Rightarrow> u64" where
  "reservation_ceiling sequence =
     (let remainder = sequence mod RESERVATION_BLOCK in
      if remainder = 0 then sequence
      else u64_saturating_add sequence (RESERVATION_BLOCK - remainder))"

definition bit_is_set :: "bytes \<Rightarrow> nat \<Rightarrow> bool" where
  "bit_is_set bits index = ((bits ! (index div 8)) AND push_bit (index mod 8) 1 \<noteq> 0)"

definition set_window_bit :: "bytes \<Rightarrow> nat \<Rightarrow> bytes" where
  "set_window_bit bits index =
     bits[index div 8 := (bits ! (index div 8)) OR push_bit (index mod 8) 1]"

definition is_seen_or_stale :: "ReplayWindow \<Rightarrow> u64 \<Rightarrow> bool" where
  "is_seen_or_stale state sequence =
     (if sequence > greatest_seen state then False
      else (let age = greatest_seen state - sequence in
        age \<ge> of_nat WINDOW_BITS \<or> bit_is_set (seen state) (unat age)))"

definition record_sequence :: "ReplayWindow \<Rightarrow> u64 \<Rightarrow> ReplayWindow" where
  "record_sequence state sequence =
     (if sequence > greatest_seen state then
        (let delta = sequence - greatest_seen state;
             cleared = replicate WINDOW_BYTES 0;
             shifted =
               (if delta \<ge> of_nat WINDOW_BITS then cleared
                else (let shift = unat delta; previous = seen state in
                  fold (\<lambda>age bits. if bit_is_set previous age then set_window_bit bits (age + shift) else bits)
                    [0..<WINDOW_BITS - shift] cleared))
         in state\<lparr>seen := set_window_bit shifted 0, greatest_seen := sequence\<rparr>)
      else state\<lparr>seen := set_window_bit (seen state) (unat (greatest_seen state - sequence))\<rparr>)"

section \<open>The tracker\<close>

text \<open>
  \<open>devices\<close> lists the device directories by their names, with the content of their reservation file
  if there is one; it survives a crash. \<open>states\<close> is the map behind the mutex, by device ids. A
  read is given by a predicate \<open>readable\<close> on directory names: whether reading the file there
  ends with its content or with the error that there is none, and not with another error.
\<close>

record SequenceTracker =
  devices :: "(string \<times> bytes option) list"
  states :: "string \<rightharpoonup> ReplayWindow"

text \<open>
  Outcome of the writes of \<open>persist\<close>: success, a failure before the rename (the file keeps its
  content) or after it (the new content is visible although the call reports an error).
\<close>

datatype PersistOutcome = Persisted | FailedBefore | FailedAfter

definition be_bytes :: "u64 \<Rightarrow> bytes" where "be_bytes w = rev (u64_le w)"
definition u64_of_be :: "bytes \<Rightarrow> u64" where "u64_of_be bs = u64_of_le (rev bs)"

definition persist ::
  "(bytes \<Rightarrow> FileHash) \<Rightarrow> PersistOutcome \<Rightarrow> string \<Rightarrow> u64 \<Rightarrow> SequenceTracker \<Rightarrow> (unit + unit) \<times> SequenceTracker" where
  "persist H outcome device_id ceiling tracker =
     (let written = tracker\<lparr>devices := AList.update (storage_component H device_id) (Some (be_bytes ceiling)) (devices tracker)\<rparr> in
      case outcome of
        Persisted \<Rightarrow> (Inr (), written)
      | FailedBefore \<Rightarrow> (Inl (), tracker)
      | FailedAfter \<Rightarrow> (Inl (), written))"

definition load_window ::
  "(bytes \<Rightarrow> FileHash) \<Rightarrow> (string \<Rightarrow> bool) \<Rightarrow> (string \<times> bytes option) list \<Rightarrow> string \<Rightarrow> unit + ReplayWindow" where
  "load_window H readable files device_id =
     (let dir = storage_component H device_id in
      if \<not> readable dir then Inl ()
      else case map_of files dir of
        None \<Rightarrow> Inr window_default
      | Some None \<Rightarrow> Inr window_default
      | Some (Some content) \<Rightarrow>
          if length content \<noteq> FILE_BYTES then Inl ()
          else Inr \<lparr>greatest_seen = u64_of_be content, reserved_through = u64_of_be content,
                    seen = replicate WINDOW_BYTES (- 1)\<rparr>)"

text \<open>The names of the directories are taken as device ids.\<close>

fun load_devices ::
  "(bytes \<Rightarrow> FileHash) \<Rightarrow> (string \<Rightarrow> bool) \<Rightarrow> (string \<times> bytes option) list \<Rightarrow> (string \<times> bytes option) list
   \<Rightarrow> (string \<rightharpoonup> ReplayWindow) \<Rightarrow> unit + (string \<rightharpoonup> ReplayWindow)" where
  "load_devices H readable files [] sts = Inr sts"
| "load_devices H readable files ((device_id, _) # rest) sts =
     (if device_id = ''tokens'' then load_devices H readable files rest sts
      else and_then (load_window H readable files device_id) (\<lambda>w.
        load_devices H readable files rest (sts(device_id \<mapsto> w))))"

definition tracker_new ::
  "(bytes \<Rightarrow> FileHash) \<Rightarrow> (string \<Rightarrow> bool) \<Rightarrow> (string \<times> bytes option) list \<Rightarrow> unit + SequenceTracker" where
  "tracker_new H readable files =
     and_then (load_devices H readable files files Map.empty) (\<lambda>sts. Inr \<lparr>devices = files, states = sts\<rparr>)"

definition check_in_memory ::
  "string \<Rightarrow> u64 \<Rightarrow> SequenceTracker \<Rightarrow> ReplayDecision option \<times> SequenceTracker" where
  "check_in_memory device_id sequence tracker =
     (let state = (case states tracker device_id of None \<Rightarrow> window_default | Some w \<Rightarrow> w);
          tracker = tracker\<lparr>states := (states tracker)(device_id \<mapsto> state)\<rparr>
      in if sequence = 0 \<or> is_seen_or_stale state sequence
         then (Some (Replay (max (reserved_through state) (greatest_seen state))), tracker)
         else if sequence > reserved_through state then (None, tracker)
         else (Some Accepted,
               tracker\<lparr>states := (states tracker)(device_id \<mapsto> record_sequence state sequence)\<rparr>))"

definition check_and_record ::
  "(bytes \<Rightarrow> FileHash) \<Rightarrow> (string \<Rightarrow> bool) \<Rightarrow> PersistOutcome \<Rightarrow> string \<Rightarrow> u64 \<Rightarrow> SequenceTracker \<Rightarrow> (unit + ReplayDecision) \<times> SequenceTracker" where
  "check_and_record H readable outcome device_id sequence tracker =
     (let loaded = (case states tracker device_id of
            Some w \<Rightarrow> Inr (w, tracker)
          | None \<Rightarrow> and_then (load_window H readable (devices tracker) device_id)
              (\<lambda>w. Inr (w, tracker\<lparr>states := (states tracker)(device_id \<mapsto> w)\<rparr>)))
      in case loaded of
           Inl e \<Rightarrow> (Inl e, tracker)
         | Inr (state, tracker) \<Rightarrow>
             if sequence = 0 \<or> is_seen_or_stale state sequence
             then (Inr (Replay (max (reserved_through state) (greatest_seen state))), tracker)
             else if sequence > reserved_through state then
               (let ceiling = reservation_ceiling sequence in
                case persist H outcome device_id ceiling tracker of
                  (Inl e, tracker) \<Rightarrow> (Inl e, tracker)
                | (Inr _, tracker) \<Rightarrow>
                    (Inr Accepted, tracker\<lparr>states := (states tracker)(device_id \<mapsto>
                       record_sequence (state\<lparr>reserved_through := ceiling\<rparr>) sequence)\<rparr>))
             else (Inr Accepted, tracker\<lparr>states := (states tracker)(device_id \<mapsto> record_sequence state sequence)\<rparr>))"

section \<open>Runs\<close>

text \<open>
  What can happen to a tracker, in any order: requests of any device on either path, and a
  restart, which drops the memory and reloads the files. A restart that fails to load leaves no
  running tracker.
\<close>

datatype event =
    Fast string u64
  | Slow "string \<Rightarrow> bool" PersistOutcome string u64
  | Restart "string \<Rightarrow> bool"

definition tracker_step ::
  "(bytes \<Rightarrow> FileHash) \<Rightarrow> event \<Rightarrow> SequenceTracker \<Rightarrow> ((string \<times> u64) list \<times> SequenceTracker) option" where
  "tracker_step H ev tracker =
     (case ev of
        Fast device sequence \<Rightarrow>
          (case check_in_memory device sequence tracker of
             (Some Accepted, t) \<Rightarrow> Some ([(device, sequence)], t)
           | (_, t) \<Rightarrow> Some ([], t))
      | Slow readable outcome device sequence \<Rightarrow>
          (case check_and_record H readable outcome device sequence tracker of
             (Inr Accepted, t) \<Rightarrow> Some ([(device, sequence)], t)
           | (_, t) \<Rightarrow> Some ([], t))
      | Restart readable \<Rightarrow> (case tracker_new H readable (devices tracker) of Inl _ \<Rightarrow> None | Inr t \<Rightarrow> Some ([], t)))"

text \<open>The accepted requests of a run, in order; the run ends at a restart that fails.\<close>

fun accepted_run :: "(bytes \<Rightarrow> FileHash) \<Rightarrow> event list \<Rightarrow> SequenceTracker \<Rightarrow> (string \<times> u64) list" where
  "accepted_run H [] tracker = []"
| "accepted_run H (ev # evs) tracker =
     (case tracker_step H ev tracker of
        None \<Rightarrow> []
      | Some (acc, tracker') \<Rightarrow> acc @ accepted_run H evs tracker')"

section \<open>The bits\<close>

lemma bit_is_set_bit: "bit_is_set bits i \<longleftrightarrow> bit (bits ! (i div 8)) (i mod 8)"
  by (simp add: bit_is_set_def and_exp_eq_0_iff_not_bit)

lemma length_set_window_bit [simp]: "length (set_window_bit bits i) = length bits"
  by (simp add: set_window_bit_def)

lemma bit_set_window_bit:
  assumes "j div 8 < length bits"
  shows "bit_is_set (set_window_bit bits j) i \<longleftrightarrow> i = j \<or> bit_is_set bits i"
proof (cases "i div 8 = j div 8")
  case True
  then have "i = j \<longleftrightarrow> i mod 8 = j mod 8" by (metis div_mult_mod_eq)
  with True assms show ?thesis
    by (auto simp: bit_is_set_bit set_window_bit_def bit_or_iff bit_exp_iff)
next
  case False
  with assms show ?thesis by (auto simp: bit_is_set_bit set_window_bit_def)
qed

lemma bit_is_set_replicate:
  "i < 8 * n \<Longrightarrow> \<not> bit_is_set (replicate n 0) i"
  "i < 8 * n \<Longrightarrow> bit_is_set (replicate n (- 1)) i"
  by (simp_all add: bit_is_set_bit less_mult_imp_div_less mult.commute bit_minus_1_iff)

lemma shift_bits:
  fixes previous
  assumes "length bits = WINDOW_BYTES" "n + shift \<le> WINDOW_BITS"
  defines "r \<equiv> fold (\<lambda>age bits. if bit_is_set previous age then set_window_bit bits (age + shift) else bits) [0..<n] bits"
  shows "length r = WINDOW_BYTES \<and>
    (\<forall>i. bit_is_set r i \<longleftrightarrow> bit_is_set bits i \<or> (shift \<le> i \<and> i < n + shift \<and> bit_is_set previous (i - shift)))"
  using assms(2) unfolding r_def
proof (induction n)
  case (Suc n)
  let ?r = "fold (\<lambda>age bits. if bit_is_set previous age then set_window_bit bits (age + shift) else bits) [0..<n] bits"
  have IH: "length ?r = WINDOW_BYTES"
    "bit_is_set ?r i \<longleftrightarrow> bit_is_set bits i \<or> (shift \<le> i \<and> i < n + shift \<and> bit_is_set previous (i - shift))" for i
    using Suc by simp_all
  have "(n + shift) div 8 < length ?r" using Suc.prems IH(1) by (simp add: WINDOW_BYTES_def WINDOW_BITS_def)
  note set = bit_set_window_bit [OF this]
  have cut: "shift \<le> i \<and> i < Suc n + shift \<and> bit_is_set previous (i - shift) \<longleftrightarrow>
      (i = n + shift \<and> bit_is_set previous n)
      \<or> (shift \<le> i \<and> i < n + shift \<and> bit_is_set previous (i - shift))" for i
    by (cases "i = n + shift") (simp, simp, linarith)
  show ?case
  proof (cases "bit_is_set previous n")
    case True
    then show ?thesis unfolding cut using IH(1) by (simp add: set IH(2)) blast
  next
    case False
    then show ?thesis unfolding cut using IH by simp
  qed
qed (auto simp: assms(1))

section \<open>Recording a sequence\<close>

lemma window_bits_u64: "of_nat WINDOW_BITS = (1024 :: u64)"
  by (simp add: WINDOW_BITS_def)

lemma stale_age: "(a :: u64) \<ge> of_nat WINDOW_BITS \<longleftrightarrow> WINDOW_BITS \<le> unat a"
  by (simp add: window_bits_u64 WINDOW_BITS_def word_le_nat_alt)

lemma unat_sub: "(b :: u64) \<le> a \<Longrightarrow> unat (a - b) = unat a - unat b"
  by (rule unat_sub)

text \<open>The set of rejected sequences in terms of natural numbers.\<close>

lemma is_seen_or_stale_nat:
  "is_seen_or_stale st t \<longleftrightarrow> unat t \<le> unat (greatest_seen st) \<and>
     (WINDOW_BITS \<le> unat (greatest_seen st) - unat t \<or> bit_is_set (seen st) (unat (greatest_seen st) - unat t))"
proof (cases "t > greatest_seen st")
  case False
  then have "unat (greatest_seen st - t) = unat (greatest_seen st) - unat t" by (intro unat_sub) simp
  with False show ?thesis
    unfolding is_seen_or_stale_def Let_def stale_age by (simp add: word_less_nat_alt not_less)
qed (simp add: is_seen_or_stale_def word_less_nat_alt)

definition window_ok :: "ReplayWindow \<Rightarrow> bool" where
  "window_ok st \<longleftrightarrow> length (seen st) = WINDOW_BYTES"

lemma window_ok_default [simp]: "window_ok window_default"
  by (simp add: window_ok_def window_default_def)

lemma record_kept [simp]: "reserved_through (record_sequence st s) = reserved_through st"
  by (simp add: record_sequence_def Let_def)

lemma record_newer:
  assumes ok: "window_ok st" and newer: "unat (greatest_seen st) < unat s"
  shows "window_ok (record_sequence st s)" "greatest_seen (record_sequence st s) = s"
    and "i < WINDOW_BITS \<Longrightarrow> bit_is_set (seen (record_sequence st s)) i \<longleftrightarrow>
      i = 0 \<or> (unat s - unat (greatest_seen st) \<le> i \<and> bit_is_set (seen st) (i - (unat s - unat (greatest_seen st))))"
proof -
  define d where "d = unat s - unat (greatest_seen st)"
  define cleared where "cleared = (replicate WINDOW_BYTES 0 :: bytes)"
  define shifted where "shifted = (if WINDOW_BITS \<le> d then cleared
    else fold (\<lambda>age bits. if bit_is_set (seen st) age then set_window_bit bits (age + d) else bits)
           [0..<WINDOW_BITS - d] cleared)"
  have d: "unat (s - greatest_seen st) = d" using newer by (simp add: d_def unat_sub word_le_nat_alt)
  have eq: "record_sequence st s = st\<lparr>seen := set_window_bit shifted 0, greatest_seen := s\<rparr>"
    using newer by (simp add: record_sequence_def word_less_nat_alt Let_def stale_age d shifted_def cleared_def)
  have cleared: "length cleared = WINDOW_BYTES" "i < WINDOW_BITS \<Longrightarrow> \<not> bit_is_set cleared i" for i
    using bit_is_set_replicate(1) [of i WINDOW_BYTES] by (simp_all add: cleared_def WINDOW_BYTES_def WINDOW_BITS_def)
  have shifted: "length shifted = WINDOW_BYTES"
    "i < WINDOW_BITS \<Longrightarrow> bit_is_set shifted i \<longleftrightarrow> d \<le> i \<and> bit_is_set (seen st) (i - d)" for i
  proof -
    note * = shift_bits [OF cleared(1), of "WINDOW_BITS - d" d "seen st"]
    show "length shifted = WINDOW_BYTES" using * cleared(1) by (auto simp: shifted_def)
    show "bit_is_set shifted i \<longleftrightarrow> d \<le> i \<and> bit_is_set (seen st) (i - d)" if "i < WINDOW_BITS"
      using * cleared(2) [OF that] that by (auto simp: shifted_def)
  qed
  show "window_ok (record_sequence st s)" "greatest_seen (record_sequence st s) = s"
    by (simp_all add: eq window_ok_def shifted(1))
  show "i < WINDOW_BITS \<Longrightarrow> bit_is_set (seen (record_sequence st s)) i \<longleftrightarrow>
      i = 0 \<or> (unat s - unat (greatest_seen st) \<le> i \<and> bit_is_set (seen st) (i - (unat s - unat (greatest_seen st))))"
    using shifted bit_set_window_bit [of 0 shifted i]
    by (simp add: eq d_def WINDOW_BYTES_def WINDOW_BITS_def)
qed

lemma record_older:
  assumes ok: "window_ok st" and older: "unat s \<le> unat (greatest_seen st)" "unat (greatest_seen st) - unat s < WINDOW_BITS"
  shows "window_ok (record_sequence st s)" "greatest_seen (record_sequence st s) = greatest_seen st"
    and "bit_is_set (seen (record_sequence st s)) i \<longleftrightarrow>
      i = unat (greatest_seen st) - unat s \<or> bit_is_set (seen st) i"
proof -
  have d: "unat (greatest_seen st - s) = unat (greatest_seen st) - unat s"
    using older(1) by (simp add: unat_sub word_le_nat_alt)
  have eq: "record_sequence st s = st\<lparr>seen := set_window_bit (seen st) (unat (greatest_seen st) - unat s)\<rparr>"
    using older(1) by (simp add: record_sequence_def word_less_nat_alt d)
  show "window_ok (record_sequence st s)" "greatest_seen (record_sequence st s) = greatest_seen st"
    using ok by (simp_all add: eq window_ok_def)
  show "bit_is_set (seen (record_sequence st s)) i \<longleftrightarrow>
      i = unat (greatest_seen st) - unat s \<or> bit_is_set (seen st) i"
    using ok older(2) bit_set_window_bit [of "unat (greatest_seen st) - unat s" "seen st" i]
    by (simp add: eq window_ok_def WINDOW_BYTES_def WINDOW_BITS_def)
qed

lemma record_exact:
  assumes ok: "window_ok st" and fresh: "\<not> is_seen_or_stale st s"
  shows "window_ok (record_sequence st s)"
    and "is_seen_or_stale (record_sequence st s) t \<longleftrightarrow>
      t = s \<or> is_seen_or_stale st t \<or> WINDOW_BITS + unat t \<le> unat s"
proof -
  have eqs: "t = s \<longleftrightarrow> unat t = unat s" by (simp add: word_unat_eq_iff)
  consider (newer) "unat (greatest_seen st) < unat s"
    | (older) "unat s \<le> unat (greatest_seen st)" "unat (greatest_seen st) - unat s < WINDOW_BITS"
    using fresh unfolding is_seen_or_stale_nat by linarith
  then have "window_ok (record_sequence st s) \<and> (is_seen_or_stale (record_sequence st s) t \<longleftrightarrow>
      t = s \<or> is_seen_or_stale st t \<or> WINDOW_BITS + unat t \<le> unat s)"
  proof cases
    case newer
    note r = record_newer [OF ok newer]
    show ?thesis
    proof (cases "unat t \<le> unat s \<and> unat s - unat t < WINDOW_BITS")
      case True
      have "unat s - unat t - (unat s - unat (greatest_seen st)) = unat (greatest_seen st) - unat t"
        using newer by linarith
      with True r(1,2) r(3) [of "unat s - unat t"] newer show ?thesis
        by (auto simp: is_seen_or_stale_nat eqs)
    next
      case False
      then show ?thesis using r(1,2) newer by (auto simp: is_seen_or_stale_nat eqs)
    qed
  next
    case older
    note r = record_older [OF ok older]
    show ?thesis
    proof (cases "unat t \<le> unat (greatest_seen st)")
      case True
      with older have "unat (greatest_seen st) - unat t = unat (greatest_seen st) - unat s \<longleftrightarrow> t = s"
        by (auto simp: eqs)
      moreover have "WINDOW_BITS + unat t \<le> unat s \<Longrightarrow> WINDOW_BITS \<le> unat (greatest_seen st) - unat t"
        using older by linarith
      ultimately show ?thesis
        using r(1,2) r(3) [of "unat (greatest_seen st) - unat t"] True
        by (simp add: is_seen_or_stale_nat) blast
    next
      case False
      then show ?thesis using r(1,2) older by (simp add: is_seen_or_stale_nat eqs)
    qed
  qed
  then show "window_ok (record_sequence st s)"
    "is_seen_or_stale (record_sequence st s) t \<longleftrightarrow> t = s \<or> is_seen_or_stale st t \<or> WINDOW_BITS + unat t \<le> unat s"
    by blast+
qed

section \<open>The reservation\<close>

lemma reservation_ceiling_ge: "sequence \<le> reservation_ceiling sequence"
proof -
  have "unat sequence \<le> unat (u64_saturating_add sequence b)" for b
    using unsigned_less [of sequence, where ?'a = nat] by (simp add: unat_u64_saturating_add)
  then show ?thesis by (simp add: reservation_ceiling_def Let_def word_le_nat_alt)
qed

lemma u64_of_be_bytes [simp]: "u64_of_be (be_bytes w) = w" "length (be_bytes w) = 8"
  by (simp_all add: u64_of_be_def be_bytes_def)

text \<open>A loaded window rejects everything up to its ceiling.\<close>

definition loaded_window :: "u64 \<Rightarrow> ReplayWindow" where
  "loaded_window c = \<lparr>greatest_seen = c, reserved_through = c, seen = replicate WINDOW_BYTES (- 1)\<rparr>"

lemma loaded_window_rejects: "t \<le> c \<Longrightarrow> is_seen_or_stale (loaded_window c) t"
  using bit_is_set_replicate(2) [of "unat c - unat t" WINDOW_BYTES]
  by (cases "unat c - unat t < 1024")
     (auto simp: is_seen_or_stale_nat loaded_window_def word_le_nat_alt WINDOW_BYTES_def WINDOW_BITS_def)

lemma window_ok_loaded [simp]: "window_ok (loaded_window c)"
  by (simp add: window_ok_def loaded_window_def)

lemma load_window_cases:
  "load_window H readable files d = Inr w \<Longrightarrow>
     (w = window_default \<and> (\<nexists>b. map_of files (storage_component H d) = Some (Some b)))
     \<or> (\<exists>b. map_of files (storage_component H d) = Some (Some b) \<and> length b = 8 \<and> w = loaded_window (u64_of_be b))"
  by (auto simp: load_window_def loaded_window_def FILE_BYTES_def Let_def split: option.splits if_splits)

section \<open>The invariant of a run\<close>

text \<open>
  \<open>acc\<close> is the set of sequences accepted so far for one device with a safe id. The window in memory rejects
  all of them and they lie below its reservation, which the file of the device covers.
\<close>

definition durable :: "SequenceTracker \<Rightarrow> string \<Rightarrow> u64 \<Rightarrow> bool" where
  "durable t d c \<longleftrightarrow> c = 0 \<or> (\<exists>b. map_of (devices t) d = Some (Some b) \<and> length b = 8 \<and> c \<le> u64_of_be b)"

definition covers :: "ReplayWindow \<Rightarrow> u64 set \<Rightarrow> bool" where
  "covers w acc \<longleftrightarrow> window_ok w \<and> (\<forall>s \<in> acc. s \<noteq> 0 \<and> is_seen_or_stale w s \<and> s \<le> reserved_through w)"

definition device_ok :: "u64 set \<Rightarrow> string \<Rightarrow> SequenceTracker \<Rightarrow> bool" where
  "device_ok acc d t \<longleftrightarrow>
     (case states t d of
        None \<Rightarrow> acc = {} \<and> (\<nexists>b. map_of (devices t) d = Some (Some b))
      | Some w \<Rightarrow> covers w acc \<and> durable t d (reserved_through w))"

lemma device_ok_None:
  "states t d = None \<Longrightarrow> device_ok acc d t \<longleftrightarrow> acc = {} \<and> (\<nexists>b. map_of (devices t) d = Some (Some b))"
  by (simp add: device_ok_def)

lemma device_ok_Some:
  "states t d = Some w \<Longrightarrow> device_ok acc d t \<longleftrightarrow> covers w acc \<and> durable t d (reserved_through w)"
  by (simp add: device_ok_def)

lemma covers_default [simp]: "covers window_default {}"
  by (simp add: covers_def)

lemma durable_default [simp]: "durable t d (reserved_through window_default)"
  by (simp add: durable_def window_default_def)

lemma covers_record:
  "covers w acc \<Longrightarrow> s \<noteq> 0 \<Longrightarrow> \<not> is_seen_or_stale w s \<Longrightarrow> s \<le> reserved_through w \<Longrightarrow>
     covers (record_sequence w s) (insert s acc)"
  using record_exact [of w s] by (auto simp: covers_def)

lemma covers_reserve:
  "covers w acc \<Longrightarrow> reserved_through w \<le> c \<Longrightarrow> covers (w\<lparr>reserved_through := c\<rparr>) acc"
  by (auto simp: covers_def window_ok_def is_seen_or_stale_def intro: order.trans)

lemma reserve_seen [simp]: "is_seen_or_stale (w\<lparr>reserved_through := c\<rparr>) s = is_seen_or_stale w s"
  by (simp add: is_seen_or_stale_def)

lemma covers_fresh: "covers w acc \<Longrightarrow> \<not> is_seen_or_stale w s \<Longrightarrow> s \<notin> acc"
  by (auto simp: covers_def)

lemma covers_loaded:
  "\<forall>s \<in> acc. s \<noteq> 0 \<and> s \<le> c \<Longrightarrow> covers (loaded_window c) acc"
  using loaded_window_rejects by (simp add: covers_def) (simp add: loaded_window_def)

text \<open>A request touches only its own device.\<close>

lemma device_ok_frame:
  assumes "device_ok acc d t" "states t' d = states t d" "map_of (devices t') d = map_of (devices t) d"
  shows "device_ok acc d t'"
proof -
  have "durable t' d c = durable t d c" for c using assms(3) by (simp add: durable_def)
  with assms show ?thesis by (simp add: device_ok_def split: option.splits)
qed

section \<open>Every step keeps the invariant\<close>

lemma load_devices_states:
  assumes "load_devices H readable files rest sts = Inr sts'" "d \<noteq> ''tokens''"
  shows "(d \<in> fst ` set rest \<longrightarrow> (\<exists>w. sts' d = Some w \<and> load_window H readable files d = Inr w))
    \<and> (d \<notin> fst ` set rest \<longrightarrow> sts' d = sts d)"
  using assms
proof (induction rest arbitrary: sts)
  case (Cons x rest)
  obtain e b where x: "x = (e, b)" by (cases x)
  show ?case
  proof (cases "e = ''tokens''")
    case False
    then obtain w where w: "load_window H readable files e = Inr w" "load_devices H readable files rest (sts(e \<mapsto> w)) = Inr sts'"
      using Cons.prems x by auto
    show ?thesis using Cons.IH [OF w(2) Cons.prems(2)] w(1) x by (cases "d \<in> fst ` set rest") auto
  qed (use Cons x in auto)
qed simp

lemma device_ok_file:
  assumes "device_ok acc d t"
  shows "acc = {} \<or> (\<exists>b. map_of (devices t) d = Some (Some b) \<and> (\<forall>s \<in> acc. s \<noteq> 0 \<and> s \<le> u64_of_be b))"
proof (cases "states t d")
  case (Some w)
  with assms have w: "covers w acc" "durable t d (reserved_through w)" by (simp_all add: device_ok_Some)
  then show ?thesis by (cases "reserved_through w = 0") (auto simp: covers_def durable_def intro: order.trans)
qed (use assms in \<open>simp add: device_ok_None\<close>)

lemma restart_ok:
  assumes "device_ok acc d t" "tracker_new H readable (devices t) = Inr t'" "d \<noteq> ''tokens''" "safe_component d"
  shows "device_ok acc d t'"
proof -
  from assms(2) obtain sts where sts: "load_devices H readable (devices t) (devices t) Map.empty = Inr sts"
      and t': "t' = \<lparr>devices = devices t, states = sts\<rparr>"
    by (auto simp: tracker_new_def)
  note st = load_devices_states [OF sts assms(3)]
  note fl = device_ok_file [OF assms(1)]
  show ?thesis
  proof (cases "d \<in> fst ` set (devices t)")
    case True
    then obtain w where w: "states t' d = Some w" "load_window H readable (devices t) d = Inr w" using st by (auto simp: t')
    from load_window_cases [OF w(2), unfolded storage_component_safe [OF assms(4)]] show ?thesis
    proof
      assume "w = window_default \<and> (\<nexists>b. map_of (devices t) d = Some (Some b))"
      with fl w(1) show ?thesis by (auto simp: device_ok_Some)
    next
      assume "\<exists>b. map_of (devices t) d = Some (Some b) \<and> length b = 8 \<and> w = loaded_window (u64_of_be b)"
      then obtain b where b: "map_of (devices t) d = Some (Some b)" "length b = 8" "w = loaded_window (u64_of_be b)" by blast
      then have "covers w acc" using fl by (auto intro!: covers_loaded)
      moreover have "durable t' d (reserved_through w)" using b by (auto simp: durable_def t' loaded_window_def)
      ultimately show ?thesis using w(1) by (simp add: device_ok_Some)
    qed
  next
    case False
    then have "states t' d = None" "map_of (devices t') d = None" using st by (auto simp: t' map_of_eq_None_iff)
    moreover have "acc = {}" using fl calculation(2) by (auto simp: t')
    ultimately show ?thesis by (simp add: device_ok_None)
  qed
qed

text \<open>
  Both request paths meet a window that covers the accepted set: the one in memory, or the
  default one when the device has neither a window nor a file.
\<close>

lemma fast_same:
  assumes ok: "device_ok acc d t" and step: "check_in_memory d s t = (r, t')"
  shows "device_ok (if r = Some Accepted then insert s acc else acc) d t'" and "r = Some Accepted \<Longrightarrow> s \<notin> acc"
proof -
  define w where "w = (case states t d of None \<Rightarrow> window_default | Some w \<Rightarrow> w)"
  have w: "covers w acc" "durable t d (reserved_through w)"
    using ok by (cases "states t d"; auto simp: w_def device_ok_None device_ok_Some)+
  have dur: "durable (t\<lparr>states := sts\<rparr>) d c = durable t d c" for sts c by (simp add: durable_def)
  have "r = Some Accepted \<and> s \<noteq> 0 \<and> \<not> is_seen_or_stale w s \<and> s \<le> reserved_through w
        \<and> t' = t\<lparr>states := (states t)(d \<mapsto> record_sequence w s)\<rparr>
      \<or> r \<noteq> Some Accepted \<and> t' = t\<lparr>states := (states t)(d \<mapsto> w)\<rparr>"
    using step by (simp add: check_in_memory_def w_def [symmetric] Let_def split: if_splits) auto
  then show "device_ok (if r = Some Accepted then insert s acc else acc) d t'" "r = Some Accepted \<Longrightarrow> s \<notin> acc"
    using w covers_record [of w acc s] covers_fresh [of w acc s] by (auto simp: device_ok_def dur)
qed

lemma slow_run:
  assumes "(case states t d of None \<Rightarrow> load_window H readable (devices t) d | Some w \<Rightarrow> Inr w) = Inr w"
  defines "t1 \<equiv> t\<lparr>states := (states t)(d \<mapsto> w)\<rparr>"
  shows "check_and_record H readable oc d s t =
      (if s = 0 \<or> is_seen_or_stale w s then (Inr (Replay (max (reserved_through w) (greatest_seen w))), t1)
       else if s > reserved_through w then
         (case persist H oc d (reservation_ceiling s) t1 of
            (Inl e, u) \<Rightarrow> (Inl e, u)
          | (Inr _, u) \<Rightarrow> (Inr Accepted, u\<lparr>states := (states u)(d \<mapsto>
              record_sequence (w\<lparr>reserved_through := reservation_ceiling s\<rparr>) s)\<rparr>))
       else (Inr Accepted, t1\<lparr>states := (states t1)(d \<mapsto> record_sequence w s)\<rparr>))"
proof (cases "states t d")
  case None
  then show ?thesis using assms(1) unfolding check_and_record_def t1_def by (simp add: Let_def)
next
  case (Some v)
  then have "w = v" using assms(1) by simp
  then have "t1 = t" using Some by (simp add: t1_def fun_upd_idem)
  then show ?thesis unfolding check_and_record_def \<open>w = v\<close> by (simp add: Some Let_def)
qed

lemma slow_unread:
  "states t d = None \<Longrightarrow> load_window H readable (devices t) d = Inl e \<Longrightarrow> check_and_record H readable oc d s t = (Inl e, t)"
  by (simp add: check_and_record_def)

lemma slow_window:
  assumes ok: "device_ok acc d t" and safe: "safe_component d" and step: "check_and_record H readable oc d s t = (r, t')"
  obtains "r \<noteq> Inr Accepted" "t' = t" | w where "covers w acc" "durable t d (reserved_through w)"
    "r \<noteq> Inr Accepted \<and> states t' d = Some w \<and> map_of (devices t') d = map_of (devices t) d
     \<or> r = Inr Accepted \<and> s \<noteq> 0 \<and> \<not> is_seen_or_stale w s \<and> s \<le> reserved_through w
        \<and> states t' d = Some (record_sequence w s) \<and> map_of (devices t') d = map_of (devices t) d
     \<or> s \<noteq> 0 \<and> \<not> is_seen_or_stale w s \<and> reserved_through w < s
        \<and> map_of (devices t') d = Some (Some (be_bytes (reservation_ceiling s)))
        \<and> (r \<noteq> Inr Accepted \<and> states t' d = Some w
           \<or> r = Inr Accepted
             \<and> states t' d = Some (record_sequence (w\<lparr>reserved_through := reservation_ceiling s\<rparr>) s))"
proof (cases "states t d = None \<and> \<not> readable d")
  case True
  then have "load_window H readable (devices t) d = Inl ()" using safe by (simp add: load_window_def)
  then show thesis using slow_unread [of t d H readable "()" oc s] True step that(1) by simp
next
  case False
  define w where "w = (case states t d of None \<Rightarrow> window_default | Some w \<Rightarrow> w)"
  have w: "covers w acc" "durable t d (reserved_through w)"
    using ok by (cases "states t d"; auto simp: w_def device_ok_None device_ok_Some)+
  have "load_window H readable (devices t) d = Inr window_default" if "states t d = None"
    using ok that False safe by (auto simp: device_ok_None load_window_def split: option.splits)
  then have "(case states t d of None \<Rightarrow> load_window H readable (devices t) d | Some w \<Rightarrow> Inr w) = Inr w"
    by (simp add: w_def split: option.split)
  from step [unfolded slow_run [where oc = oc and s = s, OF this]] w show thesis
    by (intro that(2) [of w])
       (auto simp: persist_def safe update_conv' Let_def not_less split: if_splits PersistOutcome.splits)
qed

lemma slow_same:
  assumes ok: "device_ok acc d t" and safe: "safe_component d" and step: "check_and_record H readable oc d s t = (r, t')"
  shows "device_ok (if r = Inr Accepted then insert s acc else acc) d t' \<and> (r = Inr Accepted \<longrightarrow> s \<notin> acc)"
  using ok safe step
proof (cases rule: slow_window)
  case 1
  then show ?thesis using ok by simp
next
  case (2 w)
  have frame: "durable t' d c = durable t d c" if "map_of (devices t') d = map_of (devices t) d" for c
    using that by (simp add: durable_def)
  have ge: "s \<le> reservation_ceiling s" by (rule reservation_ceiling_ge)
  consider (kept) "r \<noteq> Inr Accepted" "states t' d = Some w" "map_of (devices t') d = map_of (devices t) d"
    | (reserved) "r = Inr Accepted" "s \<noteq> 0" "\<not> is_seen_or_stale w s" "s \<le> reserved_through w"
        "states t' d = Some (record_sequence w s)" "map_of (devices t') d = map_of (devices t) d"
    | (failed) "r \<noteq> Inr Accepted" "reserved_through w < s" "states t' d = Some w"
        "map_of (devices t') d = Some (Some (be_bytes (reservation_ceiling s)))"
    | (granted) "r = Inr Accepted" "s \<noteq> 0" "\<not> is_seen_or_stale w s" "reserved_through w < s"
        "states t' d = Some (record_sequence (w\<lparr>reserved_through := reservation_ceiling s\<rparr>) s)"
        "map_of (devices t') d = Some (Some (be_bytes (reservation_ceiling s)))"
    using 2(3) by blast
  then show ?thesis
  proof cases
    case kept
    then show ?thesis using 2(1,2) frame by (simp add: device_ok_Some)
  next
    case reserved
    then show ?thesis
      using 2(2) frame covers_record [OF 2(1)] covers_fresh [OF 2(1)] by (simp add: device_ok_Some)
  next
    case failed
    have "reserved_through w \<le> reservation_ceiling s" using failed(2) ge by simp
    then show ?thesis using failed 2(1) by (simp add: device_ok_Some durable_def)
  next
    case granted
    have "reserved_through w \<le> reservation_ceiling s" using granted(4) ge by simp
    from covers_reserve [OF 2(1) this] granted(2,3) ge
    have "covers (record_sequence (w\<lparr>reserved_through := reservation_ceiling s\<rparr>) s) (insert s acc)"
      by (intro covers_record) simp_all
    then show ?thesis using granted covers_fresh [OF 2(1)] by (simp add: device_ok_Some durable_def)
  qed
qed

lemma fast_other:
  "e \<noteq> d \<Longrightarrow> device_ok acc e t \<Longrightarrow> device_ok acc e (snd (check_in_memory d s t))"
  by (erule device_ok_frame) (auto simp: check_in_memory_def Let_def)

lemma slow_other:
  assumes "e \<noteq> d" "device_ok acc e t" "safe_component e"
  shows "device_ok acc e (snd (check_and_record H readable oc d s t))"
proof -
  have ne: "storage_component H d \<noteq> e" using storage_component_eq [OF assms(3), of H d] assms(1) by simp
  have "states (snd (check_and_record H readable oc d s t)) e = states t e
      \<and> map_of (devices (snd (check_and_record H readable oc d s t))) e = map_of (devices t) e"
  proof (cases "states t d")
    case None
    show ?thesis
      using assms(1) ne by (cases "load_window H readable (devices t) d"; cases oc)
        (auto simp: check_and_record_def Let_def None persist_def update_conv')
  next
    case (Some w)
    show ?thesis
      using assms(1) ne by (cases oc) (auto simp: check_and_record_def Let_def Some persist_def update_conv')
  qed
  then show ?thesis using device_ok_frame [OF assms(2)] by blast
qed

lemma step_keeps:
  assumes "d \<noteq> ''tokens''" "safe_component d" "device_ok acc d t" "tracker_step H ev t = Some (out, t')"
  shows "device_ok (acc \<union> {s. (d, s) \<in> set out}) d t'"
    and "\<forall>s. (d, s) \<in> set out \<longrightarrow> s \<notin> acc" "length out \<le> 1"
proof -
  have "device_ok (acc \<union> {s. (d, s) \<in> set out}) d t' \<and> (\<forall>s. (d, s) \<in> set out \<longrightarrow> s \<notin> acc) \<and> length out \<le> 1"
  proof (cases ev)
    case (Fast e s)
    obtain r u where c: "check_in_memory e s t = (r, u)" by (cases "check_in_memory e s t")
    then have out: "out = (if r = Some Accepted then [(e, s)] else [])" "t' = u"
      using assms(4) by (auto simp: tracker_step_def Fast split: option.splits ReplayDecision.splits)
    show ?thesis
      using fast_same [of acc d t s r u] fast_other [of d e acc t s] assms(3) c out by (cases "d = e") auto
  next
    case (Slow readable oc e s)
    obtain r u where c: "check_and_record H readable oc e s t = (r, u)" by (cases "check_and_record H readable oc e s t")
    then have out: "out = (if r = Inr Accepted then [(e, s)] else [])" "t' = u"
      using assms(4) by (auto simp: tracker_step_def Slow split: sum.splits ReplayDecision.splits)
    show ?thesis
      using slow_same [of acc d t H readable oc s r u] slow_other [of d e acc t H readable oc s] assms(2,3) c out by (cases "d = e") auto
  next
    case (Restart readable)
    then have "tracker_new H readable (devices t) = Inr t'" "out = []"
      using assms(4) by (auto simp: tracker_step_def split: sum.splits)
    with restart_ok [OF assms(3) _ assms(1,2)] show ?thesis by simp
  qed
  then show "device_ok (acc \<union> {s. (d, s) \<in> set out}) d t'" "\<forall>s. (d, s) \<in> set out \<longrightarrow> s \<notin> acc" "length out \<le> 1"
    by blast+
qed

lemma run_distinct:
  assumes "d \<noteq> ''tokens''" "safe_component d" "device_ok acc d t"
  shows "distinct (filter (\<lambda>x. fst x = d) (accepted_run H evs t))
    \<and> (\<forall>s \<in> acc. (d, s) \<notin> set (accepted_run H evs t))"
  using assms(3)
proof (induction evs arbitrary: acc t)
  case (Cons ev evs)
  show ?case
  proof (cases "tracker_step H ev t")
    case (Some p)
    obtain out t' where p: "p = (out, t')" by (cases p)
    note step = step_keeps [OF assms(1,2) Cons.prems Some [unfolded p]]
    note IH = Cons.IH [OF step(1)]
    have out: "out = [] \<or> (\<exists>x. out = [x])" using step(3) by (cases out; cases "tl out") auto
    have "(d, s) \<notin> set (accepted_run H evs t')" if "(d, s) \<in> set out" for s using IH that by blast
    moreover have "x \<in> set out \<Longrightarrow> fst x = d \<Longrightarrow> x = (d, snd x)" for x by (cases x) simp
    ultimately show ?thesis using IH step(2) out by (auto simp: Some p)
  qed simp
qed simp

lemma start_ok:
  assumes "tracker_new H readable files = Inr t" "d \<noteq> ''tokens''" "safe_component d"
  shows "device_ok {} d t"
proof -
  define t0 where "t0 = \<lparr>devices = files, states = (states t)(d := (if d \<in> fst ` set files then Some window_default else None))\<rparr>"
  have "device_ok {} d t0"
    by (auto simp: t0_def device_ok_def dest: map_of_SomeD) (force dest: map_of_SomeD)+
  from restart_ok [OF this _ assms(2,3), of H readable t] assms(1) show ?thesis by (simp add: t0_def)
qed

section \<open>Reordered requests\<close>

text \<open>\<open>w\<close> rejects, among the 1024 numbers after \<open>c\<close>, exactly those of \<open>R\<close>.\<close>

definition rejects_exactly :: "ReplayWindow \<Rightarrow> u64 \<Rightarrow> u64 set \<Rightarrow> bool" where
  "rejects_exactly w c R \<longleftrightarrow> window_ok w \<and>
     (\<forall>t. unat c < unat t \<and> unat t \<le> unat c + WINDOW_BITS \<longrightarrow> is_seen_or_stale w t = (t \<in> R))"

lemma rejects_record:
  assumes "rejects_exactly w c R" "unat c < unat s" "unat s \<le> unat c + WINDOW_BITS" "s \<notin> R"
  shows "rejects_exactly (record_sequence w s) c (insert s R)"
proof -
  have w: "window_ok w" "\<not> is_seen_or_stale w s" using assms by (auto simp: rejects_exactly_def)
  have "\<not> WINDOW_BITS + unat t \<le> unat s" if "unat c < unat t" for t :: u64
    using that assms(3) by linarith
  with record_exact [OF w] assms show ?thesis by (auto simp: rejects_exactly_def)
qed

abbreviation current_window :: "(bytes \<Rightarrow> FileHash) \<Rightarrow> (string \<Rightarrow> bool) \<Rightarrow> SequenceTracker \<Rightarrow> string \<Rightarrow> unit + ReplayWindow" where
  "current_window H readable t d \<equiv> (case states t d of None \<Rightarrow> load_window H readable (devices t) d | Some w \<Rightarrow> Inr w)"

lemma slow_accepts:
  assumes "current_window H readable t d = Inr w" "rejects_exactly w c R" "unat c < unat s" "unat s \<le> unat c + WINDOW_BITS" "s \<notin> R"
  shows "\<exists>t' w'. check_and_record H readable Persisted d s t = (Inr Accepted, t') \<and> current_window H readable t' d = Inr w'
    \<and> rejects_exactly w' c (insert s R)"
proof -
  have s: "s \<noteq> 0" "\<not> is_seen_or_stale w s" using assms by (auto simp: rejects_exactly_def)
  have reserve: "rejects_exactly (w\<lparr>reserved_through := r\<rparr>) c R" for r
    using assms(2) by (simp add: rejects_exactly_def window_ok_def)
  show ?thesis
  proof (cases "s > reserved_through w")
    case True
    with s show ?thesis using rejects_record [OF reserve assms(3-5)]
      by (simp add: slow_run [OF assms(1)] persist_def Let_def)
  next
    case False
    with s show ?thesis using rejects_record [OF assms(2-5)]
      by (simp add: slow_run [OF assms(1)])
  qed
qed

lemma slow_run_accepts:
  assumes "current_window H readable t d = Inr w" "rejects_exactly w c R" "distinct xs"
    "\<forall>x \<in> set xs. unat c < unat x \<and> unat x \<le> unat c + WINDOW_BITS \<and> x \<notin> R"
  shows "accepted_run H (map (Slow readable Persisted d) xs) t = map (Pair d) xs"
  using assms
proof (induction xs arbitrary: t w R)
  case (Cons x xs)
  obtain t' w' where step: "check_and_record H readable Persisted d x t = (Inr Accepted, t')" "current_window H readable t' d = Inr w'"
      "rejects_exactly w' c (insert x R)"
    using slow_accepts [OF Cons.prems(1,2), of x] Cons.prems(4) by auto
  have "accepted_run H (map (Slow readable Persisted d) xs) t' = map (Pair d) xs"
    using Cons.prems(3,4) by (intro Cons.IH [OF step(2,3)]) auto
  with step(1) show ?case by (simp add: tracker_step_def)
qed simp

text \<open>A window in memory after a start is the one of the device's file.\<close>

lemma load_devices_file:
  "load_devices H readable files rest sts = Inr sts' \<Longrightarrow> \<forall>d w. sts d = Some w \<longrightarrow> load_window H readable files d = Inr w \<Longrightarrow>
   sts' d = Some w \<Longrightarrow> load_window H readable files d = Inr w"
proof (induction rest arbitrary: sts)
  case (Cons x rest)
  then show ?case by (cases x) (auto split: if_splits)
qed simp

section \<open>Properties\<close>

text \<open>(C29) No replay: in every run of a started tracker, with requests of any device on either path in
  any order, failing or succeeding disk reads and writes and restarts, no sequence number of a device
  is accepted twice. The id of the device is safe, so that it is the name of its directory, and it is
  not \<open>tokens\<close>, the directory a start passes over; the ids of the other devices are arbitrary.\<close>

theorem no_sequence_accepted_twice:
  assumes "tracker_new H readable files = Inr t" "safe_component d" "d \<noteq> ''tokens''"
  shows "distinct (filter (\<lambda>x. fst x = d) (accepted_run H evs t))"
  using run_distinct [OF assms(3,2) start_ok [OF assms(1,3,2)]] by blast

theorem no_sequence_accepted_twice_witness:
  "let H = (\<lambda>b. ZERO_HASH); ok = (\<lambda>_. True) in
   tracker_new H ok [] = Inr \<lparr>devices = [], states = Map.empty\<rparr>
   \<and> distinct (filter (\<lambda>x. fst x = ''d'')
        (accepted_run H [Slow ok Persisted ''d'' 5, Fast ''d'' 5, Fast ''d'' 9, Slow ok Persisted ''a/b'' 5, Restart ok,
            Slow ok FailedAfter ''d'' 9000, Slow ok Persisted ''d'' 9]
          \<lparr>devices = [], states = Map.empty\<rparr>))"
proof -
  let ?H = "\<lambda>b :: bytes. ZERO_HASH" and ?ok = "\<lambda>_ :: string. True"
  have start: "tracker_new ?H ?ok [] = Inr \<lparr>devices = [], states = Map.empty\<rparr>" by (simp add: tracker_new_def)
  have "safe_component ''d''" by (simp add: safe_component_def safe_char_def)
  from no_sequence_accepted_twice [OF start this, of "[Slow ?ok Persisted ''d'' 5, Fast ''d'' 5, Fast ''d'' 9,
      Slow ?ok Persisted ''a/b'' 5, Restart ?ok, Slow ?ok FailedAfter ''d'' 9000, Slow ?ok Persisted ''d'' 9]"] start
  show ?thesis unfolding Let_def by simp
qed

text \<open>(C30) The safety of the id is needed. Whenever a device id is not the name of its directory, a number that was
  accepted, with its reservation safely on disk, is accepted again after a restart: the start files
  the window under the name of the directory, the fast path then makes an empty window for the id,
  and the slow path trusts that window.\<close>

theorem encoded_device_replayed:
  assumes "storage_component H d \<noteq> d" "s \<noteq> 0" "\<And>dir. readable dir"
  shows "accepted_run H [Slow readable Persisted d s, Restart readable, Fast d s, Slow readable Persisted d s]
    \<lparr>devices = [], states = Map.empty\<rparr> = [(d, s), (d, s)]"
proof -
  let ?dir = "storage_component H d" and ?b = "be_bytes (reservation_ceiling s)"
  let ?t0 = "\<lparr>devices = [], states = Map.empty\<rparr>"
  have fresh: "\<not> is_seen_or_stale window_default s" "reserved_through window_default < s"
    using assms(2) by (simp_all add: is_seen_or_stale_def window_default_def word_neq_0_conv)
  have first: "current_window H readable ?t0 d = Inr window_default" by (simp add: load_window_def assms(3))
  obtain t1 where t1: "check_and_record H readable Persisted d s ?t0 = (Inr Accepted, t1)" "devices t1 = [(?dir, Some ?b)]"
    using fresh assms(2) by (simp add: slow_run [OF first] persist_def Let_def)
  have "?dir \<noteq> ''tokens''" using assms(1) storage_component_not_tokens by metis
  moreover obtain w where "load_window H readable [(?dir, Some ?b)] ?dir = Inr w"
    by (cases "storage_component H ?dir = ?dir") (auto simp: load_window_def assms(3) FILE_BYTES_def Let_def)
  ultimately have restart: "tracker_new H readable (devices t1) = Inr \<lparr>devices = devices t1, states = [?dir \<mapsto> w]\<rparr>" (is "_ = Inr ?t2")
    by (simp add: tracker_new_def t1(2))
  let ?t3 = "?t2\<lparr>states := (states ?t2)(d \<mapsto> window_default)\<rparr>"
  have fast: "check_in_memory d s ?t2 = (None, ?t3)"
    using fresh assms(1,2) by (simp add: check_in_memory_def Let_def)
  have "current_window H readable ?t3 d = Inr window_default" by simp
  from slow_run [where oc = Persisted and s = s, OF this] fresh assms(2)
  obtain t4 where "check_and_record H readable Persisted d s ?t3 = (Inr Accepted, t4)" by (auto simp: persist_def Let_def)
  then show ?thesis using t1(1) restart fast by (simp add: tracker_step_def)
qed

theorem encoded_device_replayed_witness:
  "accepted_run (\<lambda>b. ZERO_HASH) [Slow (\<lambda>_. True) Persisted ''a/b'' 7, Restart (\<lambda>_. True), Fast ''a/b'' 7, Slow (\<lambda>_. True) Persisted ''a/b'' 7]
    \<lparr>devices = [], states = Map.empty\<rparr> = [(''a/b'', 7), (''a/b'', 7)]"
  by (rule encoded_device_replayed) (simp_all add: storage_component_def safe_component_def safe_char_def)

text \<open>(C31) Pipelined uploads survive reordering: after a start, any 1024 numbers above the device's
  durable ceiling are all accepted, whatever the order in which they arrive. This holds for every
  device id, safe or not.\<close>

theorem reordered_requests_accepted:
  assumes "tracker_new H readable files = Inr t" "readable (storage_component H d)"
    "map_of files (storage_component H d) = Some (Some (be_bytes c))" "distinct xs"
    "\<forall>x \<in> set xs. unat c < unat x \<and> unat x \<le> unat c + WINDOW_BITS"
  shows "accepted_run H (map (Slow readable Persisted d) xs) t = map (Pair d) xs"
proof -
  from assms(1) obtain sts where sts: "load_devices H readable files files Map.empty = Inr sts" "t = \<lparr>devices = files, states = sts\<rparr>"
    by (auto simp: tracker_new_def)
  have load: "load_window H readable files d = Inr (loaded_window c)"
    using assms(2,3) by (simp add: load_window_def loaded_window_def FILE_BYTES_def)
  have "current_window H readable t d = Inr (loaded_window c)"
    using load_devices_file [OF sts(1), of d] load by (simp add: sts(2) split: option.split)
  moreover have "\<not> is_seen_or_stale (loaded_window c) x" if "unat c < unat x" for x
    using that by (simp add: is_seen_or_stale_nat loaded_window_def)
  then have "rejects_exactly (loaded_window c) c {}" by (simp add: rejects_exactly_def)
  ultimately show ?thesis using slow_run_accepts [of H readable t d "loaded_window c" c "{}" xs] assms(4,5) by simp
qed

theorem reordered_requests_accepted_witness:
  "\<exists>t. tracker_new (\<lambda>b. ZERO_HASH) (\<lambda>_. True) [(''d'', Some (be_bytes 4096))] = Inr t
    \<and> accepted_run (\<lambda>b. ZERO_HASH) (map (Slow (\<lambda>_. True) Persisted ''d'') [5120, 4097, 5000]) t = [(''d'', 5120), (''d'', 4097), (''d'', 5000)]"
proof -
  have safe: "safe_component ''d''" by (simp add: safe_component_def safe_char_def)
  obtain t where t: "tracker_new (\<lambda>b. ZERO_HASH) (\<lambda>_. True) [(''d'', Some (be_bytes 4096))] = Inr t"
    by (simp add: tracker_new_def load_window_def FILE_BYTES_def safe)
  with reordered_requests_accepted [OF t, of "''d''" 4096 "[5120, 4097, 5000]"] safe show ?thesis
    by (simp add: WINDOW_BITS_def)
qed

text \<open>(C32) Recording a fresh number makes the window reject that number, everything it already rejected
  and what falls out of the 1024-number window, and nothing else.\<close>

theorem record_rejects_exactly:
  assumes "length (seen st) = WINDOW_BYTES" "\<not> is_seen_or_stale st s"
  shows "is_seen_or_stale (record_sequence st s) t \<longleftrightarrow>
    t = s \<or> is_seen_or_stale st t \<or> WINDOW_BITS + unat t \<le> unat s"
  using record_exact(2) assms by (simp add: window_ok_def)

theorem record_rejects_exactly_witness:
  "is_seen_or_stale (record_sequence window_default 2000) 900 \<and> \<not> is_seen_or_stale (record_sequence window_default 2000) 1500"
proof -
  have "length (seen window_default) = WINDOW_BYTES" "\<not> is_seen_or_stale window_default 2000"
    by (simp_all add: window_default_def is_seen_or_stale_def)
  note * = record_rejects_exactly [OF this]
  show ?thesis unfolding * by (simp add: window_default_def is_seen_or_stale_def WINDOW_BITS_def)
qed

end
