(* ===== verification/Chunk_Store.thy ===== *)
theory Chunk_Store
  imports Entries "HOL-Library.AList"
begin

text \<open>
  \<open>crates/sync-core/src/store.rs\<close>: the content-addressed stores of index nodes. The trait
  \<open>ChunkStore\<close> is the record \<open>store_ops\<close> of its operations over a store state; computations
  that use a store are functions from a store to a result and the store they leave, so that an
  error in the middle keeps what was already written. \<open>MemoryChunkStore\<close> is modelled with its
  counters and candidate generations. The locale \<open>content_store\<close> is what the trees rely on; it
  is interpreted on the memory store. \<open>DiskChunkStore\<close>, which keeps each chunk in a file, is not modelled.

  The hash function is the parameter \<open>H\<close>. Error messages are the literals of the source
  without their formatted arguments.
\<close>

section \<open>Computations over a store\<close>

type_synonym ('s, 'a) store_io = "'s \<Rightarrow> (ChunkError + 'a) \<times> 's"

definition io_return :: "'a \<Rightarrow> ('s, 'a) store_io" where
  "io_return a s = (Inr a, s)"

definition io_fail :: "ChunkError \<Rightarrow> ('s, 'a) store_io" where
  "io_fail e s = (Inl e, s)"

definition io_bind :: "('s, 'a) store_io \<Rightarrow> ('a \<Rightarrow> ('s, 'b) store_io) \<Rightarrow> ('s, 'b) store_io" where
  "io_bind m f s = (case m s of (Inl e, s') \<Rightarrow> (Inl e, s') | (Inr a, s') \<Rightarrow> f a s')"

definition io_lift :: "ChunkError + 'a \<Rightarrow> ('s, 'a) store_io" where
  "io_lift r s = (r, s)"

lemma io_simps [simp]:
  "io_return a s = (Inr a, s)" "io_fail e s = (Inl e, s)" "io_lift r s = (r, s)"
  by (simp_all add: io_return_def io_fail_def io_lift_def)

lemma io_bind_cong [fundef_cong]:
  "m s = m' s' \<Longrightarrow> (\<And>a t. m' s' = (Inr a, t) \<Longrightarrow> f a t = g a t) \<Longrightarrow> io_bind m f s = io_bind m' g s'"
  by (auto simp: io_bind_def split: prod.splits sum.splits)

lemma io_bind_Inr [simp]:
  "io_bind m f s = (Inr b, t) \<longleftrightarrow> (\<exists>a u. m s = (Inr a, u) \<and> f a u = (Inr b, t))"
  by (auto simp: io_bind_def split: prod.splits sum.splits)

lemma io_bind_run: "m s = (Inr a, u) \<Longrightarrow> io_bind m f s = f a u"
  by (simp add: io_bind_def)

lemma io_bind_err: "m s = (Inl e, u) \<Longrightarrow> io_bind m f s = (Inl e, u)"
  by (simp add: io_bind_def)

text \<open>A loop that runs a computation on every element and collects the results.\<close>

fun io_map :: "('a \<Rightarrow> ('s, 'b) store_io) \<Rightarrow> 'a list \<Rightarrow> ('s, 'b list) store_io" where
  "io_map f [] = io_return []"
| "io_map f (x # xs) = io_bind (f x) (\<lambda>y. io_bind (io_map f xs) (\<lambda>ys. io_return (y # ys)))"

section \<open>The trait\<close>

record 's store_ops =
  has_op :: "FileHash \<Rightarrow> 's \<Rightarrow> bool"
  get_op :: "FileHash \<Rightarrow> 's \<Rightarrow> ChunkError + bytes"
  put_op :: "FileHash \<Rightarrow> bytes \<Rightarrow> ('s, unit) store_io"
  delete_op :: "FileHash \<Rightarrow> ('s, unit) store_io"

definition store_get :: "'s store_ops \<Rightarrow> FileHash \<Rightarrow> ('s, bytes) store_io" where
  "store_get ops h s = (get_op ops h s, s)"

text \<open>A recorder of the blobs a computation puts, in order; its puts never fail.\<close>

definition recorder_ops :: "bytes list store_ops" where
  "recorder_ops = \<lparr>has_op = \<lambda>h log. False, get_op = \<lambda>h log. Inl (NotFound h),
     put_op = \<lambda>h b log. (Inr (), log @ [b]), delete_op = \<lambda>h log. (Inr (), log)\<rparr>"

section \<open>MemoryChunkStore\<close>

record BufferMemory =
  payload_bytes :: u64
  buffer_capacity_bytes :: u64
  counters_valid :: bool

definition buffer_memory_default :: BufferMemory where
  "buffer_memory_default = \<lparr>payload_bytes = 0, buffer_capacity_bytes = 0, counters_valid = True\<rparr>"

text \<open>A buffer is its bytes with the capacity of the allocation that holds them.\<close>

record StoredChunk =
  chunk_bytes :: bytes
  chunk_capacity :: nat
  birth_generation :: u64

text \<open>The hash map is an association list with distinct keys, in its iteration order.\<close>

record MemoryChunkState =
  ms_map :: "(FileHash \<times> StoredChunk) list"
  ms_memory :: BufferMemory
  insertion_generation :: u64
  active_baseline :: "u64 option"

definition memory_default :: MemoryChunkState where
  "memory_default =
     \<lparr>ms_map = [], ms_memory = buffer_memory_default, insertion_generation = 0, active_baseline = None\<rparr>"

text \<open>\<open>add_count\<close> and \<open>subtract_count\<close> on a counter and the validity flag.\<close>

definition add_count :: "u64 \<Rightarrow> nat \<Rightarrow> bool \<Rightarrow> u64 \<times> bool" where
  "add_count value amount valid =
     (if amount < 2 ^ 64 \<and> unat value + amount < 2 ^ 64 then (value + of_nat amount, valid)
      else (- 1, False))"

definition subtract_count :: "u64 \<Rightarrow> nat \<Rightarrow> bool \<Rightarrow> u64 \<times> bool" where
  "subtract_count value amount valid =
     (if amount < 2 ^ 64 \<and> amount \<le> unat value then (value - of_nat amount, valid)
      else (0, False))"

definition memory_add :: "nat \<Rightarrow> nat \<Rightarrow> BufferMemory \<Rightarrow> BufferMemory" where
  "memory_add len capacity m =
     (let (p, v) = add_count (payload_bytes m) len (counters_valid m);
          (c, v) = add_count (buffer_capacity_bytes m) capacity v
      in \<lparr>payload_bytes = p, buffer_capacity_bytes = c, counters_valid = v\<rparr>)"

definition memory_remove :: "StoredChunk \<Rightarrow> BufferMemory \<Rightarrow> BufferMemory" where
  "memory_remove chunk m =
     (let (p, v) = subtract_count (payload_bytes m) (length (chunk_bytes chunk)) (counters_valid m);
          (c, v) = subtract_count (buffer_capacity_bytes m) (chunk_capacity chunk) v
      in \<lparr>payload_bytes = p, buffer_capacity_bytes = c, counters_valid = v\<rparr>)"

definition candidate_baseline_preflight :: "MemoryChunkState \<Rightarrow> ChunkError + u64" where
  "candidate_baseline_preflight s =
     (if active_baseline s \<noteq> None then invalid ''candidate baseline already pinned''
      else (case u64_checked_add (insertion_generation s) 1 of
          None \<Rightarrow> invalid ''candidate baseline generation exhausted''
        | Some _ \<Rightarrow> Inr (insertion_generation s)))"

definition open_candidate_baseline :: "u64 \<Rightarrow> (MemoryChunkState, unit) store_io" where
  "open_candidate_baseline expected s =
     (if active_baseline s \<noteq> None \<or> insertion_generation s \<noteq> expected
      then (invalid ''candidate baseline generation changed'', s)
      else (case u64_checked_add expected 1 of
          None \<Rightarrow> (invalid ''candidate baseline generation exhausted'', s)
        | Some next \<Rightarrow> (Inr (), s\<lparr>active_baseline := Some expected, insertion_generation := next\<rparr>)))"

definition close_candidate_baseline :: "u64 \<Rightarrow> (MemoryChunkState, unit) store_io" where
  "close_candidate_baseline expected s =
     (if active_baseline s \<noteq> Some expected then (invalid ''candidate baseline pin mismatch'', s)
      else (Inr (), s\<lparr>active_baseline := None\<rparr>))"

definition is_fresh_since :: "FileHash \<Rightarrow> u64 \<Rightarrow> MemoryChunkState \<Rightarrow> ChunkError + bool" where
  "is_fresh_since hash baseline s =
     (if active_baseline s \<noteq> Some baseline then invalid ''candidate baseline is not pinned''
      else (case map_of (ms_map s) hash of
          None \<Rightarrow> Inl (NotFound hash)
        | Some chunk \<Rightarrow> Inr (birth_generation chunk > baseline)))"

definition insert_chunk :: "FileHash \<Rightarrow> bytes \<Rightarrow> nat \<Rightarrow> MemoryChunkState \<Rightarrow> MemoryChunkState" where
  "insert_chunk hash bytes capacity s =
     (let previous = map_of (ms_map s) hash;
          birth = (case previous of None \<Rightarrow> insertion_generation s | Some chunk \<Rightarrow> birth_generation chunk);
          chunk = \<lparr>chunk_bytes = bytes, chunk_capacity = capacity, birth_generation = birth\<rparr>;
          memory = (case previous of None \<Rightarrow> ms_memory s | Some p \<Rightarrow> memory_remove p (ms_memory s))
      in s\<lparr>ms_map := AList.update hash chunk (ms_map s),
           ms_memory := memory_add (length bytes) capacity memory\<rparr>)"

definition get_chunk :: "FileHash \<Rightarrow> MemoryChunkState \<Rightarrow> bytes option" where
  "get_chunk hash s = map_option chunk_bytes (map_of (ms_map s) hash)"

definition chunk_byte_length :: "FileHash \<Rightarrow> MemoryChunkState \<Rightarrow> nat option" where
  "chunk_byte_length hash s = map_option (\<lambda>c. length (chunk_bytes c)) (map_of (ms_map s) hash)"

definition resident_chunk_matches :: "FileHash \<Rightarrow> bytes \<Rightarrow> MemoryChunkState \<Rightarrow> bool option" where
  "resident_chunk_matches hash bytes s = map_option (\<lambda>c. chunk_bytes c = bytes) (map_of (ms_map s) hash)"

definition MAX_CHUNK_EXPORT_PART_BYTES :: nat where "MAX_CHUNK_EXPORT_PART_BYTES = 64 * 1024"

text \<open>Lengths fit a \<open>usize\<close>, so the overflow arm of \<open>offset + count\<close> is unreachable.\<close>

definition copy_chunk_range :: "FileHash \<Rightarrow> nat \<Rightarrow> nat \<Rightarrow> nat \<Rightarrow> MemoryChunkState \<Rightarrow> ChunkError + bytes" where
  "copy_chunk_range hash captured_length offset max_bytes s =
     (if max_bytes = 0 \<or> max_bytes > MAX_CHUNK_EXPORT_PART_BYTES then invalid ''invalid chunk export part budget''
      else if captured_length < offset then invalid ''chunk export offset exceeds captured length''
      else (let count = min (captured_length - offset) max_bytes in
        case map_of (ms_map s) hash of
          None \<Rightarrow> invalid ''chunk export source is missing''
        | Some chunk \<Rightarrow>
            if length (chunk_bytes chunk) \<noteq> captured_length then invalid ''chunk export source length changed''
            else Inr (take count (drop offset (chunk_bytes chunk)))))"

definition all_chunks :: "MemoryChunkState \<Rightarrow> (FileHash \<times> bytes) list" where
  "all_chunks s = map (\<lambda>(h, c). (h, chunk_bytes c)) (ms_map s)"

text \<open>
  A job-local overlay \<open>staged\<close> is an association list with distinct keys of buffers (bytes and
  capacity). \<open>try_reserve\<close> is assumed to succeed; its failure leaves the store unchanged too.
\<close>

type_synonym staged = "(FileHash \<times> bytes \<times> nat) list"

definition staged_verified :: "(bytes \<Rightarrow> FileHash) \<Rightarrow> staged \<Rightarrow> bool" where
  "staged_verified H st = list_all (\<lambda>(h, b, c). H b = h) st"

definition fresh_chunk :: "MemoryChunkState \<Rightarrow> bytes \<Rightarrow> nat \<Rightarrow> StoredChunk" where
  "fresh_chunk s bytes capacity =
     \<lparr>chunk_bytes = bytes, chunk_capacity = capacity, birth_generation = insertion_generation s\<rparr>"

definition insert_vacant :: "FileHash \<times> bytes \<times> nat \<Rightarrow> MemoryChunkState \<Rightarrow> MemoryChunkState" where
  "insert_vacant x s =
     (case x of (hash, bytes, capacity) \<Rightarrow>
        if map_of (ms_map s) hash = None
        then s\<lparr>ms_map := AList.update hash (fresh_chunk s bytes capacity) (ms_map s),
               ms_memory := memory_add (length bytes) capacity (ms_memory s)\<rparr>
        else s)"

definition promote_verified_chunks :: "(bytes \<Rightarrow> FileHash) \<Rightarrow> staged \<Rightarrow> (MemoryChunkState, unit) store_io" where
  "promote_verified_chunks H st s =
     (if \<not> staged_verified H st then (invalid ''refusing staged index bytes that do not match'', s)
      else if list_ex (\<lambda>(h, b, c). case map_of (ms_map s) h of None \<Rightarrow> False | Some x \<Rightarrow> chunk_bytes x \<noteq> b) st
      then (invalid ''resident index object has conflicting bytes'', s)
      else (Inr (), fold insert_vacant st s))"

definition prepare_candidate_chunk_promotion :: "(bytes \<Rightarrow> FileHash) \<Rightarrow> staged \<Rightarrow> MemoryChunkState \<Rightarrow> ChunkError + unit" where
  "prepare_candidate_chunk_promotion H st s =
     (if \<not> staged_verified H st then invalid ''refusing staged candidate bytes that do not match''
      else if list_ex (\<lambda>(h, b, c). map_of (ms_map s) h \<noteq> None) st
      then invalid ''resident candidate object appeared after staging''
      else Inr ())"

definition promote_prepared_candidate_chunks :: "staged \<Rightarrow> MemoryChunkState \<Rightarrow> MemoryChunkState" where
  "promote_prepared_candidate_chunks st s = fold (\<lambda>(h, b, c). insert_chunk h b c) st s"

text \<open>\<open>retain_chunks\<close> panics on a pinned baseline (\<open>None\<close>).\<close>

definition retain_step :: "FileHash list \<Rightarrow> FileHash \<times> StoredChunk \<Rightarrow> u64 \<times> BufferMemory \<Rightarrow> u64 \<times> BufferMemory" where
  "retain_step reachable x acc =
     (case (x, acc) of ((hash, chunk), (bytes_removed, memory)) \<Rightarrow>
        if hash \<in> set reachable then acc
        else (u64_saturating_add bytes_removed (of_nat (length (chunk_bytes chunk))), memory_remove chunk memory))"

definition retain_chunks :: "FileHash list \<Rightarrow> MemoryChunkState \<Rightarrow> ((nat \<times> nat \<times> u64) \<times> MemoryChunkState) option" where
  "retain_chunks reachable s =
     (if active_baseline s \<noteq> None then None
      else (let before = length (ms_map s);
                (bytes_removed, memory) = fold (retain_step reachable) (ms_map s) (0, ms_memory s);
                kept = filter (\<lambda>(h, c). h \<in> set reachable) (ms_map s)
        in Some ((before, length kept, bytes_removed), s\<lparr>ms_map := kept, ms_memory := memory\<rparr>)))"

text \<open>The trait implementation; \<open>alloc\<close> is the capacity of the buffer a caller moves in.\<close>

definition memory_get :: "FileHash \<Rightarrow> MemoryChunkState \<Rightarrow> ChunkError + bytes" where
  "memory_get hash s =
     (case map_of (ms_map s) hash of None \<Rightarrow> Inl (NotFound hash) | Some c \<Rightarrow> Inr (chunk_bytes c))"

definition memory_put :: "(bytes \<Rightarrow> nat) \<Rightarrow> FileHash \<Rightarrow> bytes \<Rightarrow> (MemoryChunkState, unit) store_io" where
  "memory_put alloc hash data s = (Inr (), insert_chunk hash data (alloc data) s)"

definition memory_delete :: "FileHash \<Rightarrow> (MemoryChunkState, unit) store_io" where
  "memory_delete hash s =
     (if active_baseline s \<noteq> None then (invalid ''cannot delete with a pinned candidate baseline'', s)
      else (Inr (),
        (case map_of (ms_map s) hash of
           None \<Rightarrow> s
         | Some chunk \<Rightarrow> s\<lparr>ms_map := AList.delete hash (ms_map s), ms_memory := memory_remove chunk (ms_memory s)\<rparr>)))"

definition memory_ops :: "(bytes \<Rightarrow> nat) \<Rightarrow> MemoryChunkState store_ops" where
  "memory_ops alloc =
     \<lparr>has_op = (\<lambda>h s. map_of (ms_map s) h \<noteq> None), get_op = memory_get,
      put_op = memory_put alloc, delete_op = memory_delete\<rparr>"

section \<open>The contract of a store\<close>

text \<open>
  What the trees rely on: a put that reports success makes the bytes readable under their hash
  and leaves every other key as it was; a put that fails loses nothing. \<open>ok\<close> is the invariant
  of the store.
\<close>

locale content_store =
  fixes ops :: "'s store_ops" and H :: "bytes \<Rightarrow> FileHash" and ok :: "'s \<Rightarrow> bool"
  assumes put_ok: "ok s \<Longrightarrow> put_op ops (H b) b s = (r, s') \<Longrightarrow> ok s'"
    and put_get: "ok s \<Longrightarrow> put_op ops (H b) b s = (Inr u, s') \<Longrightarrow> get_op ops (H b) s' = Inr b"
    and put_other: "ok s \<Longrightarrow> put_op ops (H b) b s = (Inr u, s') \<Longrightarrow> h \<noteq> H b \<Longrightarrow> get_op ops h s' = get_op ops h s"
    and put_fail: "ok s \<Longrightarrow> put_op ops (H b) b s = (Inl e, s') \<Longrightarrow>
      get_op ops h s' = get_op ops h s \<or> h = H b \<and> get_op ops h s' = Inr b"
    and content_addressed: "ok s \<Longrightarrow> get_op ops h s = Inr b \<Longrightarrow> H b = h"
begin

definition resident :: "'s \<Rightarrow> bytes set" where
  "resident s = {b. \<exists>h. get_op ops h s = Inr b}"

definition keeps :: "'s \<Rightarrow> 's \<Rightarrow> bool" where
  "keeps s s' \<longleftrightarrow> (\<forall>h b. get_op ops h s = Inr b \<longrightarrow> get_op ops h s' = Inr b)"

lemma keeps_refl: "keeps s s"
  by (simp add: keeps_def)

lemma keeps_trans: "keeps s t \<Longrightarrow> keeps t u \<Longrightarrow> keeps s u"
  by (simp add: keeps_def)

text \<open>Without a hash collision among the resident blobs and the new one a put only adds.\<close>

lemma put_effect:
  assumes "ok s" "put_op ops (H b) b s = (r, s')"
  shows "get_op ops h s' = get_op ops h s \<or> h = H b \<and> get_op ops h s' = Inr b"
  using assms put_get put_other put_fail by (cases r; cases "h = H b") blast+

lemma put_keeps:
  assumes "ok s" "put_op ops (H b) b s = (r, s')" "inj_on H (insert b (resident s))"
  shows "keeps s s'"
  unfolding keeps_def
proof (intro allI impI)
  fix h c assume c: "get_op ops h s = Inr c"
  show "get_op ops h s' = Inr c"
  proof (cases "h = H b")
    case True
    have "c \<in> resident s" using c by (auto simp: resident_def)
    moreover have "H c = H b" using content_addressed [OF assms(1) c] True by simp
    ultimately have "c = b" using inj_onD [OF assms(3)] by blast
    with put_effect [OF assms(1,2), of h] c show ?thesis by auto
  next
    case False
    with put_effect [OF assms(1,2), of h] c show ?thesis by auto
  qed
qed

lemma put_resident:
  assumes "ok s" "put_op ops (H b) b s = (r, s')"
  shows "resident s' \<subseteq> insert b (resident s)"
proof
  fix c assume "c \<in> resident s'"
  then obtain h where "get_op ops h s' = Inr c" by (auto simp: resident_def)
  then show "c \<in> insert b (resident s)"
    using put_effect [OF assms, of h] unfolding resident_def by auto
qed

text \<open>
  \<open>writes m n\<close>: the computation \<open>m\<close> only puts blobs. The same computation \<open>n\<close> on the recorder says which
  blobs; every blob \<open>m\<close> leaves was there or is one of them, and if no two of these blobs share a hash,
  nothing that was there is lost, even when \<open>m\<close> fails, and all of them are there when it succeeds.
\<close>

definition effect :: "'s \<Rightarrow> ChunkError + 'a \<Rightarrow> 's \<Rightarrow> ChunkError + 'a \<Rightarrow> bytes list \<Rightarrow> bool" where
  "effect s r s' q bs \<longleftrightarrow> (\<forall>a. r = Inr a \<longrightarrow> q = Inr a) \<and> ok s' \<and> resident s' \<subseteq> resident s \<union> set bs
     \<and> (inj_on H (resident s \<union> set bs) \<longrightarrow>
          keeps s s' \<and> ((\<exists>a. r = Inr a) \<longrightarrow> (\<forall>b \<in> set bs. get_op ops (H b) s' = Inr b)))"

definition writes :: "('s, 'a) store_io \<Rightarrow> (bytes list, 'a) store_io \<Rightarrow> bool" where
  "writes m n \<longleftrightarrow>
     (\<forall>log. \<exists>q bs. n log = (q, log @ bs)) \<and>
     (\<forall>s r s' log. ok s \<longrightarrow> m s = (r, s') \<longrightarrow> (\<exists>q bs. n log = (q, log @ bs) \<and> effect s r s' q bs))"

lemma effect_refl: "ok s \<Longrightarrow> effect s r s r []"
  by (simp add: effect_def keeps_refl)

lemma effect_more:
  assumes "effect s (Inl e) s' q bs"
  shows "effect s (Inl e) s' q' (bs @ cs)"
proof -
  have "resident s \<union> set bs \<subseteq> resident s \<union> set (bs @ cs)" by auto
  then show ?thesis using assms inj_on_subset [of H "resident s \<union> set (bs @ cs)" "resident s \<union> set bs"]
    by (auto simp: effect_def)
qed

lemma effect_trans:
  assumes "effect s (Inr a) s1 q1 bs" "effect s1 r s' q cs"
  shows "effect s r s' q (bs @ cs)"
proof -
  have sub: "resident s \<union> set bs \<subseteq> resident s \<union> set (bs @ cs)" "resident s1 \<union> set cs \<subseteq> resident s \<union> set (bs @ cs)"
    using assms(1) by (auto simp: effect_def)
  have "keeps s s' \<and> ((\<exists>a. r = Inr a) \<longrightarrow> (\<forall>b \<in> set (bs @ cs). get_op ops (H b) s' = Inr b))"
    if inj: "inj_on H (resident s \<union> set (bs @ cs))"
  proof -
    have one: "keeps s s1" "\<forall>b \<in> set bs. get_op ops (H b) s1 = Inr b"
      using assms(1) inj_on_subset [OF inj sub(1)] by (auto simp: effect_def)
    have two: "keeps s1 s'" "(\<exists>a. r = Inr a) \<Longrightarrow> \<forall>b \<in> set cs. get_op ops (H b) s' = Inr b"
      using assms(2) inj_on_subset [OF inj sub(2)] by (auto simp: effect_def)
    have "\<forall>b \<in> set bs. get_op ops (H b) s' = Inr b" using one(2) two(1) by (simp add: keeps_def)
    with keeps_trans [OF one(1) two(1)] two(2) show ?thesis by auto
  qed
  then show ?thesis using assms by (auto simp: effect_def)
qed

lemma writes_lift: "writes (io_lift r) (io_lift r)"
  by (simp add: writes_def effect_refl)

lemma writes_return: "writes (io_return a) (io_return a)"
  by (simp add: writes_def effect_refl)

lemma writes_fail: "writes (io_fail e) (io_fail e)"
  by (simp add: writes_def effect_refl)

lemma writes_put: "writes (put_op ops (H b) b) (put_op recorder_ops (H b) b)"
proof -
  have "effect s r s' (Inr ()) [b]" if s: "ok s" "put_op ops (H b) b s = (r, s')" for s r s'
  proof -
    have "get_op ops (H b) s' = Inr b" if "r = Inr a" for a using put_get s that by blast
    then show ?thesis using put_ok [OF s] put_resident [OF s] put_keeps [OF s] by (auto simp: effect_def)
  qed
  then show ?thesis by (auto simp: writes_def recorder_ops_def)
qed

lemma writes_bind_result:
  assumes "writes m n" "\<And>a. (\<exists>s s'. m s = (Inr a, s')) \<or> (\<exists>log log'. n log = (Inr a, log')) \<Longrightarrow> writes (f a) (g a)"
  shows "writes (io_bind m f) (io_bind n g)"
  unfolding writes_def
proof (intro conjI allI impI)
  have app: "\<exists>q bs2. io_bind n g log = (q, log @ bs1 @ bs2)" if "n log = (q1, log @ bs1)" for log q1 bs1
  proof (cases q1)
    case (Inl e)
    then show ?thesis using that by (auto simp: io_bind_def)
  next
    case (Inr a)
    then have "writes (f a) (g a)" using that assms(2) by blast
    then obtain q2 bs2 where "g a (log @ bs1) = (q2, (log @ bs1) @ bs2)" unfolding writes_def by blast
    then show ?thesis using that Inr by (auto simp: io_bind_def)
  qed
  show "\<exists>q bs. io_bind n g log = (q, log @ bs)" for log
    using assms(1) app unfolding writes_def by blast
  fix s r s' log assume s: "ok s" "io_bind m f s = (r, s')"
  obtain r1 s1 where m: "m s = (r1, s1)" by (cases "m s")
  from assms(1) s(1) m obtain q1 bs1 where n: "n log = (q1, log @ bs1)" "effect s r1 s1 q1 bs1"
    unfolding writes_def by blast
  show "\<exists>q bs. io_bind n g log = (q, log @ bs) \<and> effect s r s' q bs"
  proof (cases r1)
    case (Inl e)
    then have r: "r = Inl e" "s' = s1" using s(2) m by (simp_all add: io_bind_def)
    obtain q bs2 where q: "io_bind n g log = (q, log @ bs1 @ bs2)" using app [OF n(1)] by blast
    then show ?thesis using effect_more [of s e s1 q1 bs1 q bs2] n(2) Inl r by auto
  next
    case (Inr a)
    then have r: "f a s1 = (r, s')" using s(2) m by (simp add: io_bind_def)
    have "ok s1" "q1 = Inr a" using n(2) Inr by (auto simp: effect_def)
    moreover have "writes (f a) (g a)" using m Inr assms(2) by blast
    ultimately obtain q bs2 where g: "g a (log @ bs1) = (q, (log @ bs1) @ bs2)" "effect s1 r s' q bs2"
      using r unfolding writes_def by blast
    then show ?thesis using effect_trans [of s a s1 q1 bs1 r s' q bs2] n Inr \<open>q1 = Inr a\<close> by (auto simp: io_bind_def)
  qed
qed

lemma writes_bind: "writes m n \<Longrightarrow> (\<And>a. writes (f a) (g a)) \<Longrightarrow> writes (io_bind m f) (io_bind n g)"
  by (rule writes_bind_result)

lemma writes_map: "(\<And>x. x \<in> set xs \<Longrightarrow> writes (f x) (g x)) \<Longrightarrow> writes (io_map f xs) (io_map g xs)"
  by (induction xs) (simp_all add: writes_return writes_bind)

end

text \<open>A store whose puts always succeed: computations that only put give the result of the recorder.\<close>

locale reliable_store = content_store ops H ok for ops :: "'s store_ops" and H :: "bytes \<Rightarrow> FileHash" and ok :: "'s \<Rightarrow> bool" +
  assumes put_succeeds: "ok s \<Longrightarrow> \<exists>s'. put_op ops (H b) b s = (Inr (), s')"
begin

definition same_result :: "('s, 'a) store_io \<Rightarrow> (bytes list, 'a) store_io \<Rightarrow> bool" where
  "same_result m n \<longleftrightarrow> (\<forall>s log. ok s \<longrightarrow> fst (m s) = fst (n log) \<and> ok (snd (m s)))"

lemma same_lift: "same_result (io_lift r) (io_lift r)"
  by (simp add: same_result_def)

lemma same_return: "same_result (io_return a) (io_return a)"
  by (simp add: same_result_def)

lemma same_fail: "same_result (io_fail e) (io_fail e)"
  by (simp add: same_result_def)

lemma same_put: "same_result (put_op ops (H b) b) (put_op recorder_ops (H b) b)"
  unfolding same_result_def
proof (intro allI impI)
  fix s log assume s: "ok s"
  then obtain s' where "put_op ops (H b) b s = (Inr (), s')" using put_succeeds by blast
  with put_ok [OF s this] show "fst (put_op ops (H b) b s) = fst (put_op recorder_ops (H b) b log) \<and> ok (snd (put_op ops (H b) b s))"
    by (simp add: recorder_ops_def)
qed

lemma same_bind_result:
  assumes "same_result m n" "\<And>a. (\<exists>s s'. m s = (Inr a, s')) \<Longrightarrow> same_result (f a) (g a)"
  shows "same_result (io_bind m f) (io_bind n g)"
  unfolding same_result_def
proof (intro allI impI)
  fix s log assume s: "ok s"
  obtain r s1 where m: "m s = (r, s1)" by (cases "m s")
  obtain q log1 where n: "n log = (q, log1)" by (cases "n log")
  have "fst (m s) = fst (n log) \<and> ok (snd (m s))" using assms(1) s unfolding same_result_def by blast
  then have "q = r" "ok s1" using m n by simp_all
  show "fst (io_bind m f s) = fst (io_bind n g log) \<and> ok (snd (io_bind m f s))"
  proof (cases r)
    case (Inr a)
    then have "same_result (f a) (g a)" using m assms(2) by blast
    then show ?thesis using m n Inr \<open>q = r\<close> \<open>ok s1\<close> by (simp add: io_bind_def same_result_def)
  qed (use m n \<open>q = r\<close> \<open>ok s1\<close> in \<open>simp add: io_bind_def\<close>)
qed

lemma same_bind: "same_result m n \<Longrightarrow> (\<And>a. same_result (f a) (g a)) \<Longrightarrow> same_result (io_bind m f) (io_bind n g)"
  by (rule same_bind_result)

lemma same_map: "(\<And>x. x \<in> set xs \<Longrightarrow> same_result (f x) (g x)) \<Longrightarrow> same_result (io_map f xs) (io_map g xs)"
  by (induction xs) (simp_all add: same_return same_bind)

end

section \<open>The memory store meets the contract\<close>

text \<open>Every resident object is filed under the hash of its bytes, each key once.\<close>

definition memory_addressed :: "(bytes \<Rightarrow> FileHash) \<Rightarrow> MemoryChunkState \<Rightarrow> bool" where
  "memory_addressed H s \<longleftrightarrow> (\<forall>h c. map_of (ms_map s) h = Some c \<longrightarrow> H (chunk_bytes c) = h)"

lemma insert_chunk_map:
  "map_of (ms_map (insert_chunk h b cap s)) =
     (map_of (ms_map s))(h \<mapsto> \<lparr>chunk_bytes = b, chunk_capacity = cap,
        birth_generation = (case map_of (ms_map s) h of None \<Rightarrow> insertion_generation s | Some c \<Rightarrow> birth_generation c)\<rparr>)"
  by (simp add: insert_chunk_def Let_def update_conv')

lemma memory_get_insert:
  "memory_get k (insert_chunk h b cap s) = (if k = h then Inr b else memory_get k s)"
  by (simp add: memory_get_def insert_chunk_map)

interpretation memory: reliable_store "memory_ops alloc" H "memory_addressed H" for alloc H
proof unfold_locales
  fix s b r s' assume "memory_addressed H s" "put_op (memory_ops alloc) (H b) b s = (r, s')"
  then show "memory_addressed H s'"
    by (auto simp: memory_ops_def memory_put_def memory_addressed_def insert_chunk_map split: if_splits)
next
  fix s h b assume "memory_addressed H s" "get_op (memory_ops alloc) h s = Inr b"
  then show "H b = h" by (auto simp: memory_ops_def memory_get_def memory_addressed_def split: option.splits)
qed (auto simp: memory_ops_def memory_put_def memory_get_insert)

section \<open>The counters\<close>

definition counts :: "BufferMemory \<Rightarrow> nat \<Rightarrow> nat \<Rightarrow> bool" where
  "counts m p c \<longleftrightarrow> counters_valid m \<longrightarrow> unat (payload_bytes m) = p \<and> unat (buffer_capacity_bytes m) = c"

lemma unat_add_count: "amount < 2 ^ 64 \<Longrightarrow> unat (v :: u64) + amount < 2 ^ 64 \<Longrightarrow> unat (v + of_nat amount) = unat v + amount"
  by (simp add: unat_word_ariths unat_of_nat)

lemma unat_subtract_count: "amount < 2 ^ 64 \<Longrightarrow> amount \<le> unat (v :: u64) \<Longrightarrow> unat (v - of_nat amount) = unat v - amount"
  by (subst unat_sub) (simp_all add: unat_of_nat word_le_nat_alt)

lemma counts_add: "counts m p c \<Longrightarrow> counts (memory_add len cap m) (p + len) (c + cap)"
  by (auto simp: counts_def memory_add_def add_count_def unat_add_count split: if_splits)

lemma counts_remove:
  "counts m (length (chunk_bytes ch) + p) (chunk_capacity ch + c) \<Longrightarrow> counts (memory_remove ch m) p c"
  by (auto simp: counts_def memory_remove_def subtract_count_def unat_subtract_count split: if_splits)

definition weight :: "(StoredChunk \<Rightarrow> nat) \<Rightarrow> (FileHash \<times> StoredChunk) list \<Rightarrow> nat" where
  "weight f m = sum_list (map (\<lambda>x. f (snd x)) m)"

lemma weight_simps [simp]: "weight f [] = 0" "weight f (x # m) = f (snd x) + weight f m"
  by (simp_all add: weight_def)

lemma weight_update_new: "map_of m h = None \<Longrightarrow> weight f (AList.update h c m) = weight f m + f c"
  by (induction m) (auto split: if_splits)

lemma weight_update_old:
  "distinct (map fst m) \<Longrightarrow> map_of m h = Some p \<Longrightarrow> weight f (AList.update h c m) + f p = weight f m + f c"
  by (induction m) (auto split: if_splits)

lemma weight_delete:
  "distinct (map fst m) \<Longrightarrow> map_of m h = Some p \<Longrightarrow> weight f m = f p + weight f (AList.delete h m)"
proof (induction m)
  case (Cons x m)
  show ?case
  proof (cases "fst x = h")
    case True
    then have "map_of m h = None" using Cons.prems(1) by (auto simp: map_of_eq_None_iff)
    then have "AList.delete h m = m" by (simp add: delete_id map_of_eq_None_iff)
    with True Cons.prems(2) show ?thesis by auto
  next
    case False
    with Cons show ?thesis by simp
  qed
qed simp

lemma map_of_filter_keys: "map_of (filter (\<lambda>(h, c). h \<in> S) m) k = (if k \<in> S then map_of m k else None)"
  by (induction m) auto

definition counters_ok :: "MemoryChunkState \<Rightarrow> bool" where
  "counters_ok s \<longleftrightarrow> distinct (map fst (ms_map s)) \<and>
     counts (ms_memory s) (weight (\<lambda>c. length (chunk_bytes c)) (ms_map s)) (weight chunk_capacity (ms_map s))"

lemma insert_chunk_counters: "counters_ok s \<Longrightarrow> counters_ok (insert_chunk h b cap s)"
proof (cases "map_of (ms_map s) h")
  case None
  assume "counters_ok s"
  with None show ?thesis
    by (auto simp: counters_ok_def insert_chunk_def Let_def distinct_update weight_update_new intro: counts_add)
next
  case (Some p)
  assume ok: "counters_ok s"
  define m where "m = ms_map s"
  have d: "distinct (map fst m)" and p: "map_of m h = Some p" using ok Some by (simp_all add: counters_ok_def m_def)
  define c where "c = \<lparr>chunk_bytes = b, chunk_capacity = cap, birth_generation = birth_generation p\<rparr>"
  define rest where "rest f = weight f (AList.delete h m)" for f
  have old: "weight f m = f p + rest f" for f using weight_delete [OF d p] by (simp add: rest_def)
  have new: "weight f (AList.update h c m) = rest f + f c" for f
    using weight_update_old [OF d p, of f c] old [of f] by simp
  have "counts (memory_remove p (ms_memory s)) (rest (\<lambda>c. length (chunk_bytes c))) (rest chunk_capacity)"
    using ok by (intro counts_remove) (simp add: counters_ok_def m_def [symmetric] old)
  from counts_add [OF this, of "length b" cap] show ?thesis
    using d new by (simp add: counters_ok_def insert_chunk_def Let_def m_def [symmetric] p c_def distinct_update)
qed

lemma insert_vacant_counters: "counters_ok s \<Longrightarrow> counters_ok (insert_vacant x s)"
  by (cases x) (auto simp: counters_ok_def insert_vacant_def distinct_update weight_update_new fresh_chunk_def intro: counts_add)

lemma memory_delete_counters: "counters_ok s \<Longrightarrow> counters_ok (snd (memory_delete h s))"
  by (auto simp: counters_ok_def memory_delete_def distinct_delete weight_delete split: option.splits
      intro: counts_remove)

lemma fold_keeps: "(\<And>x s. P s \<Longrightarrow> P (f x s)) \<Longrightarrow> P s \<Longrightarrow> P (fold f xs s)"
  by (induction xs arbitrary: s) auto

lemma retain_fold:
  assumes "counts m (weight (\<lambda>c. length (chunk_bytes c)) xs + p) (weight chunk_capacity xs + c)"
  shows "counts (snd (fold (retain_step keep) xs (r, m)))
    (weight (\<lambda>c. length (chunk_bytes c)) (filter (\<lambda>(h, c). h \<in> set keep) xs) + p)
    (weight chunk_capacity (filter (\<lambda>(h, c). h \<in> set keep) xs) + c)"
  using assms
proof (induction xs arbitrary: m r p c)
  case (Cons x xs)
  obtain h ch where x: "x = (h, ch)" by (cases x)
  show ?case
  proof (cases "h \<in> set keep")
    case True
    then show ?thesis
      using Cons.IH [of m "length (chunk_bytes ch) + p" "chunk_capacity ch + c" r] Cons.prems
      by (simp add: x retain_step_def ac_simps)
  next
    case False
    have "counts (memory_remove ch m) (weight (\<lambda>c. length (chunk_bytes c)) xs + p) (weight chunk_capacity xs + c)"
      using Cons.prems by (intro counts_remove) (simp add: x ac_simps)
    with False Cons.IH show ?thesis by (simp add: x retain_step_def)
  qed
qed simp

lemma retain_counters:
  assumes "counters_ok s" "retain_chunks keep s = Some (r, s')"
  shows "counters_ok s'"
proof -
  obtain b m where f: "fold (retain_step keep) (ms_map s) (0, ms_memory s) = (b, m)"
    by (cases "fold (retain_step keep) (ms_map s) (0, ms_memory s)")
  have s': "s' = s\<lparr>ms_map := filter (\<lambda>(h, c). h \<in> set keep) (ms_map s), ms_memory := m\<rparr>"
    using assms(2) f by (auto simp: retain_chunks_def Let_def split: if_splits)
  have "distinct (map fst (filter (\<lambda>(h, c). h \<in> set keep) (ms_map s)))"
    using assms(1) by (simp add: counters_ok_def distinct_map_filter)
  then show ?thesis
    using retain_fold [of "ms_memory s" "ms_map s" 0 0 keep 0] assms(1) f by (simp add: counters_ok_def s')
qed

section \<open>Generations\<close>

definition generations_ok :: "MemoryChunkState \<Rightarrow> bool" where
  "generations_ok s \<longleftrightarrow> (\<forall>h c. map_of (ms_map s) h = Some c \<longrightarrow> birth_generation c \<le> insertion_generation s)"

text \<open>
  While the baseline \<open>b\<close> is pinned: the keys resident at the cut are still there with a birth
  at most \<open>b\<close>, every other resident key was born after it.
\<close>

definition pinned :: "FileHash set \<Rightarrow> u64 \<Rightarrow> MemoryChunkState \<Rightarrow> bool" where
  "pinned keys b s \<longleftrightarrow> active_baseline s = Some b \<and> b < insertion_generation s \<and> keys \<subseteq> dom (map_of (ms_map s))
     \<and> (\<forall>h c. map_of (ms_map s) h = Some c \<longrightarrow> (birth_generation c \<le> b \<longleftrightarrow> h \<in> keys))"

lemma insert_chunk_fields [simp]:
  "insertion_generation (insert_chunk h b cap s) = insertion_generation s"
  "active_baseline (insert_chunk h b cap s) = active_baseline s"
  by (simp_all add: insert_chunk_def Let_def)

lemma insert_vacant_map:
  "map_of (ms_map (insert_vacant (h, b, cap) s)) =
     (if map_of (ms_map s) h = None then (map_of (ms_map s))(h \<mapsto> fresh_chunk s b cap) else map_of (ms_map s))"
  by (simp add: insert_vacant_def update_conv')

lemma insert_vacant_fields [simp]:
  "insertion_generation (insert_vacant x s) = insertion_generation s"
  "active_baseline (insert_vacant x s) = active_baseline s"
  by (cases x; simp add: insert_vacant_def)+

lemma pinned_insert: "pinned keys g s \<Longrightarrow> pinned keys g (insert_chunk h b cap s)"
  by (auto simp: pinned_def insert_chunk_map split: if_splits option.splits)

lemma pinned_vacant: "pinned keys g s \<Longrightarrow> pinned keys g (insert_vacant x s)"
  by (cases x) (auto simp: pinned_def insert_vacant_map fresh_chunk_def split: if_splits)

lemma generations_insert: "generations_ok s \<Longrightarrow> generations_ok (insert_chunk h b cap s)"
  by (auto simp: generations_ok_def insert_chunk_map split: if_splits option.splits)

lemma generations_vacant: "generations_ok s \<Longrightarrow> generations_ok (insert_vacant x s)"
  by (cases x) (auto simp: generations_ok_def insert_vacant_map fresh_chunk_def split: if_splits)

lemma checked_successor: "u64_checked_add g 1 = Some n \<Longrightarrow> g < n \<and> n = g + 1"
proof -
  assume "u64_checked_add g 1 = Some n"
  then have n: "n = g + 1" "unat g + 1 < 2 ^ 64" by (auto simp: u64_checked_add_def split: if_splits)
  then have "unat n = unat g + 1" by (simp add: unat_word_ariths)
  with n show ?thesis by (simp add: word_less_nat_alt)
qed

section \<open>Any sequence of operations\<close>

datatype MemoryCommand =
    Insert FileHash bytes nat
  | Delete FileHash
  | Promote staged
  | PromotePrepared staged
  | Retain "FileHash list"
  | OpenBaseline u64
  | CloseBaseline u64

text \<open>\<open>None\<close> is the panic of a sweep under a pinned baseline.\<close>

definition memory_command :: "(bytes \<Rightarrow> FileHash) \<Rightarrow> MemoryCommand \<Rightarrow> MemoryChunkState \<Rightarrow> MemoryChunkState option" where
  "memory_command H cmd s =
     (case cmd of
        Insert h b cap \<Rightarrow> Some (insert_chunk h b cap s)
      | Delete h \<Rightarrow> Some (snd (memory_delete h s))
      | Promote st \<Rightarrow> Some (snd (promote_verified_chunks H st s))
      | PromotePrepared st \<Rightarrow> Some (promote_prepared_candidate_chunks st s)
      | Retain keep \<Rightarrow> map_option snd (retain_chunks keep s)
      | OpenBaseline g \<Rightarrow> Some (snd (open_candidate_baseline g s))
      | CloseBaseline g \<Rightarrow> Some (snd (close_candidate_baseline g s)))"

fun memory_commands :: "(bytes \<Rightarrow> FileHash) \<Rightarrow> MemoryCommand list \<Rightarrow> MemoryChunkState \<Rightarrow> MemoryChunkState option" where
  "memory_commands H [] s = Some s"
| "memory_commands H (cmd # cmds) s = Option.bind (memory_command H cmd s) (memory_commands H cmds)"

lemma open_close_fields [simp]:
  "ms_map (snd (open_candidate_baseline g s)) = ms_map s" "ms_memory (snd (open_candidate_baseline g s)) = ms_memory s"
  "ms_map (snd (close_candidate_baseline g s)) = ms_map s" "ms_memory (snd (close_candidate_baseline g s)) = ms_memory s"
  by (simp_all add: open_candidate_baseline_def close_candidate_baseline_def split: option.splits)

lemma command_counters:
  assumes "counters_ok s" "memory_command H cmd s = Some s'"
  shows "counters_ok s'"
proof (cases cmd)
  case (PromotePrepared st)
  have "counters_ok (fold (\<lambda>(h, b, c). insert_chunk h b c) st s)"
    by (rule fold_keeps) (auto simp: assms(1) insert_chunk_counters)
  with assms PromotePrepared show ?thesis by (auto simp: memory_command_def promote_prepared_candidate_chunks_def)
next
  case (Promote st)
  have "counters_ok (fold insert_vacant st s)" by (rule fold_keeps) (auto simp: assms(1) insert_vacant_counters)
  with assms Promote show ?thesis by (auto simp: memory_command_def promote_verified_chunks_def split: if_splits)
qed (use assms in \<open>auto simp: memory_command_def insert_chunk_counters memory_delete_counters
      intro: retain_counters, auto simp: counters_ok_def\<close>)

lemma commands_keep:
  assumes "\<And>cmd s s'. P s \<Longrightarrow> Q cmd \<Longrightarrow> memory_command H cmd s = Some s' \<Longrightarrow> P s'"
  shows "P s \<Longrightarrow> list_all Q cmds \<Longrightarrow> memory_commands H cmds s = Some s' \<Longrightarrow> P s'"
proof (induction cmds arbitrary: s)
  case (Cons cmd cmds)
  then obtain t where "memory_command H cmd s = Some t" "memory_commands H cmds t = Some s'"
    by (auto simp: bind_eq_Some_conv)
  with Cons assms [of s cmd t] show ?case by simp
qed simp

lemma commands_counters: "counters_ok s \<Longrightarrow> memory_commands H cmds s = Some s' \<Longrightarrow> counters_ok s'"
  by (rule commands_keep [where P = counters_ok and Q = "\<lambda>_. True"]) (auto simp: list_all_iff intro: command_counters)

lemma command_generations:
  assumes "generations_ok s" "memory_command H cmd s = Some s'"
  shows "generations_ok s'"
proof (cases cmd)
  case (PromotePrepared st)
  have "generations_ok (fold (\<lambda>(h, b, c). insert_chunk h b c) st s)"
    by (rule fold_keeps) (auto simp: assms(1) generations_insert)
  with assms PromotePrepared show ?thesis by (auto simp: memory_command_def promote_prepared_candidate_chunks_def)
next
  case (Promote st)
  have "generations_ok (fold insert_vacant st s)" by (rule fold_keeps) (auto simp: assms(1) generations_vacant)
  with assms Promote show ?thesis by (auto simp: memory_command_def promote_verified_chunks_def split: if_splits)
next
  case (OpenBaseline g)
  have "insertion_generation s \<le> insertion_generation s'" "ms_map s' = ms_map s"
    using assms(2) checked_successor [of g]
    by (auto simp: memory_command_def OpenBaseline open_candidate_baseline_def split: if_splits option.splits)
  then show ?thesis using assms(1) unfolding generations_ok_def by (metis order.trans)
next
  case (Retain keep)
  then show ?thesis using assms
    by (auto simp: memory_command_def retain_chunks_def generations_ok_def Let_def map_of_filter_keys split: if_splits prod.splits)
next
  case (Delete h)
  then show ?thesis using assms
    by (auto simp: memory_command_def memory_delete_def generations_ok_def delete_conv' split: if_splits option.splits)
next
  case (Insert h b cap)
  with assms show ?thesis by (auto simp: memory_command_def generations_insert)
qed (use assms in \<open>auto simp: memory_command_def close_candidate_baseline_def generations_ok_def split: if_splits\<close>)

lemma commands_generations: "generations_ok s \<Longrightarrow> memory_commands H cmds s = Some s' \<Longrightarrow> generations_ok s'"
  by (rule commands_keep [where P = generations_ok and Q = "\<lambda>_. True"]) (auto simp: list_all_iff intro: command_generations)

fun is_close :: "MemoryCommand \<Rightarrow> bool" where
  "is_close (CloseBaseline g) = True"
| "is_close cmd = False"

lemma command_pinned:
  assumes "pinned keys g s" "\<not> is_close cmd" "memory_command H cmd s = Some s'"
  shows "pinned keys g s'"
proof (cases cmd)
  case (PromotePrepared st)
  have "pinned keys g (fold (\<lambda>(h, b, c). insert_chunk h b c) st s)"
    by (rule fold_keeps) (auto simp: assms(1) pinned_insert)
  with assms PromotePrepared show ?thesis by (auto simp: memory_command_def promote_prepared_candidate_chunks_def)
next
  case (Promote st)
  have "pinned keys g (fold insert_vacant st s)" by (rule fold_keeps) (auto simp: assms(1) pinned_vacant)
  with assms Promote show ?thesis by (auto simp: memory_command_def promote_verified_chunks_def split: if_splits)
next
  case (Insert h b cap)
  with assms show ?thesis by (auto simp: memory_command_def pinned_insert)
qed (use assms in \<open>auto simp: memory_command_def memory_delete_def retain_chunks_def
      open_candidate_baseline_def pinned_def\<close>)

lemma commands_pinned:
  "pinned keys g s \<Longrightarrow> list_all (\<lambda>c. \<not> is_close c) cmds \<Longrightarrow> memory_commands H cmds s = Some s' \<Longrightarrow> pinned keys g s'"
  by (rule commands_keep [where P = "pinned keys g" and Q = "\<lambda>c. \<not> is_close c"]) (auto intro: command_pinned)

lemma open_pinned:
  assumes "generations_ok s" "open_candidate_baseline g s = (Inr (), s')"
  shows "pinned (dom (map_of (ms_map s))) g s'"
  using assms checked_successor [of g]
  by (auto simp: open_candidate_baseline_def pinned_def generations_ok_def split: if_splits option.splits)

section \<open>Properties\<close>

text \<open>(C33) The counters of the memory store are exact: after any sequence of its operations from an empty
  store, unless an overflow was flagged, they are the sums of the lengths and of the capacities of
  the resident buffers.\<close>

theorem memory_counters_exact:
  assumes "memory_commands H cmds memory_default = Some s" "counters_valid (ms_memory s)"
  shows "unat (payload_bytes (ms_memory s)) = (\<Sum>(h, c) \<leftarrow> ms_map s. length (chunk_bytes c))
    \<and> unat (buffer_capacity_bytes (ms_memory s)) = (\<Sum>(h, c) \<leftarrow> ms_map s. chunk_capacity c)"
proof -
  have "counters_ok memory_default"
    by (simp add: counters_ok_def memory_default_def buffer_memory_default_def counts_def)
  from commands_counters [OF this assms(1)] assms(2) show ?thesis
    by (simp add: counters_ok_def counts_def weight_def case_prod_unfold)
qed

theorem memory_counters_exact_witness:
  "\<exists>s. memory_commands (\<lambda>b. b) [Insert [1] [1, 2] 4, Insert [1] [1, 2, 3] 8] memory_default = Some s
    \<and> unat (payload_bytes (ms_memory s)) = (\<Sum>(h, c) \<leftarrow> ms_map s. length (chunk_bytes c))
    \<and> (\<Sum>(h, c) \<leftarrow> ms_map s. length (chunk_bytes c)) = 3"
proof -
  define s where "s = insert_chunk [1] [1, 2, 3] 8 (insert_chunk [1] [1, 2] 4 memory_default)"
  have cmds: "memory_commands (\<lambda>b. b) [Insert [1] [1, 2] 4, Insert [1] [1, 2, 3] 8] memory_default = Some s"
    by (simp add: memory_command_def s_def)
  have first: "insert_chunk [1] [1, 2] 4 memory_default =
      \<lparr>ms_map = [([1], \<lparr>chunk_bytes = [1, 2], chunk_capacity = 4, birth_generation = 0\<rparr>)],
       ms_memory = \<lparr>payload_bytes = 2, buffer_capacity_bytes = 4, counters_valid = True\<rparr>,
       insertion_generation = 0, active_baseline = None\<rparr>"
    by (simp add: insert_chunk_def memory_default_def buffer_memory_default_def memory_add_def add_count_def)
  have second: "s = \<lparr>ms_map = [([1], \<lparr>chunk_bytes = [1, 2, 3], chunk_capacity = 8, birth_generation = 0\<rparr>)],
       ms_memory = \<lparr>payload_bytes = 3, buffer_capacity_bytes = 8, counters_valid = True\<rparr>,
       insertion_generation = 0, active_baseline = None\<rparr>"
    unfolding s_def first
    by (simp add: insert_chunk_def memory_add_def add_count_def memory_remove_def subtract_count_def)
  have "counters_valid (ms_memory s)" "(\<Sum>(h, c) \<leftarrow> ms_map s. length (chunk_bytes c)) = 3"
    by (simp_all add: second)
  with memory_counters_exact [OF cmds] cmds show ?thesis by blast
qed

text \<open>(C34) Candidate freshness is exact: once a baseline is open, and until it is closed, an object is
  reported fresh exactly when its key was not resident at the opening, whatever is inserted,
  promoted, deleted or swept in between.\<close>

theorem fresh_since_exact:
  assumes "memory_commands H before memory_default = Some s0"
    "open_candidate_baseline g s0 = (Inr (), s1)"
    "list_all (\<lambda>c. \<not> is_close c) after" "memory_commands H after s1 = Some s"
    "map_of (ms_map s) h \<noteq> None"
  shows "is_fresh_since h g s = Inr (map_of (ms_map s0) h = None)"
proof -
  have "generations_ok memory_default" by (simp add: generations_ok_def memory_default_def)
  from commands_pinned [OF open_pinned [OF commands_generations [OF this assms(1)] assms(2)] assms(3,4)]
  have pin: "pinned (dom (map_of (ms_map s0))) g s" .
  from assms(5) obtain c where c: "map_of (ms_map s) h = Some c" by blast
  with pin have "birth_generation c \<le> g \<longleftrightarrow> h \<in> dom (map_of (ms_map s0))" "active_baseline s = Some g"
    unfolding pinned_def by blast+
  with c show ?thesis by (simp add: is_fresh_since_def domIff not_le [symmetric])
qed

theorem fresh_since_exact_witness:
  "\<exists>s0 s1 s. memory_commands (\<lambda>b. b) [Insert [1] [1] 1] memory_default = Some s0
    \<and> open_candidate_baseline 0 s0 = (Inr (), s1)
    \<and> memory_commands (\<lambda>b. b) [Insert [2] [2] 1, Insert [1] [1] 1, Delete [1]] s1 = Some s
    \<and> is_fresh_since [1] 0 s = Inr False \<and> is_fresh_since [2] 0 s = Inr True"
proof -
  define s0 where "s0 = insert_chunk [1] [1] 1 memory_default"
  define s1 where "s1 = s0\<lparr>active_baseline := Some 0, insertion_generation := 1\<rparr>"
  define s where "s = insert_chunk [1] [1] 1 (insert_chunk [2] [2] 1 s1)"
  have s0: "memory_commands (\<lambda>b. b) [Insert [1] [1] 1] memory_default = Some s0"
    by (simp add: memory_command_def s0_def)
  have s1: "open_candidate_baseline 0 s0 = (Inr (), s1)"
    by (simp add: open_candidate_baseline_def s1_def u64_checked_add_def s0_def memory_default_def)
  have s: "memory_commands (\<lambda>b. b) [Insert [2] [2] 1, Insert [1] [1] 1, Delete [1]] s1 = Some s"
    by (simp add: memory_command_def s_def memory_delete_def s1_def)
  have m: "map_of (ms_map s0) [1] \<noteq> None" "map_of (ms_map s0) [2] = None"
      "map_of (ms_map s) [1] \<noteq> None" "map_of (ms_map s) [2] \<noteq> None"
    by (simp_all add: s0_def s_def s1_def insert_chunk_map memory_default_def)
  have "is_fresh_since [1] 0 s = Inr False" "is_fresh_since [2] 0 s = Inr True"
    using fresh_since_exact [OF s0 s1 _ s, of "[1]"] fresh_since_exact [OF s0 s1 _ s, of "[2]"] m by simp_all
  with s0 s1 s show ?thesis by blast
qed

end
