(* ===== verification/Tree_V2_Codec.thy ===== *)
theory Tree_V2_Codec
  imports Utf8 Entries Globs
begin

unbundle bit_operations_syntax

text \<open>
  The byte format of Tree v2 (\<open>crates/sync-core/src/tree_v2.rs\<close>): descriptors, validation, the
  \<open>Reader\<close>, and the encoders and decoders of leaves (\<open>OVL2\<close>), internal nodes (\<open>OVI2\<close>) and
  stored roots (\<open>OVR2\<close>). A reader is a function from the remaining bytes to a value and the
  bytes after it. A Rust \<open>String\<close> is valid UTF-8 and a \<open>FileHash\<close> has 32 bytes by their types;
  \<open>entry_typed\<close> and \<open>range_typed\<close> say so where a theorem needs it.
\<close>

section \<open>Limits\<close>

definition LEAF_MAGIC :: bytes where "LEAF_MAGIC = as_bytes ''OVL2''"
definition INTERNAL_MAGIC :: bytes where "INTERNAL_MAGIC = as_bytes ''OVI2''"
definition ROOT_MAGIC :: bytes where "ROOT_MAGIC = as_bytes ''OVR2''"
definition LEAF_HEADER_BYTES :: nat where "LEAF_HEADER_BYTES = 8"
definition INTERNAL_HEADER_BYTES :: nat where "INTERNAL_HEADER_BYTES = 12"
definition STORED_ROOT_HEADER_BYTES :: nat where "STORED_ROOT_HEADER_BYTES = 64"
definition MAX_STORED_ROOT_BYTES :: nat where "MAX_STORED_ROOT_BYTES = 16 * 1024"
definition MAX_ROOT_ID_BYTES :: nat where "MAX_ROOT_ID_BYTES = 1024"
definition TREE_VERSION :: u32 where "TREE_VERSION = 2"
definition MAX_LEAF_ENTRIES :: nat where "MAX_LEAF_ENTRIES = 1024"
definition MAX_NODE_BYTES :: nat where "MAX_NODE_BYTES = 256 * 1024"
definition MAX_PATH_BYTES :: nat where "MAX_PATH_BYTES = 4096"
definition MAX_TREE_DEPTH :: u16 where "MAX_TREE_DEPTH = 16"
definition MAX_LOADED_ENTRIES :: nat where "MAX_LOADED_ENTRIES = 10000000"
definition MAX_INTERNAL_CHILDREN :: nat where "MAX_INTERNAL_CHILDREN = 256"

lemmas tree_limits = LEAF_HEADER_BYTES_def INTERNAL_HEADER_BYTES_def STORED_ROOT_HEADER_BYTES_def
  MAX_STORED_ROOT_BYTES_def MAX_ROOT_ID_BYTES_def MAX_LEAF_ENTRIES_def MAX_NODE_BYTES_def
  MAX_PATH_BYTES_def MAX_LOADED_ENTRIES_def MAX_INTERNAL_CHILDREN_def

section \<open>Descriptors\<close>

record RangeRef =
  rr_min_path :: string
  rr_max_path :: string
  rr_hash :: FileHash
  rr_file_count :: u64
  rr_serialized_bytes :: u32
  rr_height :: u16

record TreeV2Root =
  tr_version :: u32
  tr_total_files :: u64
  tr_child :: "RangeRef option"

record RootNodeV2 =
  rn_vault_id :: string
  rn_created_ms :: u64
  rn_tree :: TreeV2Root
  rn_parent_hash :: "FileHash option"
  rn_device_id :: string

datatype V2Node =
    Leaf "FileEntry list"
  | Internal u16 "RangeRef list"

section \<open>Validation\<close>

definition has_control :: "string \<Rightarrow> bool" where
  "has_control s = list_ex (\<lambda>c. is_control c \<or> c = 0x7F) (str_chars (as_bytes s))"

definition validate_path :: "string \<Rightarrow> ChunkError + unit" where
  "validate_path path =
     (if path = [] \<or> length path > MAX_PATH_BYTES \<or> starts_with path ''/''
      then invalid ''Tree v2 path length is invalid''
      else if CHR 0x5C \<in> set path \<or> has_control path
        \<or> list_ex (\<lambda>segment. segment = [] \<or> segment = ''.'' \<or> segment = ''..'') (split_on CHR ''/'' path)
      then invalid ''unsafe Tree v2 vault-relative path''
      else Inr ())"

definition validate_root_id :: "string \<Rightarrow> bool \<Rightarrow> ChunkError + unit" where
  "validate_root_id value allow_empty =
     (if (\<not> allow_empty \<and> value = []) \<or> length value > MAX_ROOT_ID_BYTES \<or> has_control value
      then invalid ''Tree v2 id is invalid'' else Inr ())"

text \<open>\<open>windows(2)\<close>: every adjacent pair.\<close>

definition adjacent :: "('a \<Rightarrow> 'a \<Rightarrow> bool) \<Rightarrow> 'a list \<Rightarrow> bool" where
  "adjacent P xs = list_all (\<lambda>(a, b). P a b) (zip xs (tl xs))"

definition validate_entries :: "FileEntry list \<Rightarrow> ChunkError + unit" where
  "validate_entries entries =
     (if length entries > MAX_LOADED_ENTRIES then invalid ''Tree v2 exceeds the entry limit''
      else and_then (try_all (\<lambda>e. validate_path (fe_path e)) entries) (\<lambda>_.
        if \<not> adjacent (\<lambda>a b. fe_path a < fe_path b) entries
        then invalid ''Tree v2 entries are not strictly ordered'' else Inr ()))"

definition validate_range :: "RangeRef \<Rightarrow> ChunkError + unit" where
  "validate_range rng =
     and_then (validate_path (rr_min_path rng)) (\<lambda>_.
     and_then (validate_path (rr_max_path rng)) (\<lambda>_.
       if rr_min_path rng > rr_max_path rng
          \<or> rr_file_count rng = 0
          \<or> rr_file_count rng > of_nat MAX_LOADED_ENTRIES
          \<or> (rr_height rng = 0 \<and> rr_file_count rng > of_nat MAX_LEAF_ENTRIES)
          \<or> rr_serialized_bytes rng = 0
          \<or> unat (rr_serialized_bytes rng) > MAX_NODE_BYTES
          \<or> rr_height rng > MAX_TREE_DEPTH
       then invalid ''Tree v2 range descriptor is invalid'' else Inr ()))"

definition validate_ranges :: "RangeRef list \<Rightarrow> u16 \<Rightarrow> ChunkError + unit" where
  "validate_ranges ranges expected_height =
     and_then (try_all (\<lambda>rng.
         if rr_height rng \<noteq> expected_height then invalid ''Tree v2 range height is inconsistent''
         else validate_range rng) ranges) (\<lambda>_.
       if \<not> adjacent (\<lambda>a b. rr_max_path a < rr_min_path b \<and> rr_max_path a < rr_max_path b) ranges
       then invalid ''Tree v2 ranges overlap or are unordered'' else Inr ())"

definition validate_root_shape :: "TreeV2Root \<Rightarrow> ChunkError + unit" where
  "validate_root_shape root =
     (if tr_version root \<noteq> TREE_VERSION then invalid ''unsupported Tree v2 root version''
      else (case tr_child root of
          None \<Rightarrow> if tr_total_files root = 0 then Inr () else invalid ''Tree v2 root shape is inconsistent''
        | Some child \<Rightarrow>
            if tr_total_files root > 0 \<and> rr_file_count child = tr_total_files root
               \<and> rr_height child \<le> MAX_TREE_DEPTH
            then validate_range child else invalid ''Tree v2 root shape is inconsistent''))"

section \<open>Reader\<close>

type_synonym 'a reader = "bytes \<Rightarrow> ChunkError + 'a \<times> bytes"

definition rd_return :: "'a \<Rightarrow> 'a reader" where
  "rd_return a bs = Inr (a, bs)"

definition rd_bind :: "'a reader \<Rightarrow> ('a \<Rightarrow> 'b reader) \<Rightarrow> 'b reader" where
  "rd_bind r f bs = and_then (r bs) (\<lambda>(a, rest). f a rest)"

definition rd_check :: "ChunkError + unit \<Rightarrow> unit reader" where
  "rd_check c bs = and_then c (\<lambda>_. Inr ((), bs))"

definition rd_take :: "nat \<Rightarrow> bytes reader" where
  "rd_take n bs =
     (if n \<le> length bs then Inr (take n bs, drop n bs) else invalid ''Tree v2 node is truncated'')"

definition rd_u8 :: "byte reader" where "rd_u8 = rd_bind (rd_take 1) (\<lambda>b. rd_return (b ! 0))"
definition rd_u16 :: "u16 reader" where "rd_u16 = rd_bind (rd_take 2) (\<lambda>b. rd_return (u16_of_le b))"
definition rd_u32 :: "u32 reader" where "rd_u32 = rd_bind (rd_take 4) (\<lambda>b. rd_return (u32_of_le b))"
definition rd_u64 :: "u64 reader" where "rd_u64 = rd_bind (rd_take 8) (\<lambda>b. rd_return (u64_of_le b))"

text \<open>\<open>str::from_utf8(reader.take(n)?)\<close>.\<close>

definition rd_str :: "nat \<Rightarrow> string \<Rightarrow> string reader" where
  "rd_str n message = rd_bind (rd_take n) (\<lambda>b bs.
     if from_utf8_ok b then Inr (of_bytes b, bs) else invalid message)"

definition rd_finish :: "unit reader" where
  "rd_finish bs = (if bs = [] then Inr ((), bs) else invalid ''Tree v2 node has trailing bytes'')"

fun rd_many :: "nat \<Rightarrow> 'a reader \<Rightarrow> 'a list reader" where
  "rd_many 0 r = rd_return []"
| "rd_many (Suc n) r = rd_bind r (\<lambda>x. rd_bind (rd_many n r) (\<lambda>xs. rd_return (x # xs)))"

section \<open>Encoders\<close>

definition leaf_record_len :: "FileEntry \<Rightarrow> nat" where
  "leaf_record_len entry = 2 + length (fe_path entry) + 32 + 8 + 8"

definition range_record_len :: "RangeRef \<Rightarrow> nat" where
  "range_record_len rng = 2 + 2 + length (rr_min_path rng) + length (rr_max_path rng) + 32 + 8 + 4"

definition encode_entry :: "FileEntry \<Rightarrow> bytes" where
  "encode_entry entry =
     u16_le (of_nat (length (fe_path entry))) @ as_bytes (fe_path entry) @ fe_hash entry
     @ u64_le (fe_mtime_ms entry) @ u64_le (fe_size_bytes entry)"

definition encode_leaf :: "FileEntry list \<Rightarrow> ChunkError + bytes" where
  "encode_leaf entries =
     and_then (validate_entries entries) (\<lambda>_.
       if length entries > MAX_LEAF_ENTRIES then invalid ''Tree v2 leaf exceeds the entry cap''
       else if foldl (\<lambda>sum e. sum + leaf_record_len e) LEAF_HEADER_BYTES entries > MAX_NODE_BYTES
       then invalid ''Tree v2 leaf exceeds the byte cap''
       else Inr (LEAF_MAGIC @ u32_le (of_nat (length entries)) @ concat (map encode_entry entries)))"

definition range_bytes :: "RangeRef \<Rightarrow> bytes" where
  "range_bytes rng =
     u16_le (of_nat (length (rr_min_path rng))) @ u16_le (of_nat (length (rr_max_path rng)))
     @ as_bytes (rr_min_path rng) @ as_bytes (rr_max_path rng) @ rr_hash rng
     @ u64_le (rr_file_count rng) @ u32_le (rr_serialized_bytes rng)"

definition encode_range_ref :: "RangeRef \<Rightarrow> ChunkError + bytes" where
  "encode_range_ref rng =
     and_then (validate_range rng) (\<lambda>_.
       if length (rr_min_path rng) > 65535 then invalid ''Tree v2 minimum path is too long''
       else if length (rr_max_path rng) > 65535 then invalid ''Tree v2 maximum path is too long''
       else Inr (range_bytes rng))"

fun encode_range_refs :: "RangeRef list \<Rightarrow> ChunkError + bytes" where
  "encode_range_refs [] = Inr []"
| "encode_range_refs (r # rs) =
     and_then (encode_range_ref r) (\<lambda>b. and_then (encode_range_refs rs) (\<lambda>bs. Inr (b @ bs)))"

definition encode_internal :: "u16 \<Rightarrow> RangeRef list \<Rightarrow> ChunkError + bytes" where
  "encode_internal child_height children =
     (if children = [] \<or> length children > MAX_INTERNAL_CHILDREN
      then invalid ''Tree v2 internal child count is invalid''
      else and_then (validate_ranges children child_height) (\<lambda>_.
        if foldl (\<lambda>sum c. sum + range_record_len c) INTERNAL_HEADER_BYTES children > MAX_NODE_BYTES
        then invalid ''Tree v2 internal node exceeds the byte cap''
        else and_then (encode_range_refs children) (\<lambda>body.
          Inr (INTERNAL_MAGIC @ u16_le child_height @ u16_le 0 @ u32_le (of_nat (length children)) @ body))))"

text \<open>The preimage of \<open>TreeV2Root::hash\<close>; \<open>None\<close> is the panic of an invalid descriptor.\<close>

definition tree_hash_bytes :: "TreeV2Root \<Rightarrow> bytes option" where
  "tree_hash_bytes root =
     (let head = ROOT_MAGIC @ u32_le (tr_version root) @ u64_le (tr_total_files root) in
      case tr_child root of
        None \<Rightarrow> Some (head @ [0])
      | Some child \<Rightarrow>
          (case encode_range_ref child of
             Inl _ \<Rightarrow> None
           | Inr b \<Rightarrow> Some (head @ [1] @ u16_le (rr_height child) @ b)))"

definition tree_hash :: "(bytes \<Rightarrow> FileHash) \<Rightarrow> TreeV2Root \<Rightarrow> FileHash option" where
  "tree_hash H root = map_option H (tree_hash_bytes root)"

definition validate_root :: "RootNodeV2 \<Rightarrow> ChunkError + unit" where
  "validate_root root =
     and_then (validate_root_shape (rn_tree root)) (\<lambda>_.
     and_then (validate_root_id (rn_vault_id root) False) (\<lambda>_.
       validate_root_id (rn_device_id root) True))"

definition replacement_root_serialized_length :: "string \<Rightarrow> string \<Rightarrow> (string \<times> string) option \<Rightarrow> ChunkError + nat" where
  "replacement_root_serialized_length vault_id device_id child_paths =
     and_then (validate_root_id vault_id False) (\<lambda>_.
     and_then (validate_root_id device_id True) (\<lambda>_.
     and_then (case child_paths of
          None \<Rightarrow> Inr (STORED_ROOT_HEADER_BYTES + length vault_id + length device_id)
        | Some (min_path, max_path) \<Rightarrow>
            and_then (validate_path min_path) (\<lambda>_.
            and_then (validate_path max_path) (\<lambda>_.
              if min_path > max_path then invalid ''Tree v2 root range is inverted''
              else Inr (STORED_ROOT_HEADER_BYTES + length vault_id + length device_id
                        + (2 + 48) + length min_path + length max_path))))
       (\<lambda>capacity. if capacity > MAX_STORED_ROOT_BYTES then invalid ''Tree v2 stored root exceeds the byte cap''
                   else Inr capacity)))"

definition serialized_length :: "RootNodeV2 \<Rightarrow> ChunkError + nat" where
  "serialized_length root =
     and_then (validate_root root) (\<lambda>_.
     and_then (replacement_root_serialized_length (rn_vault_id root) (rn_device_id root)
         (map_option (\<lambda>c. (rr_min_path c, rr_max_path c)) (tr_child (rn_tree root)))) (\<lambda>capacity.
       let capacity = (if rn_parent_hash root \<noteq> None then capacity + 32 else capacity) in
       if capacity > MAX_STORED_ROOT_BYTES then invalid ''Tree v2 stored root exceeds the byte cap''
       else Inr capacity))"

definition root_flags :: "RootNodeV2 \<Rightarrow> byte" where
  "root_flags root =
     (if rn_parent_hash root \<noteq> None then 1 else 0) OR (if tr_child (rn_tree root) \<noteq> None then 2 else 0)"

text \<open>\<open>serialize\<close>; the panic of the hash is unreachable after the validation.\<close>

definition serialize_root :: "(bytes \<Rightarrow> FileHash) \<Rightarrow> RootNodeV2 \<Rightarrow> ChunkError + bytes" where
  "serialize_root H root =
     and_then (serialized_length root) (\<lambda>_.
       if length (rn_vault_id root) > 65535 then invalid ''Tree v2 vault id is too long''
       else if length (rn_device_id root) > 65535 then invalid ''Tree v2 device id is too long''
       else
         let head = ROOT_MAGIC @ u32_le TREE_VERSION @ u64_le (rn_created_ms root)
               @ u64_le (tr_total_files (rn_tree root))
               @ u16_le (of_nat (length (rn_vault_id root))) @ u16_le (of_nat (length (rn_device_id root)))
               @ [root_flags root] @ [0, 0, 0] @ the (tree_hash H (rn_tree root))
               @ (case rn_parent_hash root of None \<Rightarrow> [] | Some parent \<Rightarrow> parent)
         in and_then (case tr_child (rn_tree root) of
                None \<Rightarrow> Inr []
              | Some child \<Rightarrow> and_then (encode_range_ref child) (\<lambda>b. Inr (u16_le (rr_height child) @ b)))
              (\<lambda>body. Inr (head @ body @ as_bytes (rn_vault_id root) @ as_bytes (rn_device_id root))))"

section \<open>Decoders\<close>

definition decode_entry :: "FileEntry reader" where
  "decode_entry =
     rd_bind rd_u16 (\<lambda>path_len.
     rd_bind (rd_check (if path_len = 0 \<or> unat path_len > MAX_PATH_BYTES
                        then invalid ''Tree v2 leaf path length is invalid'' else Inr ())) (\<lambda>_.
     rd_bind (rd_str (unat path_len) ''Tree v2 leaf path is not UTF-8'') (\<lambda>path.
     rd_bind (rd_check (validate_path path)) (\<lambda>_.
     rd_bind (rd_take 32) (\<lambda>hash.
     rd_bind rd_u64 (\<lambda>mtime_ms.
     rd_bind rd_u64 (\<lambda>size_bytes.
       rd_return \<lparr>fe_path = path, fe_hash = hash, fe_mtime_ms = mtime_ms, fe_size_bytes = size_bytes\<rparr>)))))))"

definition decode_range_ref :: "u16 \<Rightarrow> RangeRef reader" where
  "decode_range_ref height =
     rd_bind rd_u16 (\<lambda>min_len.
     rd_bind rd_u16 (\<lambda>max_len.
     rd_bind (rd_check (if min_len = 0 \<or> unat min_len > MAX_PATH_BYTES \<or> max_len = 0 \<or> unat max_len > MAX_PATH_BYTES
                        then invalid ''Tree v2 range path length is invalid'' else Inr ())) (\<lambda>_.
     rd_bind (rd_str (unat min_len) ''Tree v2 minimum path is not UTF-8'') (\<lambda>min_path.
     rd_bind (rd_str (unat max_len) ''Tree v2 maximum path is not UTF-8'') (\<lambda>max_path.
     rd_bind (rd_take 32) (\<lambda>hash.
     rd_bind rd_u64 (\<lambda>file_count.
     rd_bind rd_u32 (\<lambda>serialized_bytes.
       let rng = \<lparr>rr_min_path = min_path, rr_max_path = max_path, rr_hash = hash, rr_file_count = file_count,
                    rr_serialized_bytes = serialized_bytes, rr_height = height\<rparr>
       in rd_bind (rd_check (validate_range rng)) (\<lambda>_. rd_return rng)))))))))"

definition decode_leaf_body :: "V2Node reader" where
  "decode_leaf_body =
     rd_bind (rd_take 4) (\<lambda>_.
     rd_bind rd_u32 (\<lambda>count.
     rd_bind (rd_check (if count = 0 \<or> unat count > MAX_LEAF_ENTRIES
                        then invalid ''Tree v2 leaf entry count is invalid'' else Inr ())) (\<lambda>_.
     rd_bind (rd_many (unat count) decode_entry) (\<lambda>entries.
     rd_bind rd_finish (\<lambda>_.
     rd_bind (rd_check (validate_entries entries)) (\<lambda>_. rd_return (Leaf entries)))))))"

definition decode_internal_body :: "V2Node reader" where
  "decode_internal_body =
     rd_bind (rd_take 4) (\<lambda>_.
     rd_bind rd_u16 (\<lambda>child_height.
     rd_bind (rd_check (if child_height \<ge> MAX_TREE_DEPTH then invalid ''Tree v2 internal header is invalid'' else Inr ())) (\<lambda>_.
     rd_bind rd_u16 (\<lambda>reserved.
     rd_bind (rd_check (if reserved \<noteq> 0 then invalid ''Tree v2 internal header is invalid'' else Inr ())) (\<lambda>_.
     rd_bind rd_u32 (\<lambda>count.
     rd_bind (rd_check (if count = 0 \<or> unat count > MAX_INTERNAL_CHILDREN
                        then invalid ''Tree v2 internal child count is invalid'' else Inr ())) (\<lambda>_.
     rd_bind (rd_many (unat count) (decode_range_ref child_height)) (\<lambda>children.
     rd_bind rd_finish (\<lambda>_.
     rd_bind (rd_check (validate_ranges children child_height)) (\<lambda>_.
       rd_return (Internal child_height children)))))))))))"

definition decode_node :: "bytes \<Rightarrow> ChunkError + V2Node" where
  "decode_node bs =
     (if length bs > MAX_NODE_BYTES \<or> length bs < LEAF_HEADER_BYTES then invalid ''Tree v2 node length is invalid''
      else if take 4 bs = LEAF_MAGIC then and_then (decode_leaf_body bs) (\<lambda>(node, _). Inr node)
      else if take 4 bs = INTERNAL_MAGIC then
        (if length bs < INTERNAL_HEADER_BYTES then invalid ''Tree v2 internal header is truncated''
         else and_then (decode_internal_body bs) (\<lambda>(node, _). Inr node))
      else invalid ''unknown Tree v2 node magic'')"

definition decode_root_body :: "(bytes \<Rightarrow> FileHash) \<Rightarrow> RootNodeV2 reader" where
  "decode_root_body H =
     rd_bind (rd_take 4) (\<lambda>magic.
     rd_bind (rd_check (if magic \<noteq> ROOT_MAGIC then invalid ''unknown Tree v2 root magic'' else Inr ())) (\<lambda>_.
     rd_bind rd_u32 (\<lambda>version.
     rd_bind (rd_check (if version \<noteq> TREE_VERSION then invalid ''unsupported Tree v2 root version'' else Inr ())) (\<lambda>_.
     rd_bind rd_u64 (\<lambda>created_ms.
     rd_bind rd_u64 (\<lambda>total_files.
     rd_bind rd_u16 (\<lambda>vault_len.
     rd_bind rd_u16 (\<lambda>device_len.
     rd_bind rd_u8 (\<lambda>flags.
     rd_bind (rd_check (if flags AND NOT 3 \<noteq> 0 then invalid ''Tree v2 stored root flags are invalid'' else Inr ())) (\<lambda>_.
     rd_bind (rd_take 3) (\<lambda>zeros.
     rd_bind (rd_check (if zeros \<noteq> [0, 0, 0] then invalid ''Tree v2 stored root flags are invalid'' else Inr ())) (\<lambda>_.
     rd_bind (rd_take 32) (\<lambda>declared_hash.
     rd_bind (if flags AND 1 \<noteq> 0 then rd_bind (rd_take 32) (\<lambda>p. rd_return (Some p)) else rd_return None) (\<lambda>parent_hash.
     rd_bind (if flags AND 2 \<noteq> 0
              then rd_bind rd_u16 (\<lambda>height. rd_bind (decode_range_ref height) (\<lambda>c. rd_return (Some c)))
              else rd_return None) (\<lambda>child.
     rd_bind (rd_check (if vault_len = 0 \<or> unat vault_len > MAX_ROOT_ID_BYTES \<or> unat device_len > MAX_ROOT_ID_BYTES
                        then invalid ''Tree v2 root identifier length is invalid'' else Inr ())) (\<lambda>_.
     rd_bind (rd_str (unat vault_len) ''Tree v2 vault id is not UTF-8'') (\<lambda>vault_id.
     rd_bind (rd_str (unat device_len) ''Tree v2 device id is not UTF-8'') (\<lambda>device_id.
     rd_bind rd_finish (\<lambda>_.
       let root = \<lparr>rn_vault_id = vault_id, rn_created_ms = created_ms,
                   rn_tree = \<lparr>tr_version = TREE_VERSION, tr_total_files = total_files, tr_child = child\<rparr>,
                   rn_parent_hash = parent_hash, rn_device_id = device_id\<rparr>
       in rd_bind (rd_check (validate_root root)) (\<lambda>_.
          rd_bind (rd_check (if tree_hash H (rn_tree root) \<noteq> Some declared_hash
                             then invalid ''Tree v2 declared root hash is invalid'' else Inr ())) (\<lambda>_.
            rd_return root)))))))))))))))))))))"

definition deserialize_root :: "(bytes \<Rightarrow> FileHash) \<Rightarrow> bytes \<Rightarrow> ChunkError + RootNodeV2" where
  "deserialize_root H bs =
     (if length bs < STORED_ROOT_HEADER_BYTES \<or> length bs > MAX_STORED_ROOT_BYTES
      then invalid ''Tree v2 stored root length is invalid''
      else and_then (decode_root_body H bs) (\<lambda>(root, _). Inr root))"

section \<open>Readers as relations\<close>

text \<open>Each reader succeeds exactly on the bytes its value is written as, followed by the rest.\<close>

lemma rd_bind_Inr [codec_simps]:
  "rd_bind r f bs = Inr (b, rest) \<longleftrightarrow> (\<exists>a mid. r bs = Inr (a, mid) \<and> f a mid = Inr (b, rest))"
  by (auto simp: rd_bind_def)

lemma rd_return_Inr [codec_simps]: "rd_return a bs = Inr (b, rest) \<longleftrightarrow> a = b \<and> rest = bs"
  by (auto simp: rd_return_def)

lemma rd_check_Inr [codec_simps]: "rd_check c bs = Inr (u, rest) \<longleftrightarrow> c = Inr () \<and> rest = bs"
  by (cases c) (auto simp: rd_check_def)

lemma rd_take_Inr [codec_simps]: "rd_take n bs = Inr (a, rest) \<longleftrightarrow> bs = a @ rest \<and> length a = n"
  by (auto simp: rd_take_def append_eq_conv_conj)

lemma rd_u8_Inr [codec_simps]: "rd_u8 bs = Inr (w, rest) \<longleftrightarrow> bs = w # rest"
  by (auto simp: rd_u8_def codec_simps length_Suc_conv)

lemma rd_u16_Inr [codec_simps]: "rd_u16 bs = Inr (w, rest) \<longleftrightarrow> bs = u16_le w @ rest"
  by (auto simp: rd_u16_def codec_simps le_of_le intro: exI [of _ "u16_le w"])

lemma rd_u32_Inr [codec_simps]: "rd_u32 bs = Inr (w, rest) \<longleftrightarrow> bs = u32_le w @ rest"
  by (auto simp: rd_u32_def codec_simps le_of_le intro: exI [of _ "u32_le w"])

lemma rd_u64_Inr [codec_simps]: "rd_u64 bs = Inr (w, rest) \<longleftrightarrow> bs = u64_le w @ rest"
  by (auto simp: rd_u64_def codec_simps le_of_le intro: exI [of _ "u64_le w"])

lemma rd_str_Inr [codec_simps]:
  "rd_str n m bs = Inr (s, rest) \<longleftrightarrow> bs = as_bytes s @ rest \<and> length s = n \<and> from_utf8_ok (as_bytes s)"
  by (auto simp: rd_str_def codec_simps intro: exI [of _ "as_bytes s"])

lemma rd_finish_Inr [codec_simps]: "rd_finish bs = Inr (u, rest) \<longleftrightarrow> bs = [] \<and> rest = []"
  by (auto simp: rd_finish_def)

text \<open>The same facts for running a reader on what was written.\<close>

lemma rd_runs:
  "rd_u8 (x # rest) = Inr (x, rest)"
  "rd_u16 (u16_le a @ rest) = Inr (a, rest)" "rd_u32 (u32_le b @ rest) = Inr (b, rest)"
  "rd_u64 (u64_le c @ rest) = Inr (c, rest)"
  "length t = n \<Longrightarrow> rd_take n (t @ rest) = Inr (t, rest)"
  "length s = n \<Longrightarrow> from_utf8_ok (as_bytes s) \<Longrightarrow> rd_str n m (as_bytes s @ rest) = Inr (s, rest)"
  "rd_check (Inr ()) rest = Inr ((), rest)" "rd_return v rest = Inr (v, rest)" "rd_finish [] = Inr ((), [])"
  by (simp_all add: codec_simps)

lemma rd_bind_run: "r bs = Inr (a, mid) \<Longrightarrow> rd_bind r f bs = f a mid"
  by (simp add: rd_bind_def)

lemma rd_many_Inr:
  assumes "\<And>bs x rest. r bs = Inr (x, rest) \<longleftrightarrow> bs = enc x @ rest \<and> ok x"
  shows "rd_many n r bs = Inr (xs, rest) \<longleftrightarrow>
    length xs = n \<and> bs = concat (map enc xs) @ rest \<and> (\<forall>x \<in> set xs. ok x)"
proof (induction n arbitrary: bs xs)
  case (Suc n)
  show ?case by (cases xs) (auto simp: codec_simps assms Suc)
qed (auto simp: codec_simps)

lemma if_invalid_Inr [codec_simps]: "((if b then invalid m else Inr ()) = Inr ()) \<longleftrightarrow> \<not> b"
  by simp

section \<open>Validation as predicates\<close>

lemma adjacent_strict: "adjacent (\<lambda>a b. f a < f b) xs \<longleftrightarrow> sorted_wrt (\<lambda>a b. f a < (f b :: 'k :: linorder)) xs"
proof (induction xs rule: induct_list012)
  case (3 x y zs)
  then have "adjacent (\<lambda>a b. f a < f b) (x # y # zs) \<longleftrightarrow> f x < f y \<and> sorted_wrt (\<lambda>a b. f a < f b) (y # zs)"
    by (simp add: adjacent_def)
  then show ?case using order.strict_trans by auto
qed (simp_all add: adjacent_def)

definition path_ok :: "string \<Rightarrow> bool" where
  "path_ok path \<longleftrightarrow> validate_path path = Inr ()"

lemma path_ok_length: "path_ok path \<Longrightarrow> 0 < length path \<and> length path \<le> MAX_PATH_BYTES"
  by (auto simp: path_ok_def validate_path_def split: if_splits)

definition entries_ok :: "FileEntry list \<Rightarrow> bool" where
  "entries_ok es \<longleftrightarrow> length es \<le> MAX_LOADED_ENTRIES \<and> (\<forall>e \<in> set es. path_ok (fe_path e)) \<and> sorted_entries es"

lemma validate_entries_Inr [codec_simps]: "validate_entries es = Inr u \<longleftrightarrow> entries_ok es"
proof -
  have "sorted_wrt (\<lambda>a b. fe_path a < fe_path b) es \<longleftrightarrow> sorted_entries es"
    by (simp add: sorted_entries_def sorted_wrt_map)
  then show ?thesis
    by (auto simp: validate_entries_def entries_ok_def path_ok_def adjacent_strict split: if_splits)
qed

definition entry_typed :: "FileEntry \<Rightarrow> bool" where
  "entry_typed e \<longleftrightarrow> hash_ok (fe_hash e) \<and> from_utf8_ok (as_bytes (fe_path e))"

definition range_typed :: "RangeRef \<Rightarrow> bool" where
  "range_typed r \<longleftrightarrow> hash_ok (rr_hash r) \<and> from_utf8_ok (as_bytes (rr_min_path r)) \<and> from_utf8_ok (as_bytes (rr_max_path r))"

definition range_ok :: "RangeRef \<Rightarrow> bool" where
  "range_ok r \<longleftrightarrow> validate_range r = Inr ()"

lemma range_ok_paths: "range_ok r \<Longrightarrow> path_ok (rr_min_path r) \<and> path_ok (rr_max_path r) \<and> rr_min_path r \<le> rr_max_path r"
  by (auto simp: range_ok_def validate_range_def path_ok_def split: if_splits)

definition ranges_ok :: "u16 \<Rightarrow> RangeRef list \<Rightarrow> bool" where
  "ranges_ok h rs \<longleftrightarrow> (\<forall>r \<in> set rs. rr_height r = h \<and> range_ok r)
     \<and> sorted_wrt (\<lambda>a b. rr_max_path a < rr_min_path b) rs"

lemma adjacent_ranges:
  assumes "\<forall>r \<in> set rs. range_ok r"
  shows "adjacent (\<lambda>a b. rr_max_path a < rr_min_path b \<and> rr_max_path a < rr_max_path b) rs \<longleftrightarrow>
    sorted_wrt (\<lambda>a b. rr_max_path a < rr_min_path b) rs"
  using assms
proof (induction rs rule: induct_list012)
  case (3 x y zs)
  then have IH: "adjacent (\<lambda>a b. rr_max_path a < rr_min_path b \<and> rr_max_path a < rr_max_path b) (y # zs) \<longleftrightarrow>
      sorted_wrt (\<lambda>a b. rr_max_path a < rr_min_path b) (y # zs)" by simp
  have y: "rr_min_path y \<le> rr_max_path y" using 3 range_ok_paths by auto
  then have "rr_max_path x < rr_min_path y \<Longrightarrow> \<forall>z \<in> set zs. rr_max_path y < rr_min_path z \<Longrightarrow>
      \<forall>z \<in> set zs. rr_max_path x < rr_min_path z"
    by (meson order.strict_trans1 order.strict_trans)
  with IH y show ?case by (auto simp: adjacent_def)
qed (simp_all add: adjacent_def)

lemma validate_ranges_Inr [codec_simps]: "validate_ranges rs h = Inr u \<longleftrightarrow> ranges_ok h rs"
proof -
  have "(\<forall>r \<in> set rs. (if rr_height r \<noteq> h then invalid ''Tree v2 range height is inconsistent'' else validate_range r) = Inr ())
      \<longleftrightarrow> (\<forall>r \<in> set rs. rr_height r = h \<and> range_ok r)"
    by (auto simp: range_ok_def)
  then show ?thesis
    using adjacent_ranges [of rs] by (auto simp: validate_ranges_def ranges_ok_def split: if_splits)
qed

section \<open>The codecs are exact\<close>

lemma length_u16: "path_ok p \<Longrightarrow> unat (of_nat (length p) :: u16) = length p"
  using path_ok_length [of p] by (intro unat_of_nat_u16) (simp add: tree_limits)

lemma u16_length_conv: "length p = unat (w :: u16) \<longleftrightarrow> w = of_nat (length p) \<and> length p < 65536"
  using unsigned_less [of w, where ?'a = nat] by (auto simp: unat_of_nat_u16)

lemma decode_entry_Inr:
  "decode_entry bs = Inr (e, rest) \<longleftrightarrow> bs = encode_entry e @ rest \<and> entry_typed e \<and> path_ok (fe_path e)"
proof
  assume "decode_entry bs = Inr (e, rest)"
  then show "bs = encode_entry e @ rest \<and> entry_typed e \<and> path_ok (fe_path e)"
    by (auto simp: decode_entry_def codec_simps encode_entry_def entry_typed_def path_ok_def split: if_splits)
next
  assume *: "bs = encode_entry e @ rest \<and> entry_typed e \<and> path_ok (fe_path e)"
  have "of_nat (length (fe_path e)) \<noteq> (0 :: u16)" "\<not> MAX_PATH_BYTES < length (fe_path e)"
    using * path_ok_length [of "fe_path e"] length_u16 [of "fe_path e"] by (auto simp del: word_of_nat_eq_0_iff)
  with * length_u16 [of "fe_path e"] show "decode_entry bs = Inr (e, rest)"
    by (simp add: decode_entry_def rd_bind_run rd_runs encode_entry_def entry_typed_def path_ok_def
        del: word_of_nat_eq_0_iff)
qed

lemma encode_range_ref_Inr: "encode_range_ref r = Inr b \<longleftrightarrow> range_ok r \<and> b = range_bytes r"
  using range_ok_paths [of r] path_ok_length [of "rr_min_path r"] path_ok_length [of "rr_max_path r"]
  by (auto simp: encode_range_ref_def range_ok_def tree_limits split: if_splits)

lemma encode_range_refs_Inr:
  "encode_range_refs rs = Inr b \<longleftrightarrow> (\<forall>r \<in> set rs. range_ok r) \<and> b = concat (map range_bytes rs)"
  by (induction rs arbitrary: b) (auto simp: encode_range_ref_Inr)

lemma decode_range_ref_Inr:
  "decode_range_ref h bs = Inr (r, rest) \<longleftrightarrow>
     bs = range_bytes r @ rest \<and> range_typed r \<and> range_ok r \<and> rr_height r = h"
proof
  assume "decode_range_ref h bs = Inr (r, rest)"
  then show "bs = range_bytes r @ rest \<and> range_typed r \<and> range_ok r \<and> rr_height r = h"
    by (auto simp: decode_range_ref_def Let_def codec_simps range_bytes_def range_typed_def range_ok_def split: if_splits)
next
  assume *: "bs = range_bytes r @ rest \<and> range_typed r \<and> range_ok r \<and> rr_height r = h"
  then have p: "path_ok (rr_min_path r)" "path_ok (rr_max_path r)" using range_ok_paths by auto
  have n: "of_nat (length (rr_min_path r)) \<noteq> (0 :: u16)" "\<not> MAX_PATH_BYTES < length (rr_min_path r)"
     "of_nat (length (rr_max_path r)) \<noteq> (0 :: u16)" "\<not> MAX_PATH_BYTES < length (rr_max_path r)"
    using p [THEN path_ok_length] p [THEN length_u16] by (auto simp del: word_of_nat_eq_0_iff)
  have eq: "\<lparr>rr_min_path = rr_min_path r, rr_max_path = rr_max_path r, rr_hash = rr_hash r,
      rr_file_count = rr_file_count r, rr_serialized_bytes = rr_serialized_bytes r, rr_height = rr_height r\<rparr> = r"
    by simp
  show "decode_range_ref h bs = Inr (r, rest)"
    using * n p [THEN length_u16]
    by (auto simp: decode_range_ref_def Let_def rd_bind_run rd_runs range_bytes_def range_typed_def range_ok_def eq
        simp del: word_of_nat_eq_0_iff)
qed

lemma foldl_plus: "foldl (\<lambda>sum x. sum + f x) (n :: nat) xs = n + sum_list (map f xs)"
  by (induction xs arbitrary: n) simp_all

lemma encode_leaf_Inr:
  "encode_leaf es = Inr bs \<longleftrightarrow> entries_ok es \<and> length es \<le> MAX_LEAF_ENTRIES
     \<and> LEAF_HEADER_BYTES + sum_list (map leaf_record_len es) \<le> MAX_NODE_BYTES
     \<and> bs = LEAF_MAGIC @ u32_le (of_nat (length es)) @ concat (map encode_entry es)"
  by (auto simp: encode_leaf_def codec_simps foldl_plus split: if_splits)

lemma encode_internal_Inr:
  "encode_internal h rs = Inr bs \<longleftrightarrow> rs \<noteq> [] \<and> length rs \<le> MAX_INTERNAL_CHILDREN \<and> ranges_ok h rs
     \<and> INTERNAL_HEADER_BYTES + sum_list (map range_record_len rs) \<le> MAX_NODE_BYTES
     \<and> bs = INTERNAL_MAGIC @ u16_le h @ u16_le 0 @ u32_le (of_nat (length rs)) @ concat (map range_bytes rs)"
  by (auto simp: encode_internal_def codec_simps foldl_plus encode_range_refs_Inr ranges_ok_def split: if_splits)

lemma magic_lengths [simp]: "length LEAF_MAGIC = 4" "length INTERNAL_MAGIC = 4" "length ROOT_MAGIC = 4"
  by (simp_all add: LEAF_MAGIC_def INTERNAL_MAGIC_def ROOT_MAGIC_def)

lemma magic_distinct: "LEAF_MAGIC \<noteq> INTERNAL_MAGIC"
  by (simp add: LEAF_MAGIC_def INTERNAL_MAGIC_def)

lemma length_encode_entry: "entry_typed e \<Longrightarrow> length (encode_entry e) = leaf_record_len e"
  by (simp add: encode_entry_def entry_typed_def leaf_record_len_def)

lemma length_range_bytes: "range_typed r \<Longrightarrow> length (range_bytes r) = range_record_len r"
  by (simp add: range_bytes_def range_typed_def range_record_len_def)

lemma length_encode_entries:
  "\<forall>e \<in> set es. entry_typed e \<Longrightarrow> length (concat (map encode_entry es)) = sum_list (map leaf_record_len es)"
  by (induction es) (auto simp: length_encode_entry)

lemma length_encode_ranges:
  "\<forall>r \<in> set rs. range_typed r \<Longrightarrow> length (concat (map range_bytes rs)) = sum_list (map range_record_len rs)"
  by (induction rs) (auto simp: length_range_bytes)

lemma counted_nonempty: "length xs = unat (w :: u32) \<Longrightarrow> w \<noteq> 0 \<Longrightarrow> xs \<noteq> [] \<and> w = of_nat (length xs)
     \<and> unat (of_nat (length xs) :: u32) = length xs"
  by (auto simp: word_unat_eq_iff)

lemma decode_leaf_body_Inr:
  "decode_leaf_body bs = Inr (node, rest) \<longleftrightarrow>
     (\<exists>magic es. node = Leaf es \<and> rest = [] \<and> length magic = 4 \<and> es \<noteq> [] \<and> length es \<le> MAX_LEAF_ENTRIES
        \<and> entries_ok es \<and> (\<forall>e \<in> set es. entry_typed e)
        \<and> bs = magic @ u32_le (of_nat (length es)) @ concat (map encode_entry es))"
  (is "?l \<longleftrightarrow> ?r")
proof
  assume ?l
  then show ?r
    by (auto simp: decode_leaf_body_def codec_simps rd_many_Inr [OF decode_entry_Inr] word_unat_eq_iff)
next
  assume ?r
  then obtain magic es where *: "node = Leaf es" "rest = []" "length magic = 4" "es \<noteq> []" "length es \<le> MAX_LEAF_ENTRIES"
      "entries_ok es" "\<forall>e \<in> set es. entry_typed e" "bs = magic @ u32_le (of_nat (length es)) @ concat (map encode_entry es)"
    by blast
  have n: "unat (of_nat (length es) :: u32) = length es"
    using *(5) by (intro unat_of_nat_u32) (simp add: tree_limits)
  have many: "rd_many (length es) decode_entry (concat (map encode_entry es)) = Inr (es, [])"
    using *(6,7) by (simp add: rd_many_Inr [OF decode_entry_Inr] entries_ok_def)
  have "of_nat (length es) \<noteq> (0 :: u32)" using n *(4) by (auto simp del: word_of_nat_eq_0_iff)
  with * n many show ?l
    by (simp add: decode_leaf_body_def rd_bind_run rd_runs codec_simps del: word_of_nat_eq_0_iff)
qed

lemma decode_internal_body_Inr:
  "decode_internal_body bs = Inr (node, rest) \<longleftrightarrow>
     (\<exists>magic h rs. node = Internal h rs \<and> rest = [] \<and> length magic = 4 \<and> rs \<noteq> [] \<and> length rs \<le> MAX_INTERNAL_CHILDREN
        \<and> h < MAX_TREE_DEPTH \<and> ranges_ok h rs \<and> (\<forall>r \<in> set rs. range_typed r)
        \<and> bs = magic @ u16_le h @ u16_le 0 @ u32_le (of_nat (length rs)) @ concat (map range_bytes rs))"
  (is "?l \<longleftrightarrow> ?r")
proof
  assume ?l
  then show ?r
    by (auto simp: decode_internal_body_def codec_simps rd_many_Inr [OF decode_range_ref_Inr] not_le
        dest!: counted_nonempty)
next
  assume ?r
  then obtain magic h rs where *: "node = Internal h rs" "rest = []" "length magic = 4" "rs \<noteq> []" "length rs \<le> MAX_INTERNAL_CHILDREN"
      "h < MAX_TREE_DEPTH" "ranges_ok h rs" "\<forall>r \<in> set rs. range_typed r"
      "bs = magic @ u16_le h @ u16_le 0 @ u32_le (of_nat (length rs)) @ concat (map range_bytes rs)"
    by blast
  have n: "unat (of_nat (length rs) :: u32) = length rs"
    using *(5) by (intro unat_of_nat_u32) (simp add: tree_limits)
  have many: "rd_many (length rs) (decode_range_ref h) (concat (map range_bytes rs)) = Inr (rs, [])"
    using *(7,8) by (simp add: rd_many_Inr [OF decode_range_ref_Inr] ranges_ok_def)
  have "of_nat (length rs) \<noteq> (0 :: u32)" using n *(4) by (auto simp del: word_of_nat_eq_0_iff)
  with * n many show ?l
    by (simp add: decode_internal_body_def rd_bind_run rd_runs codec_simps not_le del: word_of_nat_eq_0_iff)
qed

lemma decode_node_Leaf:
  "decode_node bs = Inr (Leaf es) \<longleftrightarrow> encode_leaf es = Inr bs \<and> es \<noteq> [] \<and> (\<forall>e \<in> set es. entry_typed e)"
proof (cases "\<forall>e \<in> set es. entry_typed e")
  case True
  note len = length_encode_entries [OF True]
  have "(\<exists>rest. decode_leaf_body bs = Inr (Leaf es, rest)) \<and> take 4 bs = LEAF_MAGIC \<and> length bs \<le> MAX_NODE_BYTES
      \<longleftrightarrow> encode_leaf es = Inr bs \<and> es \<noteq> []"
    using True len by (auto simp: decode_leaf_body_Inr encode_leaf_Inr LEAF_HEADER_BYTES_def)
  moreover have "length bs \<ge> LEAF_HEADER_BYTES" if "encode_leaf es = Inr bs"
    using that by (auto simp: encode_leaf_Inr LEAF_HEADER_BYTES_def)
  ultimately show ?thesis using True magic_distinct
    by (auto simp: decode_node_def decode_internal_body_Inr split: if_splits)
next
  case False
  then show ?thesis
    by (auto simp: decode_node_def decode_internal_body_Inr decode_leaf_body_Inr split: if_splits)
qed

lemma decode_node_Internal:
  "decode_node bs = Inr (Internal h rs) \<longleftrightarrow>
     encode_internal h rs = Inr bs \<and> h < MAX_TREE_DEPTH \<and> (\<forall>r \<in> set rs. range_typed r)"
proof (cases "\<forall>r \<in> set rs. range_typed r")
  case True
  note len = length_encode_ranges [OF True]
  have "(\<exists>rest. decode_internal_body bs = Inr (Internal h rs, rest)) \<and> take 4 bs = INTERNAL_MAGIC \<and> length bs \<le> MAX_NODE_BYTES
      \<longleftrightarrow> encode_internal h rs = Inr bs \<and> h < MAX_TREE_DEPTH"
    using True len by (auto simp: decode_internal_body_Inr encode_internal_Inr INTERNAL_HEADER_BYTES_def)
  moreover have "length bs \<ge> INTERNAL_HEADER_BYTES" if "encode_internal h rs = Inr bs"
    using that by (auto simp: encode_internal_Inr INTERNAL_HEADER_BYTES_def)
  moreover have "LEAF_HEADER_BYTES \<le> INTERNAL_HEADER_BYTES" by (simp add: tree_limits)
  ultimately show ?thesis using True magic_distinct
    by (fastforce simp: decode_node_def decode_leaf_body_Inr split: if_splits)
next
  case False
  then show ?thesis
    by (auto simp: decode_node_def decode_internal_body_Inr decode_leaf_body_Inr split: if_splits)
qed

section \<open>Stored roots\<close>

definition root_typed :: "RootNodeV2 \<Rightarrow> bool" where
  "root_typed root \<longleftrightarrow> from_utf8_ok (as_bytes (rn_vault_id root)) \<and> from_utf8_ok (as_bytes (rn_device_id root))
     \<and> (\<forall>p. rn_parent_hash root = Some p \<longrightarrow> hash_ok p) \<and> (\<forall>c. tr_child (rn_tree root) = Some c \<longrightarrow> range_typed c)"

definition child_bytes :: "RangeRef option \<Rightarrow> bytes" where
  "child_bytes child = (case child of None \<Rightarrow> [] | Some c \<Rightarrow> u16_le (rr_height c) @ range_bytes c)"

definition root_bytes :: "(bytes \<Rightarrow> FileHash) \<Rightarrow> RootNodeV2 \<Rightarrow> bytes" where
  "root_bytes H root =
     ROOT_MAGIC @ u32_le TREE_VERSION @ u64_le (rn_created_ms root) @ u64_le (tr_total_files (rn_tree root))
     @ u16_le (of_nat (length (rn_vault_id root))) @ u16_le (of_nat (length (rn_device_id root)))
     @ root_flags root # [0, 0, 0] @ the (tree_hash H (rn_tree root))
     @ (case rn_parent_hash root of None \<Rightarrow> [] | Some parent \<Rightarrow> parent)
     @ child_bytes (tr_child (rn_tree root)) @ as_bytes (rn_vault_id root) @ as_bytes (rn_device_id root)"

lemma validate_root_Inr:
  "validate_root root = Inr u \<longleftrightarrow> validate_root_shape (rn_tree root) = Inr ()
     \<and> validate_root_id (rn_vault_id root) False = Inr () \<and> validate_root_id (rn_device_id root) True = Inr ()"
  by (auto simp: validate_root_def)

lemma root_shape_child:
  "validate_root_shape t = Inr () \<Longrightarrow> tr_version t = TREE_VERSION \<and> (\<forall>c. tr_child t = Some c \<longrightarrow> range_ok c)"
  by (auto simp: validate_root_shape_def range_ok_def split: if_splits option.splits)

lemma root_id_length:
  "validate_root_id v e = Inr () \<Longrightarrow> length v \<le> MAX_ROOT_ID_BYTES \<and> (\<not> e \<longrightarrow> v \<noteq> [])"
  by (auto simp: validate_root_id_def split: if_splits)

lemma tree_hash_ok:
  assumes "validate_root_shape t = Inr ()" "\<And>b. hash_ok (H b)"
  obtains d where "tree_hash H t = Some d" "hash_ok d"
proof -
  have "tree_hash_bytes t \<noteq> None"
    using root_shape_child [OF assms(1)] encode_range_ref_Inr
    by (auto simp: tree_hash_bytes_def Let_def split: option.splits sum.splits) (metis Inl_Inr_False)
  then show thesis using assms(2) that by (auto simp: tree_hash_def)
qed

lemma serialize_root_Inr:
  assumes "\<And>b. hash_ok (H b)" "root_typed root"
  shows "serialize_root H root = Inr bs \<longleftrightarrow>
    validate_root root = Inr () \<and> length (root_bytes H root) \<le> MAX_STORED_ROOT_BYTES \<and> bs = root_bytes H root"
proof (cases "validate_root root = Inr ()")
  case True
  note shape = conjunct1 [OF iffD1 [OF validate_root_Inr True]]
  obtain d where d: "tree_hash H (rn_tree root) = Some d" "hash_ok d" using tree_hash_ok [OF shape assms(1)] .
  have ids: "validate_root_id (rn_vault_id root) False = Inr ()" "validate_root_id (rn_device_id root) True = Inr ()"
    using iffD1 [OF validate_root_Inr True] by auto
  have len: "length (rn_vault_id root) \<le> 65535" "length (rn_device_id root) \<le> 65535"
    using ids [THEN root_id_length] by (simp_all add: tree_limits)
  show ?thesis
  proof (cases "tr_child (rn_tree root)")
    case None
    show ?thesis using True d ids len assms(2)
      by (auto simp: serialize_root_def serialized_length_def replacement_root_serialized_length_def None Let_def
          root_bytes_def child_bytes_def STORED_ROOT_HEADER_BYTES_def root_typed_def split: option.splits)
  next
    case (Some c)
    then have c: "range_ok c" "range_typed c" using root_shape_child [OF shape] assms(2) by (auto simp: root_typed_def)
    have p: "validate_path (rr_min_path c) = Inr ()" "validate_path (rr_max_path c) = Inr ()" "\<not> rr_min_path c > rr_max_path c"
      using range_ok_paths [OF c(1)] by (auto simp: path_ok_def)
    have b: "encode_range_ref c = Inr (range_bytes c)" using c(1) by (simp add: encode_range_ref_Inr)
    show ?thesis using True d ids len assms(2) p b length_range_bytes [OF c(2)]
      by (auto simp: serialize_root_def serialized_length_def replacement_root_serialized_length_def Some Let_def
          root_bytes_def child_bytes_def STORED_ROOT_HEADER_BYTES_def root_typed_def range_record_len_def split: option.splits)
  qed
next
  case False
  then show ?thesis by (cases "validate_root root") (auto simp: serialize_root_def serialized_length_def)
qed

lemma flag_cases:
  assumes "(w :: byte) AND NOT 3 = 0"
  obtains "w = 0" | "w = 1" | "w = 2" | "w = 3"
proof -
  have "w = (w AND 3) OR (w AND NOT 3)" by (simp add: bit_eq_iff bit_simps) blast
  then have "w = w AND 3" using assms by simp
  then have "w \<le> 3" by (metis word_and_le1)
  then have "unat w \<le> 3" by (simp add: word_le_nat_alt)
  then have "unat w = 0 \<or> unat w = 1 \<or> unat w = 2 \<or> unat w = 3" by linarith
  then show thesis using that by (auto simp: word_unat_eq_iff)
qed

lemma decode_root_body_sound:
  assumes "decode_root_body H bs = Inr (root, rest)"
  shows "rest = [] \<and> bs = root_bytes H root \<and> root_typed root \<and> validate_root root = Inr ()"
proof -
  from assms obtain created total vlen dlen flags dh parent child vault device where
    flags: "flags AND NOT 3 = 0" and dh: "length dh = 32"
    and parent: "(if flags AND 1 \<noteq> 0 then \<exists>p. parent = Some p \<and> hash_ok p else parent = None)"
    and child: "(if flags AND 2 \<noteq> 0 then \<exists>c. child = Some c \<and> range_typed c \<and> range_ok c else child = None)"
    and ids: "length vault = unat vlen" "length device = unat dlen" "from_utf8_ok (as_bytes vault)" "from_utf8_ok (as_bytes device)"
    and root: "root = \<lparr>rn_vault_id = vault, rn_created_ms = created,
        rn_tree = \<lparr>tr_version = TREE_VERSION, tr_total_files = total, tr_child = child\<rparr>,
        rn_parent_hash = parent, rn_device_id = device\<rparr>"
    and ok: "validate_root root = Inr ()" "tree_hash H (rn_tree root) = Some dh" "rest = []"
    and bs: "bs = ROOT_MAGIC @ u32_le TREE_VERSION @ u64_le created @ u64_le total @ u16_le vlen @ u16_le dlen
        @ flags # [0, 0, 0] @ dh @ (case parent of None \<Rightarrow> [] | Some p \<Rightarrow> p) @ child_bytes child
        @ as_bytes vault @ as_bytes device"
    by (auto simp: decode_root_body_def Let_def codec_simps decode_range_ref_Inr child_bytes_def split: if_splits)
       (force simp: codec_simps decode_range_ref_Inr)+
  have lens: "vlen = of_nat (length vault)" "dlen = of_nat (length device)" using ids by simp_all
  have "root_flags root = flags"
    using flags
  proof (cases rule: flag_cases)
  qed (use parent child in \<open>auto simp: root root_flags_def\<close>)
  with bs ok lens have "bs = root_bytes H root" by (simp add: root_bytes_def root)
  moreover have "root_typed root" using parent child ids by (auto simp: root_typed_def root split: if_splits)
  ultimately show ?thesis using ok by simp
qed

lemma decode_root_body_complete:
  assumes H: "\<And>b. hash_ok (H b)" and typed: "root_typed root" and ok: "validate_root root = Inr ()"
  shows "decode_root_body H (root_bytes H root) = Inr (root, [])"
proof -
  note shape = conjunct1 [OF iffD1 [OF validate_root_Inr ok]]
  obtain d where d: "tree_hash H (rn_tree root) = Some d" "hash_ok d" using tree_hash_ok [OF shape H] .
  have ids: "validate_root_id (rn_vault_id root) False = Inr ()" "validate_root_id (rn_device_id root) True = Inr ()"
    using iffD1 [OF validate_root_Inr ok] by auto
  have len: "unat (of_nat (length (rn_vault_id root)) :: u16) = length (rn_vault_id root)"
      "unat (of_nat (length (rn_device_id root)) :: u16) = length (rn_device_id root)"
    using ids [THEN root_id_length] by (auto intro!: unat_of_nat_u16 simp: tree_limits)
  have vault: "(of_nat (length (rn_vault_id root)) :: u16) \<noteq> 0"
    using root_id_length [OF ids(1)] len(1) by (auto simp del: word_of_nat_eq_0_iff)
  have caps: "\<not> MAX_ROOT_ID_BYTES < length (rn_vault_id root)" "\<not> MAX_ROOT_ID_BYTES < length (rn_device_id root)"
    using ids [THEN root_id_length] by auto
  define t where "t = rn_tree root"
  have eq: "\<lparr>rn_vault_id = rn_vault_id root, rn_created_ms = rn_created_ms root,
      rn_tree = \<lparr>tr_version = TREE_VERSION, tr_total_files = tr_total_files t, tr_child = tr_child t\<rparr>,
      rn_parent_hash = rn_parent_hash root, rn_device_id = rn_device_id root\<rparr> = root"
    using root_shape_child [OF shape] by (simp add: t_def)
  have utf: "from_utf8_ok (as_bytes (rn_vault_id root))" "from_utf8_ok (as_bytes (rn_device_id root))"
    using typed by (auto simp: root_typed_def)
  have parent: "rd_bind (if root_flags root AND 1 \<noteq> 0 then rd_bind (rd_take 32) (\<lambda>p. rd_return (Some p)) else rd_return None) f
      ((case rn_parent_hash root of None \<Rightarrow> [] | Some p \<Rightarrow> p) @ rest) = f (rn_parent_hash root) rest" for f rest
    using typed by (cases "rn_parent_hash root"; cases "tr_child (rn_tree root)")
      (auto simp: root_flags_def root_typed_def rd_bind_run rd_runs)
  have child: "rd_bind (if root_flags root AND 2 \<noteq> 0
        then rd_bind rd_u16 (\<lambda>height. rd_bind (decode_range_ref height) (\<lambda>c. rd_return (Some c))) else rd_return None) f
      (child_bytes (tr_child t) @ rest) = f (tr_child t) rest" for f rest
  proof (cases "tr_child t")
    case None
    then show ?thesis by (cases "rn_parent_hash root") (auto simp: root_flags_def t_def child_bytes_def rd_bind_run rd_runs)
  next
    case (Some c)
    then have c: "range_ok c" "range_typed c" using root_shape_child [OF shape] typed by (auto simp: root_typed_def t_def)
    have "decode_range_ref (rr_height c) (range_bytes c @ rest) = Inr (c, rest)" using c by (simp add: decode_range_ref_Inr)
    then show ?thesis using Some
      by (cases "rn_parent_hash root") (auto simp: root_flags_def t_def child_bytes_def rd_bind_run rd_runs)
  qed
  have flags: "root_flags root AND NOT 3 = 0"
    by (cases "rn_parent_hash root"; cases "tr_child (rn_tree root)") (auto simp: root_flags_def)
  have tq: "\<lparr>tr_version = TREE_VERSION, tr_total_files = tr_total_files t, tr_child = tr_child t\<rparr> = t"
    using root_shape_child [OF shape] by (simp add: t_def)
  have device: "rd_str (length (rn_device_id root)) m (as_bytes (rn_device_id root)) = Inr (rn_device_id root, [])" for m
    using utf by (simp add: rd_str_Inr)
  have zeros: "rd_take 3 (0 # 0 # 0 # rest) = Inr ([0, 0, 0], rest)" for rest :: bytes
    by (simp add: rd_take_def)
  show ?thesis
    using d len vault caps utf flags ok
    by (simp add: decode_root_body_def root_bytes_def rd_bind_run rd_runs zeros parent [simplified] child [simplified] Let_def
        t_def [symmetric] tq device eq [unfolded tq] del: word_of_nat_eq_0_iff)
qed

lemma deserialize_root_Inr:
  assumes H: "\<And>b. hash_ok (H b)"
  shows "deserialize_root H bs = Inr root \<longleftrightarrow> serialize_root H root = Inr bs \<and> root_typed root"
proof
  assume *: "deserialize_root H bs = Inr root"
  then obtain rest where "decode_root_body H bs = Inr (root, rest)" and len: "length bs \<le> MAX_STORED_ROOT_BYTES"
    by (auto simp: deserialize_root_def split: if_splits)
  note sound = decode_root_body_sound [OF this(1)]
  then have "root_typed root" by blast
  from serialize_root_Inr [OF H this] sound len show "serialize_root H root = Inr bs \<and> root_typed root" by simp
next
  assume *: "serialize_root H root = Inr bs \<and> root_typed root"
  then have s: "validate_root root = Inr ()" "length (root_bytes H root) \<le> MAX_STORED_ROOT_BYTES" "bs = root_bytes H root"
    using serialize_root_Inr [where H = H and root = root and bs = bs, OF H] by blast+
  obtain d where "tree_hash H (rn_tree root) = Some d" "hash_ok d"
    using tree_hash_ok [OF conjunct1 [OF iffD1 [OF validate_root_Inr s(1)]] H] .
  then have "STORED_ROOT_HEADER_BYTES \<le> length bs" by (simp add: s(3) root_bytes_def STORED_ROOT_HEADER_BYTES_def)
  with s * decode_root_body_complete [OF H] show "deserialize_root H bs = Inr root"
    by (simp add: deserialize_root_def)
qed

section \<open>Properties\<close>

text \<open>(C9) The leaf codec is exact: a byte string decodes to a leaf precisely when it is the encoding of
  that leaf, so encoding and decoding are inverse and every leaf has one byte form.\<close>

theorem leaf_codec_exact:
  "decode_node bs = Inr (Leaf es) \<longleftrightarrow> encode_leaf es = Inr bs \<and> es \<noteq> [] \<and> list_all entry_typed es"
  by (simp add: decode_node_Leaf list_all_iff)

text \<open>(C10) The internal-node codec is exact in the same sense, for child heights below the depth limit.\<close>

theorem internal_codec_exact:
  "decode_node bs = Inr (Internal h rs) \<longleftrightarrow>
     encode_internal h rs = Inr bs \<and> h < MAX_TREE_DEPTH \<and> list_all range_typed rs"
  by (simp add: decode_node_Internal list_all_iff)

text \<open>(C11) The stored-root codec is exact: with a 32-byte hash, deserialising succeeds precisely on the
  serialisation of the root it returns, declared hash included.\<close>

theorem root_codec_exact:
  assumes "\<And>b. length (H b) = 32"
  shows "deserialize_root H bs = Inr root \<longleftrightarrow> serialize_root H root = Inr bs \<and> root_typed root"
  using deserialize_root_Inr assms by blast

theorem root_codec_exact_witness:
  "\<exists>bs. serialize_root (\<lambda>b. replicate 32 7)
      \<lparr>rn_vault_id = ''v'', rn_created_ms = 5, rn_tree = \<lparr>tr_version = 2, tr_total_files = 0, tr_child = None\<rparr>,
       rn_parent_hash = None, rn_device_id = []\<rparr> = Inr bs
    \<and> deserialize_root (\<lambda>b. replicate 32 7) bs = Inr
      \<lparr>rn_vault_id = ''v'', rn_created_ms = 5, rn_tree = \<lparr>tr_version = 2, tr_total_files = 0, tr_child = None\<rparr>,
       rn_parent_hash = None, rn_device_id = []\<rparr>"
proof -
  let ?H = "\<lambda>b :: bytes. replicate 32 (7 :: byte)"
  let ?root = "\<lparr>rn_vault_id = ''v'', rn_created_ms = 5, rn_tree = \<lparr>tr_version = 2, tr_total_files = 0, tr_child = None\<rparr>,
       rn_parent_hash = None, rn_device_id = []\<rparr>"
  have typed: "root_typed ?root"
    by (simp add: root_typed_def as_bytes_def from_utf8_ok_ascii)
  have "validate_root ?root = Inr ()"
    by (simp add: validate_root_Inr validate_root_shape_def TREE_VERSION_def validate_root_id_def has_control_def
        as_bytes_def str_chars_ascii is_control_def tree_limits)
  then have "serialize_root ?H ?root = Inr (root_bytes ?H ?root)"
    using typed by (simp add: serialize_root_Inr root_bytes_def child_bytes_def tree_hash_def tree_hash_bytes_def tree_limits)
  with root_codec_exact [of ?H "root_bytes ?H ?root" ?root] typed show ?thesis by auto
qed

lemma tree_hash_bytes_inj:
  assumes "validate_root_shape t = Inr ()" "validate_root_shape t' = Inr ()"
    "list_all range_typed (case tr_child t of None \<Rightarrow> [] | Some c \<Rightarrow> [c])"
    "list_all range_typed (case tr_child t' of None \<Rightarrow> [] | Some c \<Rightarrow> [c])"
    "tree_hash_bytes t = tree_hash_bytes t'"
  shows "t = t'"
proof -
  note shape = root_shape_child [OF assms(1)] root_shape_child [OF assms(2)]
  have rr: "encode_range_ref c = Inr (range_bytes c)" if "tr_child t = Some c \<or> tr_child t' = Some c" for c
    using shape that by (auto simp: encode_range_ref_Inr)
  have pre: "tree_hash_bytes u = Some (ROOT_MAGIC @ u32_le (tr_version u) @ u64_le (tr_total_files u)
      @ (case tr_child u of None \<Rightarrow> [0] | Some c \<Rightarrow> 1 # u16_le (rr_height c) @ range_bytes c))" if "u = t \<or> u = t'" for u
    using that rr by (auto simp: tree_hash_bytes_def split: option.splits)
  have u64: "u64_le a = u64_le b \<longleftrightarrow> a = b" for a b by (metis u_of_le_le(3))
  have "tr_total_files t = tr_total_files t' \<and>
      (case tr_child t of None \<Rightarrow> [0] | Some c \<Rightarrow> 1 # u16_le (rr_height c) @ range_bytes c) =
      (case tr_child t' of None \<Rightarrow> [0] | Some c \<Rightarrow> 1 # u16_le (rr_height c) @ range_bytes c)"
    using assms(5) pre [of t] pre [of t'] by (simp add: append_eq_append_conv u64)
  moreover have "c = c'" if "tr_child t = Some c" "tr_child t' = Some c'"
    "u16_le (rr_height c) @ range_bytes c = u16_le (rr_height c') @ range_bytes c'" for c c'
  proof -
    have h: "rr_height c = rr_height c'" "range_bytes c = range_bytes c'"
      using that(3) by (auto simp: append_eq_append_conv) (metis u_of_le_le(1))
    have "decode_range_ref (rr_height c) (range_bytes c @ []) = Inr (c, [])"
      "decode_range_ref (rr_height c') (range_bytes c' @ []) = Inr (c', [])"
      using shape assms(3,4) that(1,2) by (auto simp: decode_range_ref_Inr [where rest = "[]", simplified])
    with h show ?thesis by simp
  qed
  ultimately have "tr_total_files t = tr_total_files t'" "tr_child t = tr_child t'"
    by (auto split: option.splits)
  with shape show ?thesis by (cases t; cases t') simp
qed

text \<open>(C12) The root hash binds the whole tree descriptor: two valid roots with the same hash preimage are
  the same root.\<close>

theorem tree_hash_binds_root:
  assumes "validate_root_shape t = Inr ()" "validate_root_shape t' = Inr ()"
    "list_all range_typed (case tr_child t of None \<Rightarrow> [] | Some c \<Rightarrow> [c])"
    "list_all range_typed (case tr_child t' of None \<Rightarrow> [] | Some c \<Rightarrow> [c])"
    "tree_hash_bytes t = tree_hash_bytes t'"
  shows "t = t'"
  using assms by (rule tree_hash_bytes_inj)

theorem tree_hash_binds_root_witness:
  "let c = \<lparr>rr_min_path = ''a'', rr_max_path = ''b'', rr_hash = ZERO_HASH, rr_file_count = 2, rr_serialized_bytes = 100, rr_height = 0\<rparr>;
       d = c\<lparr>rr_max_path := ''c''\<rparr>;
       t = \<lparr>tr_version = 2, tr_total_files = 2, tr_child = Some c\<rparr>; t' = t\<lparr>tr_child := Some d\<rparr>; t'' = t'\<lparr>tr_child := Some (d\<lparr>rr_max_path := ''b''\<rparr>)\<rparr> in
   validate_root_shape t = Inr () \<and> validate_root_shape t' = Inr () \<and> range_typed c \<and> range_typed d
   \<and> tree_hash_bytes t \<noteq> None \<and> tree_hash_bytes t \<noteq> tree_hash_bytes t' \<and> tree_hash_bytes t = tree_hash_bytes t'' \<and> t = t''"
proof -
  let ?c = "\<lparr>rr_min_path = ''a'', rr_max_path = ''b'', rr_hash = ZERO_HASH, rr_file_count = 2, rr_serialized_bytes = 100, rr_height = 0\<rparr>"
  let ?d = "?c\<lparr>rr_max_path := ''c''\<rparr>"
  let ?t = "\<lparr>tr_version = 2, tr_total_files = 2, tr_child = Some ?c\<rparr>" and ?t' = "\<lparr>tr_version = 2, tr_total_files = 2, tr_child = Some ?d\<rparr>"
  have path: "validate_path [x] = Inr ()" if "x \<in> {CHR ''a'', CHR ''b'', CHR ''c''}" for x
    using that by (auto simp: validate_path_def has_control_def str_chars_ascii as_bytes_def is_control_def tree_limits)
  then have rng: "validate_range ?c = Inr ()" "validate_range ?d = Inr ()"
    by (simp_all add: validate_range_def tree_limits)
  then have ok: "validate_root_shape ?t = Inr ()" "validate_root_shape ?t' = Inr ()"
    by (simp_all add: validate_root_shape_def TREE_VERSION_def MAX_TREE_DEPTH_def)
  have typed: "range_typed ?c" "range_typed ?d" by (simp_all add: range_typed_def ZERO_HASH_def as_bytes_def from_utf8_ok_ascii)
  have "tree_hash_bytes ?t \<noteq> None"
    using rng(1) by (simp add: tree_hash_bytes_def encode_range_ref_def Let_def)
  moreover have "tree_hash_bytes ?t \<noteq> tree_hash_bytes ?t'"
    using tree_hash_binds_root [OF ok] typed by auto
  moreover have "?t = ?t" using tree_hash_binds_root [OF ok(1) ok(1)] typed(1) by simp
  ultimately show ?thesis using ok typed by simp
qed

end
