(* ===== verification/Tree_V2_Segment.thy ===== *)
theory Tree_V2_Segment
  imports Tree_V2_Codec
begin

unbundle bit_operations_syntax

text \<open>
  Content-defined segmentation of Tree v2 (\<open>tree_v2.rs\<close>: \<open>gear_hash\<close>, \<open>segment_by\<close>,
  \<open>segment_entries\<close>, \<open>segment_ranges\<close>). The loop of \<open>segment_by\<close> asks its closures for the encoded
  length and the key of each record; here a record is that pair. Segments tile the input, fit
  the node caps, and a boundary that does not depend on the record after it is a point where the
  segmentation restarts.
\<close>

section \<open>Fingerprint\<close>

definition gear_word :: "u64 \<Rightarrow> u64" where
  "gear_word value =
     (let mixed = value + 0x9e3779b97f4a7c15;
          mixed = (mixed XOR drop_bit 30 mixed) * 0xbf58476d1ce4e5b9;
          mixed = (mixed XOR drop_bit 27 mixed) * 0x94d049bb133111eb
      in mixed XOR drop_bit 31 mixed)"

definition gear_hash :: "bytes \<Rightarrow> u64" where
  "gear_hash path = foldl (\<lambda>state byte. word_rotl 1 state + gear_word (of_nat (unat byte))) 0 path"

section \<open>Segments\<close>

definition MIN_LEAF_ENTRIES :: nat where "MIN_LEAF_ENTRIES = 128"
definition MIN_LEAF_BYTES :: nat where "MIN_LEAF_BYTES = 32 * 1024"
definition LEAF_ANCHOR_MASK :: u64 where "LEAF_ANCHOR_MASK = 0x7f"
definition MIN_INTERNAL_CHILDREN :: nat where "MIN_INTERNAL_CHILDREN = 32"
definition INTERNAL_ANCHOR_MASK :: u64 where "INTERNAL_ANCHOR_MASK = 0x1f"

record Segment =
  seg_start :: nat
  seg_end :: nat
  stable_end :: bool

text \<open>The constants a caller passes.\<close>

record SegmentBounds =
  header_bytes :: nat
  min_records :: nat
  max_records :: nat
  min_bytes :: nat
  anchor_mask :: u64

type_synonym seg_record = "nat \<times> bytes"

text \<open>One turn of the loop at position \<open>index\<close>, from the current \<open>start\<close>, \<open>bytes\<close> and \<open>output\<close>:
  the open segment is closed first when the record does not fit it, then the record joins the
  open segment, which it may end.\<close>

type_synonym seg_state = "nat \<times> nat \<times> Segment list"

definition segment_flush :: "SegmentBounds \<Rightarrow> nat \<Rightarrow> nat \<Rightarrow> seg_state \<Rightarrow> seg_state" where
  "segment_flush b len index s =
     (case s of (start, bytes, output) \<Rightarrow>
        if index > start \<and> (index - start \<ge> max_records b \<or> bytes + len > MAX_NODE_BYTES)
        then (index, header_bytes b, output @ [\<lparr>seg_start = start, seg_end = index, stable_end = True\<rparr>])
        else s)"

definition segment_take :: "SegmentBounds \<Rightarrow> seg_record \<Rightarrow> nat \<Rightarrow> seg_state \<Rightarrow> seg_state" where
  "segment_take b r index s =
     (case (r, s) of ((len, key), (start, bytes, output)) \<Rightarrow>
        let bytes = bytes + len;
            records = index - start + 1;
            natural = (records \<ge> min_records b \<and> bytes \<ge> min_bytes b \<and> gear_hash key AND anchor_mask b = 0);
            forced = (records \<ge> max_records b \<or> bytes = MAX_NODE_BYTES)
        in if natural \<or> forced
           then (index + 1, header_bytes b, output @ [\<lparr>seg_start = start, seg_end = index + 1, stable_end = True\<rparr>])
           else (start, bytes, output))"

definition segment_step :: "SegmentBounds \<Rightarrow> seg_record \<Rightarrow> nat \<Rightarrow> seg_state \<Rightarrow> ChunkError + seg_state" where
  "segment_step b r index s =
     (if header_bytes b + fst r > MAX_NODE_BYTES then invalid ''one Tree v2 record exceeds the node cap''
      else Inr (segment_take b r index (segment_flush b (fst r) index s)))"

fun segment_loop :: "SegmentBounds \<Rightarrow> seg_record list \<Rightarrow> nat \<Rightarrow> seg_state \<Rightarrow> ChunkError + seg_state" where
  "segment_loop b [] index s = Inr s"
| "segment_loop b (r # rest) index s = and_then (segment_step b r index s) (segment_loop b rest (index + 1))"

definition segment_by :: "SegmentBounds \<Rightarrow> seg_record list \<Rightarrow> ChunkError + Segment list" where
  "segment_by b records =
     and_then (segment_loop b records 0 (0, header_bytes b, [])) (\<lambda>(start, bytes, output).
       Inr (if start < length records
            then output @ [\<lparr>seg_start = start, seg_end = length records, stable_end = False\<rparr>] else output))"

definition leaf_bounds :: SegmentBounds where
  "leaf_bounds = \<lparr>header_bytes = LEAF_HEADER_BYTES, min_records = MIN_LEAF_ENTRIES, max_records = MAX_LEAF_ENTRIES,
     min_bytes = MIN_LEAF_BYTES, anchor_mask = LEAF_ANCHOR_MASK\<rparr>"

definition internal_bounds :: SegmentBounds where
  "internal_bounds = \<lparr>header_bytes = INTERNAL_HEADER_BYTES, min_records = MIN_INTERNAL_CHILDREN,
     max_records = MAX_INTERNAL_CHILDREN, min_bytes = 0, anchor_mask = INTERNAL_ANCHOR_MASK\<rparr>"

definition entry_record :: "FileEntry \<Rightarrow> seg_record" where
  "entry_record e = (leaf_record_len e, as_bytes (fe_path e))"

definition range_record :: "RangeRef \<Rightarrow> seg_record" where
  "range_record r = (range_record_len r, as_bytes (rr_max_path r))"

definition segment_entries :: "FileEntry list \<Rightarrow> ChunkError + Segment list" where
  "segment_entries entries =
     (if entries = [] then Inr []
      else and_then (validate_entries entries) (\<lambda>_. segment_by leaf_bounds (map entry_record entries)))"

definition segment_ranges :: "RangeRef list \<Rightarrow> ChunkError + Segment list" where
  "segment_ranges ranges = (if ranges = [] then Inr [] else segment_by internal_bounds (map range_record ranges))"

text \<open>\<open>xs[a..b]\<close>.\<close>

definition sub_list :: "nat \<Rightarrow> nat \<Rightarrow> 'a list \<Rightarrow> 'a list" where
  "sub_list a b xs = take (b - a) (drop a xs)"

section \<open>Segments tile the records\<close>

fun tiles :: "nat \<Rightarrow> Segment list \<Rightarrow> nat \<Rightarrow> bool" where
  "tiles a [] b = (a = b)"
| "tiles a (s # ss) b = (seg_start s = a \<and> a < seg_end s \<and> tiles (seg_end s) ss b)"

lemma tiles_append: "tiles a (ss @ ts) c \<longleftrightarrow> (\<exists>b. tiles a ss b \<and> tiles b ts c)"
  by (induction ss arbitrary: a) auto

lemma tiles_le: "tiles a ss b \<Longrightarrow> a \<le> b"
  by (induction ss arbitrary: a) fastforce+

definition segment_slices :: "Segment list \<Rightarrow> 'a list \<Rightarrow> 'a list list" where
  "segment_slices ss xs = map (\<lambda>s. sub_list (seg_start s) (seg_end s) xs) ss"

lemma sub_list_concat: "a \<le> b \<Longrightarrow> b \<le> c \<Longrightarrow> sub_list a b xs @ sub_list b c xs = sub_list a c xs"
proof -
  assume "a \<le> b" "b \<le> c"
  then have "take (c - a) (drop a xs) = take (b - a) (drop a xs) @ take (c - b) (drop (b - a) (drop a xs))"
    using take_add [of "b - a" "c - b" "drop a xs"] by simp
  with \<open>a \<le> b\<close> show ?thesis by (simp add: sub_list_def)
qed

lemma tiles_slices: "tiles a ss b \<Longrightarrow> concat (segment_slices ss xs) = sub_list a b xs"
proof (induction ss arbitrary: a)
  case (Cons s ss)
  then show ?case using tiles_le [of "seg_end s" ss b] by (auto simp: segment_slices_def sub_list_concat)
qed (simp add: segment_slices_def sub_list_def)

lemma sub_list_map: "sub_list a b (map f xs) = map f (sub_list a b xs)"
  by (simp add: sub_list_def take_map drop_map)

lemma sub_list_all [simp]: "sub_list 0 (length xs) xs = xs"
  by (simp add: sub_list_def)

lemma length_sub_list: "b \<le> length xs \<Longrightarrow> length (sub_list a b xs) = b - a"
  by (simp add: sub_list_def)

lemma sub_list_snoc: "a \<le> i \<Longrightarrow> i < length xs \<Longrightarrow> sub_list a (i + 1) xs = sub_list a i xs @ [xs ! i]"
  by (simp add: sub_list_def Suc_diff_le take_Suc_conv_app_nth)

lemma tiles_nonempty: "tiles a ss b \<Longrightarrow> b \<le> length xs \<Longrightarrow> [] \<notin> set (segment_slices ss xs)"
proof (induction ss arbitrary: a)
  case (Cons s ss)
  then have "seg_end s \<le> length xs" using tiles_le [of "seg_end s" ss b] by auto
  with Cons show ?case
    using length_sub_list [of "seg_end s" xs "seg_start s"] by (auto simp: segment_slices_def)
qed (simp add: segment_slices_def)

lemma sub_list_Nil: "b \<le> length xs \<Longrightarrow> sub_list a b xs = [] \<longleftrightarrow> b \<le> a"
  by (auto simp: sub_list_def)

section \<open>Segmentation of a list\<close>

text \<open>
  The reference the index loop is checked against: the input is cut into groups. The open group
  \<open>cur\<close> is closed before a record that does not fit it, and after a record that ends it; \<open>f\<close> gives
  the encoded length and the key of an element.
\<close>

definition group_bytes :: "SegmentBounds \<Rightarrow> ('a \<Rightarrow> seg_record) \<Rightarrow> 'a list \<Rightarrow> nat" where
  "group_bytes b f xs = header_bytes b + sum_list (map (\<lambda>x. fst (f x)) xs)"

definition overfull :: "SegmentBounds \<Rightarrow> ('a \<Rightarrow> seg_record) \<Rightarrow> 'a list \<Rightarrow> 'a \<Rightarrow> bool" where
  "overfull b f cur x \<longleftrightarrow>
     cur \<noteq> [] \<and> (length cur \<ge> max_records b \<or> group_bytes b f cur + fst (f x) > MAX_NODE_BYTES)"

definition ends_group :: "SegmentBounds \<Rightarrow> ('a \<Rightarrow> seg_record) \<Rightarrow> 'a list \<Rightarrow> bool" where
  "ends_group b f cur \<longleftrightarrow>
     length cur \<ge> min_records b \<and> group_bytes b f cur \<ge> min_bytes b \<and> gear_hash (snd (f (last cur))) AND anchor_mask b = 0
     \<or> length cur \<ge> max_records b \<or> group_bytes b f cur = MAX_NODE_BYTES"

definition joined :: "SegmentBounds \<Rightarrow> ('a \<Rightarrow> seg_record) \<Rightarrow> 'a list \<Rightarrow> 'a \<Rightarrow> 'a list" where
  "joined b f cur x = (if overfull b f cur x then [x] else cur @ [x])"

fun cuts :: "SegmentBounds \<Rightarrow> ('a \<Rightarrow> seg_record) \<Rightarrow> 'a list \<Rightarrow> 'a list \<Rightarrow> 'a list list" where
  "cuts b f cur [] = (if cur = [] then [] else [cur])"
| "cuts b f cur (x # xs) =
     (if overfull b f cur x then [cur] else [])
     @ (if ends_group b f (joined b f cur x) then joined b f cur x # cuts b f [] xs
        else cuts b f (joined b f cur x) xs)"

text \<open>The group still open after the list.\<close>

fun open_after :: "SegmentBounds \<Rightarrow> ('a \<Rightarrow> seg_record) \<Rightarrow> 'a list \<Rightarrow> 'a list \<Rightarrow> 'a list" where
  "open_after b f cur [] = cur"
| "open_after b f cur (x # xs) =
     open_after b f (if ends_group b f (joined b f cur x) then [] else joined b f cur x) xs"

lemma joined_nonempty [simp]: "joined b f cur x \<noteq> []"
  by (simp add: joined_def)

lemmas joined_nonempty' [simp] = joined_nonempty [symmetric]

lemma group_bytes_snoc: "group_bytes b f (cur @ [x]) = group_bytes b f cur + fst (f x)"
  by (simp add: group_bytes_def)

subsection \<open>The index loop computes it\<close>

text \<open>The state of the loop before the element at \<open>index\<close>: the closed segments tile the elements
  before the open group \<open>cur\<close>.\<close>

definition loop_abs :: "SegmentBounds \<Rightarrow> ('a \<Rightarrow> seg_record) \<Rightarrow> 'a list \<Rightarrow> nat \<Rightarrow> seg_state \<Rightarrow> 'a list \<Rightarrow> bool" where
  "loop_abs b f all index s cur \<longleftrightarrow>
     (case s of (start, bytes, closed) \<Rightarrow>
        start \<le> index \<and> index \<le> length all \<and> cur = sub_list start index all
        \<and> bytes = group_bytes b f cur \<and> tiles 0 closed start \<and> list_all stable_end closed)"

definition closed_groups :: "'a list \<Rightarrow> seg_state \<Rightarrow> 'a list list" where
  "closed_groups all s = segment_slices (snd (snd s)) all"

lemma loop_abs_push:
  assumes "loop_abs b f all index (start, bytes, closed) cur" "start < index"
  shows "loop_abs b f all index (index, header_bytes b, closed @ [\<lparr>seg_start = start, seg_end = index, stable_end = True\<rparr>]) []"
  using assms by (auto simp: loop_abs_def tiles_append sub_list_def group_bytes_def)

lemma segment_flush_abs:
  assumes "loop_abs b f all index s cur"
  shows "loop_abs b f all index (segment_flush b (fst (f x)) index s) (if overfull b f cur x then [] else cur)"
    and "closed_groups all (segment_flush b (fst (f x)) index s) =
      closed_groups all s @ (if overfull b f cur x then [cur] else [])"
proof -
  obtain start bytes closed where s: "s = (start, bytes, closed)" by (cases s)
  note abs = assms [unfolded s]
  have "index > start \<longleftrightarrow> cur \<noteq> []" "length cur = index - start" "bytes = group_bytes b f cur" "cur = sub_list start index all"
    using abs by (auto simp: loop_abs_def sub_list_Nil length_sub_list)
  then show "loop_abs b f all index (segment_flush b (fst (f x)) index s) (if overfull b f cur x then [] else cur)"
    "closed_groups all (segment_flush b (fst (f x)) index s) =
      closed_groups all s @ (if overfull b f cur x then [cur] else [])"
    using abs loop_abs_push [OF abs]
    by (cases "cur = []", auto simp: segment_flush_def s overfull_def closed_groups_def segment_slices_def)
qed

lemma segment_take_abs:
  assumes "loop_abs b f all index s cur" "index < length all" "all ! index = x" "cur' = cur @ [x]"
  shows "loop_abs b f all (index + 1) (segment_take b (f x) index s) (if ends_group b f cur' then [] else cur')"
    and "closed_groups all (segment_take b (f x) index s) = closed_groups all s @ (if ends_group b f cur' then [cur'] else [])"
proof -
  obtain start bytes closed where s: "s = (start, bytes, closed)" by (cases s)
  note abs = assms(1) [unfolded s]
  obtain len key where fx: "f x = (len, key)" by (cases "f x")
  have cur: "start \<le> index" "cur = sub_list start index all" "bytes = group_bytes b f cur" "length cur = index - start"
    using abs by (auto simp: loop_abs_def length_sub_list)
  then have cur': "cur' = sub_list start (index + 1) all" using sub_list_snoc [OF cur(1) assms(2)] assms(3,4) by simp
  have grown: "loop_abs b f all (index + 1) (start, bytes + len, closed) cur'"
    using abs assms(2,4) cur' fx by (auto simp: loop_abs_def group_bytes_snoc)
  have "(index - start + 1 \<ge> min_records b \<and> bytes + len \<ge> min_bytes b \<and> gear_hash key AND anchor_mask b = 0
      \<or> index - start + 1 \<ge> max_records b \<or> bytes + len = MAX_NODE_BYTES) \<longleftrightarrow> ends_group b f cur'"
    using cur assms(4) fx by (simp add: ends_group_def group_bytes_snoc)
  then have take: "segment_take b (f x) index s =
      (if ends_group b f cur' then (index + 1, header_bytes b, closed @ [\<lparr>seg_start = start, seg_end = index + 1, stable_end = True\<rparr>])
       else (start, bytes + len, closed))"
    unfolding segment_take_def fx s Let_def disj_assoc by simp
  show "loop_abs b f all (index + 1) (segment_take b (f x) index s) (if ends_group b f cur' then [] else cur')"
    using grown loop_abs_push [OF grown] cur(1) by (simp add: take)
  show "closed_groups all (segment_take b (f x) index s) = closed_groups all s @ (if ends_group b f cur' then [cur'] else [])"
    unfolding take by (simp add: s closed_groups_def segment_slices_def cur')
qed

lemma segment_step_abs:
  assumes "loop_abs b f all index s cur" "index < length all" "all ! index = x" "segment_step b (f x) index s = Inr s'"
  shows "loop_abs b f all (index + 1) s' (if ends_group b f (joined b f cur x) then [] else joined b f cur x)"
    and "closed_groups all s' = closed_groups all s @ (if overfull b f cur x then [cur] else [])
      @ (if ends_group b f (joined b f cur x) then [joined b f cur x] else [])"
proof -
  note flush = segment_flush_abs [OF assms(1), of x]
  have s': "s' = segment_take b (f x) index (segment_flush b (fst (f x)) index s)"
    using assms(4) by (auto simp: segment_step_def split: if_splits)
  have j: "joined b f cur x = (if overfull b f cur x then [] else cur) @ [x]" by (simp add: joined_def)
  note take = segment_take_abs [OF flush(1) assms(2,3) j]
  show "loop_abs b f all (index + 1) s' (if ends_group b f (joined b f cur x) then [] else joined b f cur x)"
    using take(1) s' by simp
  show "closed_groups all s' = closed_groups all s @ (if overfull b f cur x then [cur] else [])
      @ (if ends_group b f (joined b f cur x) then [joined b f cur x] else [])"
    using take(2) flush(2) s' by simp
qed

lemma segment_loop_abs:
  assumes "all = pre @ xs" "loop_abs b f all (length pre) s cur" "segment_loop b (map f xs) (length pre) s = Inr s'"
  shows "loop_abs b f all (length all) s' (open_after b f cur xs)
    \<and> closed_groups all s' @ cuts b f (open_after b f cur xs) [] = closed_groups all s @ cuts b f cur xs"
  using assms
proof (induction xs arbitrary: pre s cur)
  case (Cons x xs)
  then obtain s1 where s1: "segment_step b (f x) (length pre) s = Inr s1" "segment_loop b (map f xs) (length (pre @ [x])) s1 = Inr s'"
    by auto
  note step = segment_step_abs [OF Cons.prems(2) _ _ s1(1)]
  have len: "length pre < length all" "all ! length pre = x" using Cons.prems(1) by simp_all
  have "all = (pre @ [x]) @ xs" using Cons.prems(1) by simp
  from Cons.IH [OF this _ s1(2)] step(1) [OF len] step(2) [OF len]
  show ?case by (simp split del: if_split) (simp split: if_split)
qed simp

text \<open>Segmentation succeeds exactly when every single element fits a node; its segments are the
  groups, and the last one is stable exactly when no group is open at the end.\<close>

lemma segment_step_Inr: "(\<exists>s'. segment_step b r index s = Inr s') \<longleftrightarrow> header_bytes b + fst r \<le> MAX_NODE_BYTES"
  by (simp add: segment_step_def not_less del: split_paired_Ex)

lemma segment_loop_Inr:
  "(\<exists>s'. segment_loop b rs index s = Inr s') \<longleftrightarrow> (\<forall>r \<in> set rs. header_bytes b + fst r \<le> MAX_NODE_BYTES)"
proof (induction rs arbitrary: index s)
  case (Cons r rs)
  show ?case
  proof (cases "segment_step b r index s")
    case (Inl e)
    then show ?thesis using segment_step_Inr [of b r index s] by auto
  next
    case (Inr s1)
    then have "header_bytes b + fst r \<le> MAX_NODE_BYTES" using segment_step_Inr [of b r index s] by blast
    then show ?thesis using Inr Cons [of "index + 1" s1] by simp
  qed
qed (simp del: split_paired_Ex)

lemma segment_by_Inr:
  "(\<exists>segs. segment_by b rs = Inr segs) \<longleftrightarrow> (\<forall>r \<in> set rs. header_bytes b + fst r \<le> MAX_NODE_BYTES)"
  unfolding segment_loop_Inr [symmetric, of _ _ 0 "(0, header_bytes b, [])"] by (auto simp: segment_by_def)

lemma segment_by_cuts:
  assumes "segment_by b (map f xs) = Inr segs"
  shows "tiles 0 segs (length xs)" "segment_slices segs xs = cuts b f [] xs"
    and "xs \<noteq> [] \<Longrightarrow> segs \<noteq> [] \<and> (stable_end (last segs) \<longleftrightarrow> open_after b f [] xs = [])"
proof -
  let ?s0 = "(0, header_bytes b, [])"
  from assms obtain start bytes closed where loop: "segment_loop b (map f xs) 0 ?s0 = Inr (start, bytes, closed)"
      and segs: "segs = (if start < length xs
            then closed @ [\<lparr>seg_start = start, seg_end = length xs, stable_end = False\<rparr>] else closed)"
    by (auto simp: segment_by_def)
  have "loop_abs b f xs 0 ?s0 []" by (simp add: loop_abs_def sub_list_def group_bytes_def)
  then have abs: "loop_abs b f xs (length xs) (start, bytes, closed) (open_after b f [] xs)"
      and groups: "segment_slices closed xs @ cuts b f (open_after b f [] xs) [] = cuts b f [] xs"
    using segment_loop_abs [of xs "[]" xs b f ?s0 "[]" "(start, bytes, closed)"] loop
    by (simp_all add: closed_groups_def segment_slices_def)
  have op: "open_after b f [] xs = sub_list start (length xs) xs" "start \<le> length xs" "tiles 0 closed start" "list_all stable_end closed"
    using abs by (simp_all add: loop_abs_def)
  then have nil: "open_after b f [] xs = [] \<longleftrightarrow> \<not> start < length xs" by (auto simp: sub_list_Nil)
  show "tiles 0 segs (length xs)" using op by (auto simp: segs tiles_append)
  show "segment_slices segs xs = cuts b f [] xs"
    using groups nil op(1) by (auto simp: segs segment_slices_def)
  assume "xs \<noteq> []"
  then have "closed \<noteq> []" if "\<not> start < length xs" using op(2,3) that by (cases closed) auto
  then show "segs \<noteq> [] \<and> (stable_end (last segs) \<longleftrightarrow> open_after b f [] xs = [])"
    using nil op(4) by (auto simp: segs list_all_iff)
qed

section \<open>What the groups are\<close>

lemma cuts_concat: "concat (cuts b f cur xs) = cur @ xs"
  by (induction b f cur xs rule: cuts.induct) (auto simp: joined_def)

lemma cuts_nonempty: "[] \<notin> set (cuts b f cur xs)"
  by (induction b f cur xs rule: cuts.induct) (auto simp: overfull_def)

lemma cuts_Nil_iff: "cuts b f cur xs = [] \<longleftrightarrow> cur = [] \<and> xs = []"
  using cuts_concat [of b f cur xs] by (cases xs) auto

text \<open>A group within the caps of a node.\<close>

definition fits :: "SegmentBounds \<Rightarrow> ('a \<Rightarrow> seg_record) \<Rightarrow> 'a list \<Rightarrow> bool" where
  "fits b f g \<longleftrightarrow> length g \<le> max_records b \<and> group_bytes b f g \<le> MAX_NODE_BYTES"

lemma cuts_fit:
  assumes "0 < max_records b" "\<forall>x \<in> set xs. header_bytes b + fst (f x) \<le> MAX_NODE_BYTES" "cur = [] \<or> fits b f cur"
  shows "\<forall>g \<in> set (cuts b f cur xs). fits b f g"
  using assms
proof (induction b f cur xs rule: cuts.induct)
  case (2 b f cur x xs)
  have j: "fits b f (joined b f cur x)"
    using 2(3-5) by (auto simp: joined_def overfull_def fits_def group_bytes_def)
  show ?case using 2 j by (auto simp: overfull_def)
qed auto

lemma cuts_append: "open_after b f cur xs = [] \<Longrightarrow> cuts b f cur (xs @ ys) = cuts b f cur xs @ cuts b f [] ys"
  by (induction b f cur xs rule: cuts.induct) auto

text \<open>Every boundary restarts the segmentation: what follows it is cut on its own.\<close>

lemma cuts_rest: "cuts b f cur xs = g # gs \<Longrightarrow> gs = cuts b f [] (concat gs)"
proof (induction b f cur xs arbitrary: g gs rule: cuts.induct)
  case (2 b f cur x xs)
  let ?j = "joined b f cur x"
  have j: "cuts b f [] (x # xs) = (if ends_group b f [x] then [x] # cuts b f [] xs else cuts b f [x] xs)"
    by (simp add: overfull_def joined_def)
  show ?case
  proof (cases "overfull b f cur x")
    case True
    then have "gs = cuts b f [] (x # xs)" using 2(3) j by (simp add: joined_def split: if_splits)
    then show ?thesis by (simp add: cuts_concat del: cuts.simps)
  next
    case False
    show ?thesis
    proof (cases "ends_group b f ?j")
      case True
      then have "gs = cuts b f [] xs" using False 2(3) by simp
      then show ?thesis by (simp add: cuts_concat)
    next
      case no_end: False
      then show ?thesis using False 2(2) [OF no_end] 2(3) by simp
    qed
  qed
qed (simp split: if_splits)

lemma cuts_suffix: "cuts b f cur xs = gs @ hs \<Longrightarrow> gs \<noteq> [] \<Longrightarrow> hs = cuts b f [] (concat hs)"
proof (induction gs arbitrary: cur xs)
  case (Cons g gs)
  have rest: "gs @ hs = cuts b f [] (concat (gs @ hs))"
    by (rule cuts_rest [of b f cur xs g]) (use Cons.prems(1) in simp)
  show ?case
  proof (cases "gs = []")
    case True
    with rest have "hs = cuts b f [] (concat hs)" by simp
    then show ?thesis .
  next
    case False
    then show ?thesis using Cons.IH [OF rest [symmetric]] by simp
  qed
qed simp

lemma open_after_small:
  assumes "open_after b f cur xs \<noteq> []" "xs \<noteq> []"
  shows "\<not> ends_group b f (open_after b f cur xs)"
  using assms
proof (induction b f cur xs rule: open_after.induct)
  case (2 b f cur x xs)
  then show ?case by (cases xs) (auto split: if_splits)
qed simp

subsection \<open>Short elements\<close>

text \<open>When a full group of the longest elements fits the byte cap, no group is ever closed early: each
  boundary depends on the elements before it only.\<close>

definition short :: "SegmentBounds \<Rightarrow> ('a \<Rightarrow> seg_record) \<Rightarrow> 'a list \<Rightarrow> bool" where
  "short b f xs \<longleftrightarrow> (\<forall>x \<in> set xs. header_bytes b + max_records b * fst (f x) \<le> MAX_NODE_BYTES)"

lemma sum_list_bound: "\<forall>x \<in> set xs. n * g x \<le> (c :: nat) \<Longrightarrow> n * sum_list (map g xs) \<le> length xs * c"
  by (induction xs) (auto simp: algebra_simps intro: add_mono)

lemma short_not_overfull:
  assumes "short b f (x # cur)" "length cur < max_records b"
  shows "\<not> overfull b f cur x"
proof -
  let ?m = "max_records b" and ?c = "MAX_NODE_BYTES - header_bytes b"
  have one: "\<forall>y \<in> set (x # cur). ?m * fst (f y) \<le> ?c" and hb: "header_bytes b \<le> MAX_NODE_BYTES"
    using assms(1) unfolding short_def by (auto simp: le_diff_conv2)
  have "?m * sum_list (map (\<lambda>y. fst (f y)) (x # cur)) \<le> length (x # cur) * ?c"
    using one by (rule sum_list_bound)
  also have "\<dots> \<le> ?m * ?c" using assms(2) by (intro mult_le_mono1) simp
  finally have "sum_list (map (\<lambda>y. fst (f y)) (x # cur)) \<le> ?c" using assms(2) by simp
  then show ?thesis using assms(2) hb unfolding overfull_def group_bytes_def by simp linarith
qed

lemma cuts_first: "cur \<noteq> [] \<Longrightarrow> \<not> overfull b f cur x \<Longrightarrow> \<exists>t gs. cuts b f cur (x # xs) = ((cur @ [x]) @ t) # gs"
proof (induction xs arbitrary: cur x)
  case Nil
  then show ?case by (simp add: joined_def)
next
  case (Cons y ys)
  show ?case
  proof (cases "ends_group b f (cur @ [x]) \<or> overfull b f (cur @ [x]) y")
    case True
    then show ?thesis using Cons.prems(2) by (auto simp: joined_def)
  next
    case False
    then show ?thesis using Cons.IH [of "cur @ [x]" y] Cons.prems(2) by (auto simp: joined_def)
  qed
qed

lemma short_boundary:
  assumes "cuts b f cur (xs @ ys) = gs @ hs" "concat gs = cur @ xs" "short b f (cur @ xs @ ys)"
    "length cur < max_records b" "ys \<noteq> []" "cur = [] \<or> xs \<noteq> [] \<or> \<not> ends_group b f cur"
  shows "open_after b f cur xs = [] \<and> gs = cuts b f cur xs"
  using assms
proof (induction xs arbitrary: cur gs)
  case Nil
  then obtain y ys' where ys: "ys = y # ys'" by (cases ys) auto
  show ?case
  proof (cases "cur = []")
    case True
    then have "gs = []" using Nil.prems(1,2) cuts_nonempty [of b f cur ys] by (cases gs) auto
    then show ?thesis using True by simp
  next
    case False
    have "\<not> overfull b f cur y" using short_not_overfull [of b f y cur] Nil.prems(3,4) ys by (auto simp: short_def)
    then obtain t gs' where "cuts b f cur ys = ((cur @ [y]) @ t) # gs'" using cuts_first [OF False] ys by blast
    then show ?thesis using Nil.prems(1,2) False by (cases gs) auto
  qed
next
  case (Cons x xs)
  have no: "\<not> overfull b f cur x" using short_not_overfull [of b f x cur] Cons.prems(3,4) by (auto simp: short_def)
  have sh: "short b f ([] @ xs @ ys)" "short b f ((cur @ [x]) @ xs @ ys)" using Cons.prems(3) by (auto simp: short_def)
  have m: "0 < max_records b" using Cons.prems(4) by simp
  show ?case
  proof (cases "ends_group b f (cur @ [x])")
    case True
    then have cut: "cuts b f cur ((x # xs) @ ys) = (cur @ [x]) # cuts b f [] (xs @ ys)" using no by (simp add: joined_def)
    then obtain gs' where gs: "gs = (cur @ [x]) # gs'" using Cons.prems(1,2) by (cases gs) auto
    have "open_after b f [] xs = [] \<and> gs' = cuts b f [] xs"
      by (rule Cons.IH [OF _ _ sh(1)]) (use cut gs Cons.prems(1,2,5) m in auto)
    then show ?thesis using True no gs by (simp add: joined_def)
  next
    case False
    then have "length (cur @ [x]) < max_records b" by (simp add: ends_group_def)
    moreover have "cuts b f (cur @ [x]) (xs @ ys) = gs @ hs" using Cons.prems(1) no False by (simp add: joined_def)
    ultimately have "open_after b f (cur @ [x]) xs = [] \<and> gs = cuts b f (cur @ [x]) xs"
      using Cons.IH [of "cur @ [x]" gs] Cons.prems(2,5) sh(2) False by simp
    then show ?thesis using False no by (simp add: joined_def)
  qed
qed


subsection \<open>Size of the groups\<close>

text \<open>Every group but the last holds at least the number of elements that always fit.\<close>

lemma group_bytes_le: "\<forall>x \<in> set g. fst (f x) \<le> L \<Longrightarrow> group_bytes b f g \<le> header_bytes b + length g * L"
  by (induction g) (auto simp: group_bytes_def)

lemma cuts_min:
  assumes "\<forall>x \<in> set (cur @ xs). fst (f x) \<le> L" "header_bytes b + K * L \<le> MAX_NODE_BYTES"
    "K \<le> min_records b" "K \<le> max_records b" "0 < L"
  shows "\<forall>g \<in> set (butlast (cuts b f cur xs)). K \<le> length g"
  using assms
proof (induction b f cur xs rule: cuts.induct)
  case (2 b f cur x xs)
  let ?j = "joined b f cur x"
  have over: "K \<le> length cur" if "overfull b f cur x"
  proof (rule ccontr)
    assume short: "\<not> K \<le> length cur"
    have "group_bytes b f (cur @ [x]) \<le> header_bytes b + length (cur @ [x]) * L" using 2(3) by (intro group_bytes_le) simp
    also have "\<dots> \<le> header_bytes b + K * L" using short by (intro add_left_mono mult_le_mono1) simp
    finally show False using that short 2(4,6) by (auto simp: overfull_def group_bytes_snoc)
  qed
  have j: "set ?j \<subseteq> set (cur @ x # xs)" by (auto simp: joined_def)
  have ends: "K \<le> length ?j" if "ends_group b f ?j"
  proof (rule ccontr)
    assume short: "\<not> K \<le> length ?j"
    have "group_bytes b f ?j \<le> header_bytes b + length ?j * L" using 2(3) j by (intro group_bytes_le) blast
    also have "\<dots> \<le> header_bytes b + (K - 1) * L" using short by (intro add_left_mono mult_le_mono1) simp
    also have "\<dots> < header_bytes b + K * L" using short 2(7) by simp
    finally show False using that short 2(4-6) by (auto simp: ends_group_def)
  qed
  have "set xs \<subseteq> set (cur @ x # xs)" "set (?j @ xs) \<subseteq> set (cur @ x # xs)" using j by auto
  then have IH: "\<forall>g \<in> set (butlast (if ends_group b f ?j then ?j # cuts b f [] xs else cuts b f ?j xs)). K \<le> length g"
    using 2(1,2) 2(3-7) ends by (auto simp: subset_iff split: if_splits)
  show ?case using IH over by (auto simp: butlast_append cuts_Nil_iff split: if_splits)
qed simp

lemma cuts_min_closed:
  assumes "\<forall>x \<in> set xs. fst (f x) \<le> L" "header_bytes b + K * L \<le> MAX_NODE_BYTES"
    "K \<le> min_records b" "K \<le> max_records b" "0 < L" "open_after b f [] xs = []"
  shows "\<forall>g \<in> set (cuts b f [] xs). K \<le> length g"
proof (cases xs)
  case (Cons x ys)
  have "\<forall>g \<in> set (butlast (cuts b f [] (xs @ [x]))). K \<le> length g"
    by (rule cuts_min) (use assms(1-5) Cons in auto)
  moreover have "cuts b f [] (xs @ [x]) = cuts b f [] xs @ cuts b f [] [x]" by (rule cuts_append [OF assms(6)])
  moreover have "cuts b f [] [x] \<noteq> []" by (simp add: cuts_Nil_iff del: cuts.simps)
  ultimately show ?thesis by (simp add: butlast_append)
qed simp

lemma sum_lengths: "\<forall>g \<in> set gs. K \<le> length g \<Longrightarrow> length gs * K \<le> length (concat gs)"
  by (induction gs) (auto intro: add_mono)

lemma cuts_count:
  assumes "\<forall>x \<in> set xs. fst (f x) \<le> L" "header_bytes b + K * L \<le> MAX_NODE_BYTES"
    "K \<le> min_records b" "K \<le> max_records b" "0 < L" "xs \<noteq> []"
  shows "length (cuts b f [] xs) * K < length xs + K"
proof -
  let ?gs = "cuts b f [] xs"
  have ne: "?gs \<noteq> []" using assms(6) by (simp add: cuts_Nil_iff)
  obtain gs g where gs: "?gs = gs @ [g]" by (cases ?gs rule: rev_cases) (use ne in auto)
  have "g \<noteq> []" using gs cuts_nonempty [of b f "[]" xs] by auto
  moreover have "length gs * K \<le> length (concat gs)"
    using cuts_min [of "[]" xs f L b K] assms(1-5) gs by (intro sum_lengths) simp
  moreover have "xs = concat gs @ g" using gs cuts_concat [of b f "[]" xs] by simp
  ultimately show ?thesis unfolding gs by (cases g) auto
qed

section \<open>Leaves and internal nodes\<close>

lemma leaf_record_bound: "entries_ok es \<Longrightarrow> \<forall>e \<in> set es. fst (entry_record e) \<le> 4146"
  by (auto simp: entry_record_def leaf_record_len_def entries_ok_def tree_limits dest!: bspec dest: path_ok_length)

lemma range_record_bound: "ranges_ok h rs \<Longrightarrow> \<forall>r \<in> set rs. fst (range_record r) \<le> 8240"
proof
  fix r assume "ranges_ok h rs" "r \<in> set rs"
  then have "path_ok (rr_min_path r)" "path_ok (rr_max_path r)" using range_ok_paths by (auto simp: ranges_ok_def)
  then show "fst (range_record r) \<le> 8240"
    using path_ok_length [of "rr_min_path r"] path_ok_length [of "rr_max_path r"]
    by (simp add: range_record_def range_record_len_def tree_limits)
qed

lemma leaf_record_fits: "entries_ok es \<Longrightarrow> \<forall>e \<in> set es. header_bytes leaf_bounds + fst (entry_record e) \<le> MAX_NODE_BYTES"
  using leaf_record_bound [of es] by (auto simp: leaf_bounds_def tree_limits dest!: bspec)

lemma range_record_fits: "ranges_ok h rs \<Longrightarrow> \<forall>r \<in> set rs. header_bytes internal_bounds + fst (range_record r) \<le> MAX_NODE_BYTES"
  using range_record_bound [of h rs] by (auto simp: internal_bounds_def tree_limits dest!: bspec)

lemma entry_group_bytes: "group_bytes leaf_bounds entry_record g = LEAF_HEADER_BYTES + sum_list (map leaf_record_len g)"
  by (simp add: group_bytes_def leaf_bounds_def entry_record_def)

lemma range_group_bytes: "group_bytes internal_bounds range_record g = INTERNAL_HEADER_BYTES + sum_list (map range_record_len g)"
  by (simp add: group_bytes_def internal_bounds_def range_record_def)

definition leaf_groups :: "FileEntry list \<Rightarrow> FileEntry list list" where
  "leaf_groups es = cuts leaf_bounds entry_record [] es"

definition internal_groups :: "RangeRef list \<Rightarrow> RangeRef list list" where
  "internal_groups rs = cuts internal_bounds range_record [] rs"

lemma segment_entries_groups:
  assumes "entries_ok es"
  obtains segs where "segment_entries es = Inr segs" "tiles 0 segs (length es)" "segment_slices segs es = leaf_groups es"
    "es \<noteq> [] \<Longrightarrow> segs \<noteq> [] \<and> (stable_end (last segs) \<longleftrightarrow> open_after leaf_bounds entry_record [] es = [])"
proof (cases "es = []")
  case True
  show thesis by (rule that [of "[]"]) (simp_all add: True segment_entries_def segment_slices_def leaf_groups_def)
next
  case False
  have "\<forall>r \<in> set (map entry_record es). header_bytes leaf_bounds + fst r \<le> MAX_NODE_BYTES"
    using leaf_record_fits [OF assms] by simp
  then obtain segs where segs: "segment_by leaf_bounds (map entry_record es) = Inr segs"
    unfolding segment_by_Inr [symmetric] by blast
  then have "segment_entries es = Inr segs" using False assms by (simp add: segment_entries_def codec_simps)
  then show thesis using segment_by_cuts [OF segs] that by (simp add: leaf_groups_def)
qed

lemma segment_ranges_groups:
  assumes "ranges_ok h rs"
  obtains segs where "segment_ranges rs = Inr segs" "tiles 0 segs (length rs)" "segment_slices segs rs = internal_groups rs"
proof (cases "rs = []")
  case True
  show thesis by (rule that [of "[]"]) (simp_all add: True segment_ranges_def segment_slices_def internal_groups_def)
next
  case False
  have "\<forall>r \<in> set (map range_record rs). header_bytes internal_bounds + fst r \<le> MAX_NODE_BYTES"
    using range_record_fits [OF assms] by simp
  then obtain segs where segs: "segment_by internal_bounds (map range_record rs) = Inr segs"
    unfolding segment_by_Inr [symmetric] by blast
  then have "segment_ranges rs = Inr segs" using False by (simp add: segment_ranges_def)
  then show thesis using segment_by_cuts [OF segs] that by (simp add: internal_groups_def)
qed

text \<open>Each group is the contents of a valid node.\<close>

lemma leaf_groups_encode:
  assumes "entries_ok es" "g \<in> set (leaf_groups es)"
  shows "g \<noteq> []" "entries_ok g" "\<exists>bs. encode_leaf g = Inr bs" "set g \<subseteq> set es"
proof -
  have fit: "fits leaf_bounds entry_record g"
    using cuts_fit [OF _ leaf_record_fits [OF assms(1)], of "[]"] assms(2)
    by (simp add: leaf_groups_def leaf_bounds_def MAX_LEAF_ENTRIES_def)
  show "g \<noteq> []" using assms(2) cuts_nonempty [of leaf_bounds entry_record "[]" es] by (auto simp: leaf_groups_def)
  obtain pre post where "leaf_groups es = pre @ g # post" using split_list [OF assms(2)] by blast
  then have "es = concat pre @ g @ concat post" using cuts_concat [of leaf_bounds entry_record "[]" es] by (simp add: leaf_groups_def)
  then show "entries_ok g" "set g \<subseteq> set es" using assms(1) by (auto simp: entries_ok_def sorted_entries_append)
  with fit show "\<exists>bs. encode_leaf g = Inr bs" unfolding fits_def entry_group_bytes by (simp add: encode_leaf_Inr leaf_bounds_def)
qed

lemma internal_groups_encode:
  assumes "ranges_ok h rs" "g \<in> set (internal_groups rs)"
  shows "g \<noteq> []" "ranges_ok h g" "\<exists>bs. encode_internal h g = Inr bs" "set g \<subseteq> set rs"
proof -
  have fit: "fits internal_bounds range_record g"
    using cuts_fit [OF _ range_record_fits [OF assms(1)], of "[]"] assms(2)
    by (simp add: internal_groups_def internal_bounds_def MAX_INTERNAL_CHILDREN_def)
  show ne: "g \<noteq> []" using assms(2) cuts_nonempty [of internal_bounds range_record "[]" rs] by (auto simp: internal_groups_def)
  obtain pre post where "internal_groups rs = pre @ g # post" using split_list [OF assms(2)] by blast
  then have "rs = concat pre @ g @ concat post"
    using cuts_concat [of internal_bounds range_record "[]" rs] by (simp add: internal_groups_def)
  then show "ranges_ok h g" "set g \<subseteq> set rs" using assms(1) by (auto simp: ranges_ok_def sorted_wrt_append)
  with fit ne show "\<exists>bs. encode_internal h g = Inr bs"
    unfolding fits_def range_group_bytes by (simp add: encode_internal_Inr internal_bounds_def)
qed

lemma leaf_groups_count: "entries_ok es \<Longrightarrow> es \<noteq> [] \<Longrightarrow> length (leaf_groups es) * 63 < length es + 63"
  unfolding leaf_groups_def using leaf_record_bound
  by (intro cuts_count [where L = 4146]) (auto simp: leaf_bounds_def tree_limits MIN_LEAF_ENTRIES_def)

lemma internal_groups_count: "ranges_ok h rs \<Longrightarrow> rs \<noteq> [] \<Longrightarrow> length (internal_groups rs) * 31 < length rs + 31"
  unfolding internal_groups_def using range_record_bound
  by (intro cuts_count [where L = 8240]) (auto simp: internal_bounds_def tree_limits MIN_INTERNAL_CHILDREN_def)

lemma leaf_groups_min:
  "entries_ok es \<Longrightarrow> \<forall>g \<in> set (butlast (leaf_groups es)). 63 \<le> length g"
  "entries_ok es \<Longrightarrow> open_after leaf_bounds entry_record [] es = [] \<Longrightarrow> \<forall>g \<in> set (leaf_groups es). 63 \<le> length g"
  unfolding leaf_groups_def using leaf_record_bound [of es]
  by (intro cuts_min [where L = 4146] cuts_min_closed [where L = 4146];
      simp add: leaf_bounds_def tree_limits MIN_LEAF_ENTRIES_def)+

section \<open>Properties\<close>

lemma plain_paths: "path_ok ''a''" "path_ok ''b''" "path_ok ''c''"
  by (simp_all add: path_ok_def validate_path_def has_control_def as_bytes_def str_chars_ascii is_control_def tree_limits)

text \<open>(C13) Segmentation of any valid entry list succeeds; its segments tile the list without a gap or an
  empty segment, each segment is accepted by the leaf encoder within the entry and byte caps, and
  every segment but the last has at least 63 entries.\<close>

theorem segment_entries_total:
  assumes "validate_entries es = Inr ()"
  shows "\<exists>segs. segment_entries es = Inr segs \<and> concat (segment_slices segs es) = es
    \<and> (\<forall>g \<in> set (segment_slices segs es). g \<noteq> [] \<and> (\<exists>bs. encode_leaf g = Inr bs))
    \<and> (\<forall>g \<in> set (butlast (segment_slices segs es)). 63 \<le> length g)"
proof -
  have ok: "entries_ok es" using assms by (simp add: codec_simps)
  then obtain segs where segs: "segment_entries es = Inr segs" "segment_slices segs es = leaf_groups es"
    by (rule segment_entries_groups)
  note leaf_groups_min(1) [OF ok]
  moreover have "concat (leaf_groups es) = es" by (simp add: leaf_groups_def cuts_concat)
  moreover have "\<forall>g \<in> set (leaf_groups es). g \<noteq> [] \<and> (\<exists>bs. encode_leaf g = Inr bs)"
    using leaf_groups_encode [OF ok] by blast
  ultimately show ?thesis using segs by auto
qed

theorem segment_entries_total_witness:
  "let es = [FileEntry.make ''a'' ZERO_HASH 1 2, FileEntry.make ''b'' ZERO_HASH 3 4] in
   \<exists>segs. segment_entries es = Inr segs \<and> concat (segment_slices segs es) = es"
proof -
  let ?es = "[FileEntry.make ''a'' ZERO_HASH 1 2, FileEntry.make ''b'' ZERO_HASH 3 4]"
  have "validate_entries ?es = Inr ()" by (simp add: codec_simps entries_ok_def plain_paths FileEntry.defs tree_limits)
  from segment_entries_total [OF this] show ?thesis unfolding Let_def by blast
qed
end
