(* ===== verification/Tree_V2_Read.thy ===== *)
theory Tree_V2_Read
  imports Tree_V2_Segment
begin

text \<open>
  Reading a Tree v2 (\<open>tree_v2.rs\<close>: \<open>TraversalBudget\<close>, \<open>load_node\<close>, \<open>validate_loaded_node\<close>,
  \<open>validate_descriptor_for_node\<close>, \<open>collect_leaf_refs\<close>, \<open>load_leaf_span\<close>, \<open>load_all_entries\<close>,
  \<open>leaf_ranges\<close>, \<open>range_page\<close>). Reading changes no store, so a reader is a function of
  \<open>get\<close>, the lookup of the store in its current state. The relations \<open>spans\<close> and \<open>holds\<close> say
  which leaves and entries a descriptor stands for; every reader is characterised by them.
\<close>

section \<open>Budget\<close>

definition MAX_VISITED_NODES :: nat where "MAX_VISITED_NODES = 1000000"

record TraversalBudget =
  tb_nodes :: nat
  tb_entries :: nat

definition budget_default :: TraversalBudget where
  "budget_default = \<lparr>tb_nodes = 0, tb_entries = 0\<rparr>"

definition budget_node :: "u16 \<Rightarrow> TraversalBudget \<Rightarrow> ChunkError + TraversalBudget" where
  "budget_node depth b =
     (if depth > MAX_TREE_DEPTH then invalid ''Tree v2 exceeds the depth limit''
      else if tb_nodes b + 1 > MAX_VISITED_NODES then invalid ''Tree v2 exceeds the node limit''
      else Inr (b\<lparr>tb_nodes := tb_nodes b + 1\<rparr>))"

definition budget_entries :: "nat \<Rightarrow> TraversalBudget \<Rightarrow> ChunkError + TraversalBudget" where
  "budget_entries n b =
     (if tb_entries b + n > MAX_LOADED_ENTRIES then invalid ''Tree v2 exceeds the entry limit''
      else Inr (b\<lparr>tb_entries := tb_entries b + n\<rparr>))"

section \<open>Loading a node\<close>

type_synonym lookup = "FileHash \<Rightarrow> ChunkError + bytes"

text \<open>The \<open>try_fold\<close> with \<open>checked_add\<close> over the file counts.\<close>

fun sum_counts :: "u64 \<Rightarrow> RangeRef list \<Rightarrow> ChunkError + u64" where
  "sum_counts acc [] = Inr acc"
| "sum_counts acc (r # rs) =
     (case u64_checked_add acc (rr_file_count r) of
        None \<Rightarrow> invalid ''Tree v2 file count overflow''
      | Some acc \<Rightarrow> sum_counts acc rs)"

text \<open>A decoded node is never empty, so the \<open>expect\<close>s on its first and last element hold.\<close>

definition validate_descriptor_for_node :: "RangeRef \<Rightarrow> nat \<Rightarrow> V2Node \<Rightarrow> ChunkError + unit" where
  "validate_descriptor_for_node rng serialized_bytes node =
     (if serialized_bytes \<ge> 2 ^ 32 then invalid ''Tree v2 child length does not fit its descriptor''
      else
        and_then (case node of
            Leaf entries \<Rightarrow>
              Inr (rr_min_path rng = fe_path (hd entries) \<and> rr_max_path rng = fe_path (last entries)
                \<and> rr_file_count rng = of_nat (length entries)
                \<and> rr_serialized_bytes rng = of_nat serialized_bytes \<and> rr_height rng = 0)
          | Internal child_height children \<Rightarrow>
              and_then (sum_counts 0 children) (\<lambda>file_count.
                Inr (rr_min_path rng = rr_min_path (hd children) \<and> rr_max_path rng = rr_max_path (last children)
                  \<and> rr_file_count rng = file_count
                  \<and> rr_serialized_bytes rng = of_nat serialized_bytes \<and> rr_height rng = child_height + 1)))
          (\<lambda>matches. if \<not> matches then invalid ''Tree v2 child descriptor does not match its bytes'' else Inr ()))"

definition validate_loaded_node :: "(bytes \<Rightarrow> FileHash) \<Rightarrow> RangeRef \<Rightarrow> bytes \<Rightarrow> ChunkError + V2Node" where
  "validate_loaded_node H rng bs =
     and_then (validate_range rng) (\<lambda>_.
       if length bs \<noteq> unat (rr_serialized_bytes rng) \<or> H bs \<noteq> rr_hash rng
       then invalid ''Tree v2 child failed content-address validation''
       else and_then (decode_node bs) (\<lambda>node.
            and_then (validate_descriptor_for_node rng (length bs) node) (\<lambda>_. Inr node)))"

definition load_node :: "(bytes \<Rightarrow> FileHash) \<Rightarrow> lookup \<Rightarrow> RangeRef \<Rightarrow> ChunkError + V2Node" where
  "load_node H get rng =
     and_then (validate_range rng) (\<lambda>_. and_then (get (rr_hash rng)) (validate_loaded_node H rng))"

section \<open>Traversal\<close>

text \<open>The stack \<open>pending\<close> has its top first: \<open>extend(children.rev())\<close> puts the first child on top. Each
  turn visits a node, so the budget bounds the loop.\<close>

function collect_loop ::
  "(bytes \<Rightarrow> FileHash) \<Rightarrow> lookup \<Rightarrow> RangeRef list \<Rightarrow> RangeRef list \<Rightarrow> TraversalBudget
   \<Rightarrow> ChunkError + RangeRef list \<times> TraversalBudget" where
  "collect_loop H get [] leaves b = Inr (leaves, b)"
| "collect_loop H get (rng # pending) leaves b =
     and_then (budget_node (rr_height rng) b) (\<lambda>b.
       if rr_height rng = 0 then collect_loop H get pending (leaves @ [rng]) b
       else and_then (load_node H get rng) (\<lambda>node.
         case node of
           Internal _ children \<Rightarrow> collect_loop H get (children @ pending) leaves b
         | Leaf _ \<Rightarrow> invalid ''Tree v2 internal descriptor names a leaf''))"
  by pat_completeness auto
termination
  by (relation "measure (\<lambda>(H, get, pending, leaves, b). MAX_VISITED_NODES + 1 - tb_nodes b)")
    (auto simp: budget_node_def split: if_splits)

definition root_children :: "TreeV2Root \<Rightarrow> RangeRef list" where
  "root_children root = (case tr_child root of None \<Rightarrow> [] | Some child \<Rightarrow> [child])"

definition collect_leaf_refs ::
  "(bytes \<Rightarrow> FileHash) \<Rightarrow> lookup \<Rightarrow> TreeV2Root \<Rightarrow> TraversalBudget \<Rightarrow> ChunkError + RangeRef list \<times> TraversalBudget" where
  "collect_leaf_refs H get root b =
     and_then (validate_root_shape root) (\<lambda>_.
     and_then (collect_loop H get (root_children root) [] b) (\<lambda>(leaves, b).
     and_then (validate_ranges leaves 0) (\<lambda>_.
     and_then (sum_counts 0 leaves) (\<lambda>sum.
       if sum \<noteq> tr_total_files root then invalid ''Tree v2 root total does not match its ranges''
       else Inr (leaves, b)))))"

fun load_leaves ::
  "(bytes \<Rightarrow> FileHash) \<Rightarrow> lookup \<Rightarrow> RangeRef list \<Rightarrow> FileEntry list \<Rightarrow> TraversalBudget
   \<Rightarrow> ChunkError + FileEntry list \<times> TraversalBudget" where
  "load_leaves H get [] out b = Inr (out, b)"
| "load_leaves H get (leaf # leaves) out b =
     and_then (budget_node 0 b) (\<lambda>b.
     and_then (load_node H get leaf) (\<lambda>node.
       case node of
         Internal _ _ \<Rightarrow> invalid ''Tree v2 leaf descriptor names an internal node''
       | Leaf entries \<Rightarrow> and_then (budget_entries (length entries) b) (load_leaves H get leaves (out @ entries))))"

definition load_leaf_span ::
  "(bytes \<Rightarrow> FileHash) \<Rightarrow> lookup \<Rightarrow> RangeRef list \<Rightarrow> TraversalBudget \<Rightarrow> ChunkError + FileEntry list \<times> TraversalBudget" where
  "load_leaf_span H get leaves b =
     and_then (try_all (\<lambda>leaf. and_then (validate_range leaf) (\<lambda>_.
         if rr_height leaf \<noteq> 0 then invalid ''Tree v2 leaf span contains an internal node'' else Inr ())) leaves) (\<lambda>_.
       if sum_list (map (\<lambda>leaf. unat (rr_file_count leaf)) leaves) \<ge> 2 ^ 64 then invalid ''Tree v2 entry capacity overflow''
       else and_then (load_leaves H get leaves [] b) (\<lambda>(out, b).
            and_then (validate_entries out) (\<lambda>_. Inr (out, b))))"

definition load_all_entries :: "(bytes \<Rightarrow> FileHash) \<Rightarrow> lookup \<Rightarrow> TreeV2Root \<Rightarrow> ChunkError + FileEntry list" where
  "load_all_entries H get root =
     and_then (collect_leaf_refs H get root budget_default) (\<lambda>(leaves, b).
     and_then (load_leaf_span H get leaves b) (\<lambda>(entries, b).
       if of_nat (length entries) \<noteq> tr_total_files root then invalid ''Tree v2 root total does not match its leaves''
       else Inr entries))"

definition leaf_ranges :: "(bytes \<Rightarrow> FileHash) \<Rightarrow> lookup \<Rightarrow> TreeV2Root \<Rightarrow> ChunkError + RangeRef list" where
  "leaf_ranges H get root = and_then (collect_leaf_refs H get root budget_default) (\<lambda>(leaves, b). Inr leaves)"

text \<open>\<open>range_page\<close>: the entries of a leaf that are after the cursor, until the page is full.\<close>

definition at_or_before :: "string option \<Rightarrow> string \<Rightarrow> bool" where
  "at_or_before after path = (case after of None \<Rightarrow> False | Some cursor \<Rightarrow> path \<le> cursor)"

fun page_entries :: "string option \<Rightarrow> nat \<Rightarrow> FileEntry list \<Rightarrow> FileEntry list \<Rightarrow> FileEntry list \<times> bool" where
  "page_entries after max_entries [] out = (out, False)"
| "page_entries after max_entries (entry # entries) out =
     (if at_or_before after (fe_path entry) then page_entries after max_entries entries out
      else if length (out @ [entry]) = max_entries then (out @ [entry], True)
      else page_entries after max_entries entries (out @ [entry]))"

fun page_leaves ::
  "(bytes \<Rightarrow> FileHash) \<Rightarrow> lookup \<Rightarrow> string option \<Rightarrow> nat \<Rightarrow> RangeRef list \<Rightarrow> FileEntry list \<Rightarrow> TraversalBudget
   \<Rightarrow> ChunkError + FileEntry list" where
  "page_leaves H get after max_entries [] out b = Inr out"
| "page_leaves H get after max_entries (rng # leaves) out b =
     (if at_or_before after (rr_max_path rng) then page_leaves H get after max_entries leaves out b
      else and_then (load_leaf_span H get [rng] b) (\<lambda>(entries, b).
        let (out, full) = page_entries after max_entries entries out in
        if full then Inr out else page_leaves H get after max_entries leaves out b))"

definition range_page ::
  "(bytes \<Rightarrow> FileHash) \<Rightarrow> lookup \<Rightarrow> TreeV2Root \<Rightarrow> string option \<Rightarrow> nat \<Rightarrow> ChunkError + FileEntry list" where
  "range_page H get root after max_entries =
     (if max_entries = 0 \<or> max_entries > 8192 then invalid ''Tree v2 range page limit is invalid''
      else and_then (case after of None \<Rightarrow> Inr () | Some path \<Rightarrow> validate_path path) (\<lambda>_.
           and_then (collect_leaf_refs H get root budget_default) (\<lambda>(leaves, b).
             page_leaves H get after max_entries leaves [] b)))"


section \<open>What a descriptor stands for\<close>

text \<open>A loaded node is determined by its bytes, and its descriptor by the node and its length.\<close>

lemma load_node_Leaf:
  "load_node H get r = Inr (Leaf es) \<longleftrightarrow>
     range_ok r \<and> rr_height r = 0 \<and> es \<noteq> [] \<and> (\<forall>e \<in> set es. entry_typed e)
     \<and> rr_min_path r = fe_path (hd es) \<and> rr_max_path r = fe_path (last es) \<and> rr_file_count r = of_nat (length es)
     \<and> (\<exists>bs. get (rr_hash r) = Inr bs \<and> H bs = rr_hash r \<and> length bs = unat (rr_serialized_bytes r) \<and> encode_leaf es = Inr bs)"
  using unsigned_less [of "rr_serialized_bytes r", where ?'a = nat]
  by (auto simp: load_node_def validate_loaded_node_def validate_descriptor_for_node_def decode_node_Leaf range_ok_def
      split: if_splits V2Node.splits)

lemma load_node_Internal:
  "load_node H get r = Inr (Internal h cs) \<longleftrightarrow>
     range_ok r \<and> rr_height r = h + 1 \<and> h < MAX_TREE_DEPTH \<and> (\<forall>c \<in> set cs. range_typed c)
     \<and> rr_min_path r = rr_min_path (hd cs) \<and> rr_max_path r = rr_max_path (last cs) \<and> sum_counts 0 cs = Inr (rr_file_count r)
     \<and> (\<exists>bs. get (rr_hash r) = Inr bs \<and> H bs = rr_hash r \<and> length bs = unat (rr_serialized_bytes r) \<and> encode_internal h cs = Inr bs)"
  using unsigned_less [of "rr_serialized_bytes r", where ?'a = nat]
  by (auto simp: load_node_def validate_loaded_node_def validate_descriptor_for_node_def decode_node_Internal range_ok_def
      split: if_splits V2Node.splits)

text \<open>\<open>spans rs ls vs\<close>: under the descriptors \<open>rs\<close> the leaves are \<open>ls\<close>, in order, and the nodes are \<open>vs\<close>.\<close>

inductive spans :: "(bytes \<Rightarrow> FileHash) \<Rightarrow> lookup \<Rightarrow> RangeRef list \<Rightarrow> RangeRef list \<Rightarrow> RangeRef list \<Rightarrow> bool" for H get where
  spans_Nil: "spans H get [] [] []"
| spans_leaf: "rr_height r = 0 \<Longrightarrow> spans H get rs ls vs \<Longrightarrow> spans H get (r # rs) (r # ls) (r # vs)"
| spans_node: "rr_height r \<noteq> 0 \<Longrightarrow> load_node H get r = Inr (Internal h cs) \<Longrightarrow> spans H get cs ls us \<Longrightarrow>
    spans H get rs ls' vs \<Longrightarrow> spans H get (r # rs) (ls @ ls') (r # us @ vs)"

inductive_simps spans_Nil_simp [simp]: "spans H get [] ls vs"
inductive_simps spans_Cons: "spans H get (r # rs) ls vs"

definition holds :: "(bytes \<Rightarrow> FileHash) \<Rightarrow> lookup \<Rightarrow> RangeRef list \<Rightarrow> FileEntry list list \<Rightarrow> bool" where
  "holds H get ls ess = list_all2 (\<lambda>l es. load_node H get l = Inr (Leaf es)) ls ess"

lemma spans_appendI:
  "spans H get rs ls vs \<Longrightarrow> spans H get ts ls' vs' \<Longrightarrow> spans H get (rs @ ts) (ls @ ls') (vs @ vs')"
proof (induction rule: spans.induct)
  case (spans_node r h cs ls us rs ls1 vs)
  show ?case using spans.spans_node [OF spans_node(1-3) spans_node.IH(2) [OF spans_node.prems]] by simp
qed (auto intro: spans.intros)

lemma spans_appendE:
  assumes "spans H get (rs @ ts) ls vs"
  obtains ls1 ls2 vs1 vs2 where "ls = ls1 @ ls2" "vs = vs1 @ vs2" "spans H get rs ls1 vs1" "spans H get ts ls2 vs2"
  using assms
proof (induction rs arbitrary: ls vs thesis)
  case Nil
  then show ?case using Nil.prems(1) [of "[]" ls "[]" vs] spans_Nil by simp
next
  case (Cons r rs)
  from Cons.prems(2) have "spans H get (r # (rs @ ts)) ls vs" by simp
  then show ?case unfolding spans_Cons
  proof (elim disjE exE conjE)
    fix ls' vs' assume a: "ls = r # ls'" "vs = r # vs'" "rr_height r = 0" "spans H get (rs @ ts) ls' vs'"
    obtain ls1 ls2 vs1 vs2 where "ls' = ls1 @ ls2" "vs' = vs1 @ vs2" "spans H get rs ls1 vs1" "spans H get ts ls2 vs2"
      using Cons.IH [OF _ a(4)] by blast
    then show thesis using Cons.prems(1) [of "r # ls1" ls2 "r # vs1" vs2] a spans_leaf by simp
  next
    fix h cs lc us ls' vs'
    assume a: "ls = lc @ ls'" "vs = r # us @ vs'" "rr_height r \<noteq> 0" "load_node H get r = Inr (Internal h cs)"
      "spans H get cs lc us" "spans H get (rs @ ts) ls' vs'"
    obtain ls1 ls2 vs1 vs2 where b: "ls' = ls1 @ ls2" "vs' = vs1 @ vs2" "spans H get rs ls1 vs1" "spans H get ts ls2 vs2"
      using Cons.IH [OF _ a(6)] by blast
    show thesis using Cons.prems(1) [of "lc @ ls1" ls2 "r # us @ vs1" vs2] a b spans_node [OF a(3-5) b(3)] by simp
  qed
qed


text \<open>The budget after visiting nodes.\<close>

fun visit_all :: "RangeRef list \<Rightarrow> TraversalBudget \<Rightarrow> ChunkError + TraversalBudget" where
  "visit_all [] b = Inr b"
| "visit_all (v # vs) b = and_then (budget_node (rr_height v) b) (visit_all vs)"

lemma visit_all_append: "visit_all (vs @ ws) b = and_then (visit_all vs b) (visit_all ws)"
proof (induction vs arbitrary: b)
  case (Cons v vs)
  then show ?case by (cases "budget_node (rr_height v) b") auto
qed simp

lemma budget_node_Inr:
  "budget_node h b = Inr b' \<longleftrightarrow> h \<le> MAX_TREE_DEPTH \<and> tb_nodes b < MAX_VISITED_NODES \<and> b' = b\<lparr>tb_nodes := tb_nodes b + 1\<rparr>"
  by (auto simp: budget_node_def)

lemma budget_entries_Inr:
  "budget_entries n b = Inr b' \<longleftrightarrow> tb_entries b + n \<le> MAX_LOADED_ENTRIES \<and> b' = b\<lparr>tb_entries := tb_entries b + n\<rparr>"
  by (auto simp: budget_entries_def)

lemma visit_all_Inr:
  "visit_all vs b = Inr b' \<longleftrightarrow> (\<forall>v \<in> set vs. rr_height v \<le> MAX_TREE_DEPTH)
     \<and> (vs = [] \<or> tb_nodes b + length vs \<le> MAX_VISITED_NODES) \<and> b' = b\<lparr>tb_nodes := tb_nodes b + length vs\<rparr>"
proof (induction vs arbitrary: b)
  case (Cons v vs)
  have "visit_all (v # vs) b = Inr b' \<longleftrightarrow> rr_height v \<le> MAX_TREE_DEPTH \<and> tb_nodes b < MAX_VISITED_NODES
      \<and> visit_all vs (b\<lparr>tb_nodes := tb_nodes b + 1\<rparr>) = Inr b'"
    by (auto simp: budget_node_Inr)
  then show ?case by (auto simp: Cons)
qed auto

lemma case_node_Inr:
  "(case node of Leaf es \<Rightarrow> invalid m | Internal h cs \<Rightarrow> f h cs) = Inr y \<longleftrightarrow> (\<exists>h cs. node = Internal h cs \<and> f h cs = Inr y)"
  "(case node of Leaf es \<Rightarrow> g es | Internal h cs \<Rightarrow> invalid m) = Inr y \<longleftrightarrow> (\<exists>es. node = Leaf es \<and> g es = Inr y)"
  by (cases node; simp)+

lemma collect_loop_sound:
  assumes "collect_loop H get pending leaves b = Inr (out, b')"
  shows "\<exists>ls vs. spans H get pending ls vs \<and> out = leaves @ ls \<and> visit_all vs b = Inr b'"
  using assms
proof (induction H get pending leaves b rule: collect_loop.induct)
  case (2 H get rng pending leaves b)
  obtain b1 where b1: "budget_node (rr_height rng) b = Inr b1" using "2.prems"(1) by auto
  show ?case
  proof (cases "rr_height rng = 0")
    case True
    then have "collect_loop H get pending (leaves @ [rng]) b1 = Inr (out, b')" using "2.prems" b1 by simp
    from 2(1) [OF b1 True this] obtain ls vs where "spans H get pending ls vs" "out = leaves @ rng # ls" "visit_all vs b1 = Inr b'" by auto
    then show ?thesis using b1 spans_leaf [OF True]
      by (intro exI [of _ "rng # ls"] exI [of _ "rng # vs"]) simp
  next
    case False
    with "2.prems"(1) b1 obtain h cs where n: "load_node H get rng = Inr (Internal h cs)"
        "collect_loop H get (cs @ pending) leaves b1 = Inr (out, b')"
      by (auto simp: case_node_Inr)
    from 2(2) [OF b1 False n(1) refl n(2)]
    obtain ls vs where *: "spans H get (cs @ pending) ls vs" "out = leaves @ ls" "visit_all vs b1 = Inr b'" by blast
    from *(1) obtain ls1 ls2 vs1 vs2 where "ls = ls1 @ ls2" "vs = vs1 @ vs2" "spans H get cs ls1 vs1" "spans H get pending ls2 vs2"
      by (rule spans_appendE)
    then show ?thesis using * b1 spans_node [OF False n(1)]
      by (intro exI [of _ ls] exI [of _ "rng # vs"]) simp
  qed
qed (auto intro: exI [of _ "[]"])

lemma collect_loop_complete:
  assumes "spans H get pending ls vs" "visit_all vs b = Inr b'"
  shows "collect_loop H get pending leaves b = Inr (leaves @ ls, b')"
  using assms
proof (induction H get pending leaves b arbitrary: ls vs rule: collect_loop.induct)
  case (2 H get rng pending leaves b)
  from "2.prems"(1) show ?case unfolding spans_Cons
  proof (elim disjE exE conjE)
    fix ls' vs' assume a: "ls = rng # ls'" "vs = rng # vs'" "rr_height rng = 0" "spans H get pending ls' vs'"
    with "2.prems"(2) obtain b1 where b1: "budget_node (rr_height rng) b = Inr b1" "visit_all vs' b1 = Inr b'" by auto
    show ?thesis using 2(1) [OF b1(1) a(3,4) b1(2)] a(1,3) b1(1) by simp
  next
    fix h cs lc us ls' vs'
    assume a: "ls = lc @ ls'" "vs = rng # us @ vs'" "rr_height rng \<noteq> 0" "load_node H get rng = Inr (Internal h cs)"
      "spans H get cs lc us" "spans H get pending ls' vs'"
    with "2.prems"(2) obtain b1 where b1: "budget_node (rr_height rng) b = Inr b1" "visit_all (us @ vs') b1 = Inr b'" by auto
    show ?thesis using 2(2) [OF b1(1) a(3,4) refl spans_appendI [OF a(5,6)] b1(2)] a(1,3,4) b1(1) by simp
  qed
qed simp

lemma spans_unique:
  "spans H get rs ls vs \<Longrightarrow> spans H get rs ls' vs' \<Longrightarrow> ls' = ls \<and> vs' = vs"
proof (induction arbitrary: ls' vs' rule: spans.induct)
  case (spans_leaf r rs ls vs)
  from spans_leaf.prems spans_leaf.hyps(1) obtain l2 v2 where "ls' = r # l2" "vs' = r # v2" "spans H get rs l2 v2"
    by (auto simp: spans_Cons)
  then show ?case using spans_leaf.IH [of l2 v2] by simp
next
  case (spans_node r h cs ls us rs ls1 vs)
  from spans_node.prems spans_node.hyps(1,2) obtain l2 u2 l3 v2 where
    "ls' = l2 @ l3" "vs' = r # u2 @ v2" "spans H get cs l2 u2" "spans H get rs l3 v2"
    by (auto simp: spans_Cons)
  then show ?case using spans_node.IH(1) [of l2 u2] spans_node.IH(2) [of l3 v2] by simp
qed simp

text \<open>Loading leaves in order.\<close>

fun read_all :: "FileEntry list list \<Rightarrow> TraversalBudget \<Rightarrow> ChunkError + TraversalBudget" where
  "read_all [] b = Inr b"
| "read_all (es # ess) b = and_then (budget_node 0 b) (\<lambda>b. and_then (budget_entries (length es) b) (read_all ess))"

lemma holds_Cons: "holds H get (l # ls) ess \<longleftrightarrow> (\<exists>es ess'. ess = es # ess' \<and> load_node H get l = Inr (Leaf es) \<and> holds H get ls ess')"
  by (auto simp: holds_def list_all2_Cons1)

lemma ex_holds_Cons:
  "(\<exists>ess. holds H get (l # ls) ess \<and> P ess) \<longleftrightarrow> (\<exists>es ess. load_node H get l = Inr (Leaf es) \<and> holds H get ls ess \<and> P (es # ess))"
  by (auto simp: holds_Cons)

lemma holds_Nil [simp]: "holds H get [] ess \<longleftrightarrow> ess = []"
  by (simp add: holds_def)

lemma load_leaves_Inr:
  "load_leaves H get ls out b = Inr (es, b') \<longleftrightarrow> (\<exists>ess. holds H get ls ess \<and> es = out @ concat ess \<and> read_all ess b = Inr b')"
proof (induction ls arbitrary: out b)
  case (Cons l ls)
  show ?case
    unfolding ex_holds_Cons by (simp add: Cons case_node_Inr) blast
qed auto

lemma read_all_Inr:
  "read_all ess b = Inr b' \<longleftrightarrow>
     (ess = [] \<or> tb_nodes b + length ess \<le> MAX_VISITED_NODES \<and> tb_entries b + length (concat ess) \<le> MAX_LOADED_ENTRIES)
     \<and> b' = \<lparr>tb_nodes = tb_nodes b + length ess, tb_entries = tb_entries b + length (concat ess)\<rparr>"
proof (induction ess arbitrary: b)
  case (Cons es ess)
  have "read_all (es # ess) b = Inr b' \<longleftrightarrow> tb_nodes b < MAX_VISITED_NODES \<and> tb_entries b + length es \<le> MAX_LOADED_ENTRIES
      \<and> read_all ess \<lparr>tb_nodes = tb_nodes b + 1, tb_entries = tb_entries b + length es\<rparr> = Inr b'"
    by (cases b) (auto simp: budget_node_Inr budget_entries_Inr)
  then show ?case by (auto simp: Cons)
qed auto


lemma sum_counts_Inr:
  "sum_counts a rs = Inr t \<longleftrightarrow> unat t = unat a + sum_list (map (\<lambda>r. unat (rr_file_count r)) rs)"
proof (induction rs arbitrary: a)
  case Nil
  show ?case by (auto simp: word_unat_eq_iff)
next
  case (Cons r rs)
  have t: "unat t < 2 ^ 64" using unsigned_less [of t, where ?'a = nat] by simp
  show ?case
  proof (cases "unat a + unat (rr_file_count r) < 2 ^ 64")
    case True
    then have "unat (a + rr_file_count r) = unat a + unat (rr_file_count r)" by (simp add: unat_word_ariths)
    with True show ?thesis by (simp add: u64_checked_add_def Cons add.assoc)
  next
    case False
    then show ?thesis using t by (simp add: u64_checked_add_def)
  qed
qed

lemma leaf_count:
  assumes "load_node H get l = Inr (Leaf es)"
  shows "unat (rr_file_count l) = length es" "entries_ok es" "length es \<le> MAX_LEAF_ENTRIES"
proof -
  have enc: "length es \<le> MAX_LEAF_ENTRIES" "entries_ok es" "rr_file_count l = of_nat (length es)"
    using assms by (auto simp: load_node_Leaf encode_leaf_Inr)
  then show "unat (rr_file_count l) = length es" by (simp add: unat_of_nat_u64 tree_limits)
  show "entries_ok es" "length es \<le> MAX_LEAF_ENTRIES" using enc by simp_all
qed

lemma holds_counts: "holds H get ls ess \<Longrightarrow> sum_list (map (\<lambda>r. unat (rr_file_count r)) ls) = length (concat ess)"
  by (induction ls arbitrary: ess) (auto simp: holds_Cons leaf_count)

lemma holds_length: "holds H get ls ess \<Longrightarrow> length ess = length ls"
  by (auto simp: holds_def dest: list_all2_lengthD)

lemma holds_leaf: "holds H get ls ess \<Longrightarrow> l \<in> set ls \<Longrightarrow> \<exists>es \<in> set ess. load_node H get l = Inr (Leaf es)"
  by (induction ls arbitrary: ess) (auto simp: holds_Cons)

lemma holds_ranges_ok:
  assumes "holds H get ls ess" "sorted_entries (concat ess)"
  shows "ranges_ok 0 ls"
  using assms
proof (induction ls arbitrary: ess)
  case (Cons l ls)
  from Cons.prems(1) obtain es ess' where ess: "ess = es # ess'" "load_node H get l = Inr (Leaf es)" "holds H get ls ess'"
    by (auto simp: holds_Cons)
  have l: "range_ok l" "rr_height l = 0" "es \<noteq> []" "rr_max_path l = fe_path (last es)" using ess(2) by (auto simp: load_node_Leaf)
  have "rr_max_path l < rr_min_path m" if m: "m \<in> set ls" for m
  proof -
    obtain fs where fs: "fs \<in> set ess'" "load_node H get m = Inr (Leaf fs)" using holds_leaf [OF ess(3) m] by blast
    then have "fs \<noteq> []" "rr_min_path m = fe_path (hd fs)" by (simp_all add: load_node_Leaf)
    then have "hd fs \<in> set (concat ess')" "rr_min_path m = fe_path (hd fs)" using fs(1) by (auto intro: bexI [of _ fs])
    then show ?thesis using Cons.prems(2) ess(1) l by (auto simp: sorted_entries_append)
  qed
  then show ?case using Cons.IH [OF ess(3)] Cons.prems(2) ess(1) l
    by (auto simp: ranges_ok_def sorted_entries_append)
qed (simp add: ranges_ok_def)

lemma load_leaf_span_Inr:
  "load_leaf_span H get ls b = Inr (es, b') \<longleftrightarrow>
     (\<exists>ess. holds H get ls ess \<and> es = concat ess \<and> entries_ok es \<and> read_all ess b = Inr b')"
proof
  assume "load_leaf_span H get ls b = Inr (es, b')"
  then show "\<exists>ess. holds H get ls ess \<and> es = concat ess \<and> entries_ok es \<and> read_all ess b = Inr b'"
    by (auto simp: load_leaf_span_def load_leaves_Inr codec_simps split: if_splits)
next
  assume "\<exists>ess. holds H get ls ess \<and> es = concat ess \<and> entries_ok es \<and> read_all ess b = Inr b'"
  then obtain ess where *: "holds H get ls ess" "es = concat ess" "entries_ok es" "read_all ess b = Inr b'" by blast
  have "\<forall>l \<in> set ls. range_ok l \<and> rr_height l = 0" using holds_leaf [OF *(1)] by (fastforce simp: load_node_Leaf)
  moreover have "sum_list (map (\<lambda>r. unat (rr_file_count r)) ls) < 2 ^ 64"
    using holds_counts [OF *(1)] *(2,3) by (simp add: entries_ok_def tree_limits)
  moreover have "load_leaves H get ls [] b = Inr (es, b')" using * by (auto simp: load_leaves_Inr)
  ultimately show "load_leaf_span H get ls b = Inr (es, b')"
    using *(3) by (auto simp: load_leaf_span_def range_ok_def codec_simps)
qed

lemma collect_leaf_refs_Inr:
  "collect_leaf_refs H get root b = Inr (ls, b') \<longleftrightarrow>
     validate_root_shape root = Inr () \<and> (\<exists>vs. spans H get (root_children root) ls vs \<and> visit_all vs b = Inr b')
     \<and> ranges_ok 0 ls \<and> sum_counts 0 ls = Inr (tr_total_files root)" (is "?l \<longleftrightarrow> ?r")
proof
  assume ?l
  then have "collect_loop H get (root_children root) [] b = Inr (ls, b')" "validate_root_shape root = Inr ()"
      "ranges_ok 0 ls" "sum_counts 0 ls = Inr (tr_total_files root)"
    by (auto simp: collect_leaf_refs_def codec_simps split: if_splits)
  then show ?r using collect_loop_sound [of H get "root_children root" "[]" b ls b'] by auto
next
  assume ?r
  then obtain vs where "spans H get (root_children root) ls vs" "visit_all vs b = Inr b'" by blast
  from collect_loop_complete [OF this, of "[]"] \<open>?r\<close> show ?l
    by (simp add: collect_leaf_refs_def codec_simps)
qed

text \<open>The entries a root stands for.\<close>

definition denotes :: "(bytes \<Rightarrow> FileHash) \<Rightarrow> lookup \<Rightarrow> TreeV2Root \<Rightarrow> RangeRef list \<Rightarrow> RangeRef list \<Rightarrow> FileEntry list list \<Rightarrow> bool" where
  "denotes H get root ls vs ess \<longleftrightarrow>
     validate_root_shape root = Inr () \<and> spans H get (root_children root) ls vs \<and> holds H get ls ess
     \<and> entries_ok (concat ess) \<and> length (concat ess) = unat (tr_total_files root)"

lemma denotes_ranges:
  assumes "denotes H get root ls vs ess"
  shows "ranges_ok 0 ls" "sum_counts 0 ls = Inr (tr_total_files root)"
  using assms holds_ranges_ok [of H get ls ess] holds_counts [of H get ls ess]
  by (auto simp: denotes_def entries_ok_def sum_counts_Inr)

lemma visit_default:
  "visit_all vs budget_default = Inr b \<longleftrightarrow> (\<forall>v \<in> set vs. rr_height v \<le> MAX_TREE_DEPTH) \<and> length vs \<le> MAX_VISITED_NODES
     \<and> b = \<lparr>tb_nodes = length vs, tb_entries = 0\<rparr>"
  by (auto simp: visit_all_Inr budget_default_def)

lemma range_ok_height: "range_ok r \<Longrightarrow> rr_height r \<le> MAX_TREE_DEPTH"
  by (auto simp: range_ok_def validate_range_def split: if_splits)

lemma spans_heights:
  "spans H get rs ls vs \<Longrightarrow> \<forall>r \<in> set rs. rr_height r \<le> MAX_TREE_DEPTH \<Longrightarrow> \<forall>v \<in> set vs. rr_height v \<le> MAX_TREE_DEPTH"
proof (induction rule: spans.induct)
  case (spans_node r h cs ls us rs ls' vs)
  have "\<forall>c \<in> set cs. rr_height c \<le> MAX_TREE_DEPTH"
    using spans_node.hyps(2) by (auto simp: load_node_Internal encode_internal_Inr ranges_ok_def range_ok_height)
  with spans_node show ?case by auto
qed auto

lemma root_children_ok: "validate_root_shape root = Inr () \<Longrightarrow> \<forall>r \<in> set (root_children root). range_ok r"
  using root_shape_child [of root] by (auto simp: root_children_def split: option.splits)

lemma denotes_collect:
  assumes "denotes H get root ls vs ess" "length vs \<le> MAX_VISITED_NODES"
  shows "collect_leaf_refs H get root budget_default = Inr (ls, \<lparr>tb_nodes = length vs, tb_entries = 0\<rparr>)"
proof -
  have "\<forall>v \<in> set vs. rr_height v \<le> MAX_TREE_DEPTH"
    using assms(1) spans_heights [of H get "root_children root" ls vs] root_children_ok [of root] range_ok_height
    by (auto simp: denotes_def)
  then show ?thesis
    using assms denotes_ranges [OF assms(1)] by (auto simp: collect_leaf_refs_Inr denotes_def visit_default)
qed

lemma load_all_entries_Inr:
  "load_all_entries H get root = Inr es \<longleftrightarrow>
     (\<exists>ls vs ess. denotes H get root ls vs ess \<and> es = concat ess \<and> length vs + length ls \<le> MAX_VISITED_NODES)" (is "?l \<longleftrightarrow> ?r")
proof
  assume ?l
  then obtain ls b b' where c: "collect_leaf_refs H get root budget_default = Inr (ls, b)"
      and l: "load_leaf_span H get ls b = Inr (es, b')" and t: "of_nat (length es) = tr_total_files root"
    by (auto simp: load_all_entries_def split: if_splits)
  from c obtain vs where vs: "validate_root_shape root = Inr ()" "spans H get (root_children root) ls vs" "visit_all vs budget_default = Inr b"
    by (auto simp: collect_leaf_refs_Inr)
  from l obtain ess where ess: "holds H get ls ess" "es = concat ess" "entries_ok es" "read_all ess b = Inr b'"
    by (auto simp: load_leaf_span_Inr)
  have "unat (tr_total_files root) = length es"
    using unat_of_nat_u64 [of "length es"] ess(3) unfolding t by (simp add: entries_ok_def tree_limits)
  then have "denotes H get root ls vs ess" using vs ess by (simp add: denotes_def)
  moreover have "length vs + length ls \<le> MAX_VISITED_NODES"
    using vs(3) ess(4) holds_length [OF ess(1)] by (auto simp: visit_default read_all_Inr)
  ultimately show ?r using ess(2) by blast
next
  assume ?r
  then obtain ls vs ess where d: "denotes H get root ls vs ess" and es: "es = concat ess" and n: "length vs + length ls \<le> MAX_VISITED_NODES"
    by blast
  have "collect_leaf_refs H get root budget_default = Inr (ls, \<lparr>tb_nodes = length vs, tb_entries = 0\<rparr>)"
    using d n by (intro denotes_collect) simp_all
  moreover have "load_leaf_span H get ls \<lparr>tb_nodes = length vs, tb_entries = 0\<rparr> =
      Inr (es, \<lparr>tb_nodes = length vs + length ls, tb_entries = length es\<rparr>)"
    using d n es holds_length [of H get ls ess]
    by (auto simp: load_leaf_span_Inr denotes_def read_all_Inr entries_ok_def intro!: exI [of _ ess])
  ultimately show ?l using d es by (simp add: load_all_entries_def denotes_def)
qed


section \<open>Pages\<close>

abbreviation after_cursor :: "string option \<Rightarrow> FileEntry list \<Rightarrow> FileEntry list" where
  "after_cursor after es \<equiv> filter (\<lambda>e. \<not> at_or_before after (fe_path e)) es"

lemma page_entries_eq:
  "length out < n \<Longrightarrow> page_entries after n es out =
     (take n (out @ after_cursor after es), n \<le> length (out @ after_cursor after es))"
  by (induction after n es out rule: page_entries.induct) auto

lemma sorted_entries_last: "sorted_entries es \<Longrightarrow> e \<in> set es \<Longrightarrow> fe_path e \<le> fe_path (last es)"
  by (induction es) (auto intro: less_imp_le)

lemma leaf_at_or_before:
  assumes "load_node H get l = Inr (Leaf es)" "at_or_before after (rr_max_path l)"
  shows "after_cursor after es = []"
proof -
  have max: "rr_max_path l = fe_path (last es)" "sorted_entries es" using assms(1) by (auto simp: load_node_Leaf encode_leaf_Inr entries_ok_def)
  obtain cursor where "after = Some cursor" "fe_path (last es) \<le> cursor"
    using assms(2) max(1) by (auto simp: at_or_before_def split: option.splits)
  then show ?thesis using sorted_entries_last [OF max(2)] by (auto simp: at_or_before_def filter_empty_conv intro: order.trans)
qed

lemma page_leaves_eq:
  assumes "holds H get ls ess" "length out < n" "entries_ok (concat ess)"
    "tb_nodes b + length ls \<le> MAX_VISITED_NODES" "tb_entries b + length (concat ess) \<le> MAX_LOADED_ENTRIES"
  shows "page_leaves H get after n ls out b = Inr (take n (out @ after_cursor after (concat ess)))"
  using assms
proof (induction ls arbitrary: ess out b)
  case (Cons l ls)
  from Cons.prems(1) obtain es ess' where ess: "ess = es # ess'" "load_node H get l = Inr (Leaf es)" "holds H get ls ess'"
    by (auto simp: holds_Cons)
  have ok: "entries_ok es" "entries_ok (concat ess')" using Cons.prems(3) ess(1) by (auto simp: entries_ok_def sorted_entries_append)
  show ?case
  proof (cases "at_or_before after (rr_max_path l)")
    case True
    then show ?thesis using Cons.IH [OF ess(3) Cons.prems(2) ok(2)] Cons.prems(4,5) ess(1) leaf_at_or_before [OF ess(2) True] by simp
  next
    case False
    let ?b = "\<lparr>tb_nodes = tb_nodes b + 1, tb_entries = tb_entries b + length es\<rparr>"
    have span: "load_leaf_span H get [l] b = Inr (es, ?b)"
      using ess(1,2) ok(1) Cons.prems(4,5) by (auto simp: load_leaf_span_Inr holds_Cons read_all_Inr)
    let ?out = "out @ after_cursor after es"
    show ?thesis
    proof (cases "n \<le> length ?out")
      case True
      then show ?thesis using False span ess(1) by (simp add: page_entries_eq [OF Cons.prems(2)])
    next
      case less: False
      then show ?thesis using False span ess(1) Cons.IH [OF ess(3) _ ok(2), of ?out ?b] Cons.prems(4,5)
        by (simp add: page_entries_eq [OF Cons.prems(2)])
    qed
  qed
qed simp

section \<open>A tree of one leaf\<close>

definition leaf_ref :: "(bytes \<Rightarrow> FileHash) \<Rightarrow> FileEntry list \<Rightarrow> bytes \<Rightarrow> RangeRef" where
  "leaf_ref H es bs = \<lparr>rr_min_path = fe_path (hd es), rr_max_path = fe_path (last es), rr_hash = H bs,
     rr_file_count = of_nat (length es), rr_serialized_bytes = of_nat (length bs), rr_height = 0\<rparr>"

lemma leaf_ref_loads:
  assumes "encode_leaf es = Inr bs" "es \<noteq> []" "\<forall>e \<in> set es. entry_typed e" "get (H bs) = Inr bs"
  shows "load_node H get (leaf_ref H es bs) = Inr (Leaf es)" "range_ok (leaf_ref H es bs)"
proof -
  have es: "entries_ok es" "length es \<le> MAX_LEAF_ENTRIES" using assms(1) by (auto simp: encode_leaf_Inr)
  have bs: "length bs \<le> MAX_NODE_BYTES" "0 < length bs"
    using assms(1,3) length_encode_entries [OF assms(3)] by (auto simp: encode_leaf_Inr LEAF_HEADER_BYTES_def)
  then have sb: "unat (of_nat (length bs) :: u32) = length bs" by (intro unat_of_nat_u32) (simp add: tree_limits)
  have n: "unat (of_nat (length es) :: u64) = length es" using es(2) by (intro unat_of_nat_u64) (simp add: tree_limits)
  have nz: "(of_nat (length es) :: u64) \<noteq> 0" "(of_nat (length bs) :: u32) \<noteq> 0"
    using n sb assms(2) bs(2) by (auto simp: word_unat_eq_iff)
  have "fe_path (hd es) \<le> fe_path (last es)" using es(1) assms(2) by (intro sorted_entries_last) (auto simp: entries_ok_def)
  moreover have "path_ok (fe_path (hd es))" "path_ok (fe_path (last es))" using es(1) assms(2) by (simp_all add: entries_ok_def)
  ultimately show ok: "range_ok (leaf_ref H es bs)"
    using n nz es(2) bs(1) sb
    by (auto simp: range_ok_def validate_range_def leaf_ref_def path_ok_def word_le_nat_alt word_less_nat_alt tree_limits
        simp del: word_of_nat_eq_0_iff)
  show "load_node H get (leaf_ref H es bs) = Inr (Leaf es)"
    unfolding load_node_Leaf using ok assms sb by (simp add: leaf_ref_def)
qed

definition leaf_root :: "(bytes \<Rightarrow> FileHash) \<Rightarrow> FileEntry list \<Rightarrow> bytes \<Rightarrow> TreeV2Root" where
  "leaf_root H es bs = \<lparr>tr_version = TREE_VERSION, tr_total_files = of_nat (length es), tr_child = Some (leaf_ref H es bs)\<rparr>"

lemma leaf_root_denotes:
  assumes "encode_leaf es = Inr bs" "es \<noteq> []" "\<forall>e \<in> set es. entry_typed e" "get (H bs) = Inr bs"
  shows "denotes H get (leaf_root H es bs) [leaf_ref H es bs] [leaf_ref H es bs] [es]"
proof -
  note leaf = leaf_ref_loads [where get = get and H = H, OF assms]
  have es: "entries_ok es" "length es \<le> MAX_LEAF_ENTRIES" using assms(1) by (auto simp: encode_leaf_Inr)
  have n: "unat (of_nat (length es) :: u64) = length es" using es(2) by (intro unat_of_nat_u64) (simp add: tree_limits)
  then have "(of_nat (length es) :: u64) > 0" using assms(2) by (auto simp: word_less_nat_alt)
  then show ?thesis
    using leaf es n unfolding denotes_def leaf_root_def
    by (auto simp: validate_root_shape_def range_ok_def root_children_def spans_Cons holds_Cons leaf_ref_def MAX_TREE_DEPTH_def)
qed

lemma leaf_root_loads:
  assumes "encode_leaf es = Inr bs" "es \<noteq> []" "\<forall>e \<in> set es. entry_typed e" "get (H bs) = Inr bs"
  shows "load_all_entries H get (leaf_root H es bs) = Inr es"
  using leaf_root_denotes [where get = get and H = H, OF assms] unfolding load_all_entries_Inr by (fastforce simp: MAX_VISITED_NODES_def)

section \<open>Properties\<close>

text \<open>(C8) A page of a tree that loads is exactly the next entries after the cursor: the entries of the whole
  tree whose path is greater than the cursor, cut to the page size, whichever leaves were skipped.\<close>

theorem range_page_exact:
  assumes "load_all_entries H get root = Inr es" "0 < n" "n \<le> 8192" "\<forall>p. after = Some p \<longrightarrow> validate_path p = Inr ()"
  shows "range_page H get root after n = Inr (take n (filter (\<lambda>e. \<not> at_or_before after (fe_path e)) es))"
proof -
  from assms(1) obtain ls vs ess where d: "denotes H get root ls vs ess" "es = concat ess" "length vs + length ls \<le> MAX_VISITED_NODES"
    by (auto simp: load_all_entries_Inr)
  have "collect_leaf_refs H get root budget_default = Inr (ls, \<lparr>tb_nodes = length vs, tb_entries = 0\<rparr>)"
    using d by (intro denotes_collect) simp_all
  moreover have "page_leaves H get after n ls [] \<lparr>tb_nodes = length vs, tb_entries = 0\<rparr> =
      Inr (take n ([] @ after_cursor after (concat ess)))"
    using d assms(2) by (intro page_leaves_eq) (auto simp: denotes_def entries_ok_def)
  ultimately show ?thesis using assms(2-4) d(2) by (auto simp: range_page_def split: option.splits)
qed


theorem range_page_exact_witness:
  "let es = [FileEntry.make ''a'' ZERO_HASH 1 2, FileEntry.make ''b'' ZERO_HASH 3 4, FileEntry.make ''c'' ZERO_HASH 5 6] in
   \<exists>get root. range_page (\<lambda>b. ZERO_HASH) get root (Some ''a'') 1 = Inr [es ! 1]"
proof -
  let ?es = "[FileEntry.make ''a'' ZERO_HASH 1 2, FileEntry.make ''b'' ZERO_HASH 3 4, FileEntry.make ''c'' ZERO_HASH 5 6]"
  have ok: "entries_ok ?es" by (simp add: entries_ok_def plain_paths FileEntry.defs tree_limits)
  have typed: "\<forall>e \<in> set ?es. entry_typed e"
    by (simp add: entry_typed_def FileEntry.defs ZERO_HASH_def as_bytes_def from_utf8_ok_ascii)
  obtain bs where bs: "encode_leaf ?es = Inr bs"
    using ok by (auto simp: encode_leaf_Inr leaf_record_len_def FileEntry.defs tree_limits)
  from leaf_root_loads [OF bs _ typed, of "\<lambda>h. Inr bs" "\<lambda>b. ZERO_HASH"]
  obtain root where root: "load_all_entries (\<lambda>b. ZERO_HASH) (\<lambda>h. Inr bs) root = Inr ?es" by auto
  have "validate_path ''a'' = Inr ()" using plain_paths by (simp add: path_ok_def)
  from range_page_exact [OF root, of 1 "Some ''a''"] this
  have "range_page (\<lambda>b. ZERO_HASH) (\<lambda>h. Inr bs) root (Some ''a'') 1 = Inr [?es ! 1]"
    by (simp add: at_or_before_def FileEntry.defs)
  then show ?thesis unfolding Let_def by blast
qed

end
