(* ===== verification/Tree_V2_Build.thy ===== *)
theory Tree_V2_Build
  imports Tree_V2_Read Chunk_Store
begin

text \<open>
  Building a Tree v2 (\<open>tree_v2.rs\<close>: \<open>store_leaf\<close>, \<open>store_internal\<close>, \<open>root_from_leaves\<close>,
  \<open>build_tree\<close>). The levels are computations over a store that only put nodes, so what they
  leave is read back through the relation \<open>writes\<close> of \<open>Chunk_Store\<close>. The theorems say that a
  valid entry list always builds, within the depth and node limits, and that the tree stands for
  the list.
\<close>

section \<open>Operations\<close>

definition store_leaf :: "'s store_ops \<Rightarrow> (bytes \<Rightarrow> FileHash) \<Rightarrow> FileEntry list \<Rightarrow> ('s, RangeRef) store_io" where
  "store_leaf ops H entries =
     io_bind (io_lift (encode_leaf entries)) (\<lambda>bs.
       if length bs \<ge> 2 ^ 32 then io_fail (Deserialize ''Tree v2 leaf length does not fit its descriptor'')
       else io_bind (put_op ops (H bs) bs) (\<lambda>_.
         io_return \<lparr>rr_min_path = fe_path (hd entries), rr_max_path = fe_path (last entries), rr_hash = H bs,
           rr_file_count = of_nat (length entries), rr_serialized_bytes = of_nat (length bs), rr_height = 0\<rparr>))"

text \<open>The boundary paths are moved out of the children, which the caller drops.\<close>

definition store_internal ::
  "'s store_ops \<Rightarrow> (bytes \<Rightarrow> FileHash) \<Rightarrow> u16 \<Rightarrow> RangeRef list \<Rightarrow> ('s, RangeRef) store_io" where
  "store_internal ops H child_height children =
     io_bind (io_lift (encode_internal child_height children)) (\<lambda>bs.
       if length bs \<ge> 2 ^ 32 then io_fail (Deserialize ''Tree v2 internal length does not fit its descriptor'')
       else io_bind (put_op ops (H bs) bs) (\<lambda>_.
         io_bind (io_lift (sum_counts 0 children)) (\<lambda>file_count.
           io_return \<lparr>rr_min_path = rr_min_path (hd children), rr_max_path = rr_max_path (last children), rr_hash = H bs,
             rr_file_count = file_count, rr_serialized_bytes = of_nat (length bs), rr_height = child_height + 1\<rparr>)))"

definition empty_root :: TreeV2Root where
  "empty_root = \<lparr>tr_version = TREE_VERSION, tr_total_files = 0, tr_child = None\<rparr>"

text \<open>The loop over the levels: each level is one higher than the one below, so the depth limit
  bounds it.\<close>

lemma store_internal_height:
  "store_internal ops H h cs s = (Inr r, s') \<Longrightarrow> rr_height r = h + 1"
  by (auto simp: store_internal_def split: if_splits)

lemma store_internals_height:
  "io_map (\<lambda>g. store_internal ops H h (f g)) gs s = (Inr ps, s') \<Longrightarrow> \<forall>p \<in> set ps. rr_height p = h + 1"
  by (induction gs arbitrary: s ps) (auto dest: store_internal_height)

definition levels_left :: "RangeRef list \<Rightarrow> nat" where
  "levels_left ranges = (if length ranges \<le> 1 then 0 else 17 - unat (rr_height (hd ranges)))"

lemma levels_left_less:
  assumes "\<not> length ranges \<le> 1" "\<not> rr_height (hd ranges) \<ge> MAX_TREE_DEPTH" "\<forall>p \<in> set parents. rr_height p = rr_height (hd ranges) + 1"
  shows "levels_left parents < levels_left ranges"
proof -
  have h: "unat (rr_height (hd ranges)) < 16" using assms(2) by (simp add: MAX_TREE_DEPTH_def word_le_nat_alt)
  then have "unat (rr_height (hd ranges) + 1) = unat (rr_height (hd ranges)) + 1" by (simp add: unat_word_ariths)
  moreover have "rr_height (hd parents) = rr_height (hd ranges) + 1" if "\<not> length parents \<le> 1"
    using assms(3) that by (cases parents) auto
  ultimately show ?thesis using h assms(1) by (auto simp: levels_left_def)
qed

function levels_loop ::
  "'s store_ops \<Rightarrow> (bytes \<Rightarrow> FileHash) \<Rightarrow> RangeRef list \<Rightarrow> nat \<Rightarrow> 's \<Rightarrow> (ChunkError + RangeRef list \<times> nat) \<times> 's" where
  "levels_loop ops H ranges emitted s =
     (if length ranges \<le> 1 then (Inr (ranges, emitted), s)
      else if rr_height (hd ranges) \<ge> MAX_TREE_DEPTH then (invalid ''Tree v2 exceeds the depth limit'', s)
      else io_bind (io_lift (validate_ranges ranges (rr_height (hd ranges)))) (\<lambda>_.
           io_bind (io_lift (segment_ranges ranges)) (\<lambda>segments.
           io_bind (io_map (\<lambda>g. store_internal ops H (rr_height (hd ranges)) (sub_list (seg_start g) (seg_end g) ranges)) segments) (\<lambda>parents.
             levels_loop ops H parents (emitted + length parents)))) s)"
  by pat_completeness auto
termination
  by (relation "measure (\<lambda>(ops, H, ranges, emitted, s). levels_left ranges)")
    (auto intro!: levels_left_less dest: store_internals_height)

declare levels_loop.simps [simp del]

definition root_from_leaves ::
  "'s store_ops \<Rightarrow> (bytes \<Rightarrow> FileHash) \<Rightarrow> RangeRef list \<Rightarrow> ('s, TreeV2Root \<times> nat) store_io" where
  "root_from_leaves ops H ranges =
     (if ranges = [] then io_return (empty_root, 0)
      else io_bind (io_lift (validate_ranges ranges 0)) (\<lambda>_.
           io_bind (io_lift (sum_counts 0 ranges)) (\<lambda>total_files.
           io_bind (levels_loop ops H ranges 0) (\<lambda>(ranges, emitted).
             io_return (\<lparr>tr_version = TREE_VERSION, tr_total_files = total_files, tr_child = Some (last ranges)\<rparr>, emitted)))))"

definition build_tree :: "'s store_ops \<Rightarrow> (bytes \<Rightarrow> FileHash) \<Rightarrow> FileEntry list \<Rightarrow> ('s, TreeV2Root) store_io" where
  "build_tree ops H entries =
     (let entries = sort_key fe_path entries in
      io_bind (io_lift (validate_entries entries)) (\<lambda>_.
        if entries = [] then io_return empty_root
        else io_bind (io_lift (segment_entries entries)) (\<lambda>segments.
             io_bind (io_map (\<lambda>g. store_leaf ops H (sub_list (seg_start g) (seg_end g) entries)) segments) (\<lambda>leaves.
             io_bind (root_from_leaves ops H leaves) (\<lambda>(root, _). io_return root)))))"

lemma levels_loop_step:
  "levels_loop ops H rs n =
     (if length rs \<le> 1 then io_return (rs, n)
      else if rr_height (hd rs) \<ge> MAX_TREE_DEPTH then io_fail (Deserialize ''Tree v2 exceeds the depth limit'')
      else io_bind (io_lift (validate_ranges rs (rr_height (hd rs)))) (\<lambda>_.
           io_bind (io_lift (segment_ranges rs)) (\<lambda>segments.
           io_bind (io_map (\<lambda>g. store_internal ops H (rr_height (hd rs)) (sub_list (seg_start g) (seg_end g) rs)) segments) (\<lambda>parents.
             levels_loop ops H parents (n + length parents)))))"
  by (rule ext) (subst levels_loop.simps, simp)

section \<open>They only put\<close>

context content_store
begin

lemma writes_store_leaf: "writes (store_leaf ops H es) (store_leaf recorder_ops H es)"
  unfolding store_leaf_def by (intro writes_bind writes_lift) (simp add: writes_fail writes_bind writes_put writes_return)

lemma writes_store_internal: "writes (store_internal ops H h cs) (store_internal recorder_ops H h cs)"
  unfolding store_internal_def
  by (intro writes_bind writes_lift) (simp add: writes_fail writes_bind writes_put writes_return writes_lift)

lemma writes_levels_loop: "writes (levels_loop ops H rs n) (levels_loop recorder_ops H rs n)"
proof (induction "levels_left rs" arbitrary: rs n rule: less_induct)
  case less
  have "writes (levels_loop ops H ps (n + length ps)) (levels_loop recorder_ops H ps (n + length ps))"
    if "\<not> length rs \<le> 1" "\<not> rr_height (hd rs) \<ge> MAX_TREE_DEPTH"
      "(\<exists>s s'. io_map (\<lambda>g. store_internal ops H (rr_height (hd rs)) (sub_list (seg_start g) (seg_end g) rs)) gs s = (Inr ps, s'))
       \<or> (\<exists>s s'. io_map (\<lambda>g. store_internal recorder_ops H (rr_height (hd rs)) (sub_list (seg_start g) (seg_end g) rs)) gs s = (Inr ps, s'))"
    for ps gs
  proof -
    have "\<forall>p \<in> set ps. rr_height p = rr_height (hd rs) + 1"
      using that(3) by (elim disjE exE) (erule store_internals_height)+
    then show ?thesis using less levels_left_less [OF that(1,2)] by blast
  qed
  then show ?case
    unfolding levels_loop_step [of ops H rs n] levels_loop_step [of recorder_ops H rs n]
    by (auto simp: writes_return writes_fail intro!: writes_bind_result writes_lift writes_map writes_store_internal) blast+
qed

lemma writes_root_from_leaves: "writes (root_from_leaves ops H ls) (root_from_leaves recorder_ops H ls)"
  unfolding root_from_leaves_def
  by (auto simp: writes_return split: prod.splits intro!: writes_bind writes_lift writes_levels_loop)

lemma writes_build_tree: "writes (build_tree ops H es) (build_tree recorder_ops H es)"
  unfolding build_tree_def Let_def
  by (auto simp: writes_return split: prod.splits
      intro!: writes_bind writes_lift writes_map writes_store_leaf writes_root_from_leaves)

end

context reliable_store
begin

lemma same_store_leaf: "same_result (store_leaf ops H es) (store_leaf recorder_ops H es)"
  unfolding store_leaf_def by (intro same_bind same_lift) (simp add: same_fail same_bind same_put same_return)

lemma same_store_internal: "same_result (store_internal ops H h cs) (store_internal recorder_ops H h cs)"
  unfolding store_internal_def
  by (intro same_bind same_lift) (simp add: same_fail same_bind same_put same_return same_lift)

lemma same_levels_loop: "same_result (levels_loop ops H rs n) (levels_loop recorder_ops H rs n)"
proof (induction "levels_left rs" arbitrary: rs n rule: less_induct)
  case less
  have "same_result (levels_loop ops H ps (n + length ps)) (levels_loop recorder_ops H ps (n + length ps))"
    if "\<not> length rs \<le> 1" "\<not> rr_height (hd rs) \<ge> MAX_TREE_DEPTH"
      "\<exists>s s'. io_map (\<lambda>g. store_internal ops H (rr_height (hd rs)) (sub_list (seg_start g) (seg_end g) rs)) gs s = (Inr ps, s')"
    for ps gs
  proof -
    have "\<forall>p \<in> set ps. rr_height p = rr_height (hd rs) + 1" using that(3) by (elim exE) (erule store_internals_height)
    then show ?thesis using less levels_left_less [OF that(1,2)] by blast
  qed
  then show ?case
    unfolding levels_loop_step [of ops H rs n] levels_loop_step [of recorder_ops H rs n]
    by (auto simp: same_return same_fail intro!: same_bind_result same_lift same_map same_store_internal)
qed

lemma same_root_from_leaves: "same_result (root_from_leaves ops H ls) (root_from_leaves recorder_ops H ls)"
  unfolding root_from_leaves_def
  by (auto simp: same_return split: prod.splits intro!: same_bind same_lift same_levels_loop)

lemma same_build_tree: "same_result (build_tree ops H es) (build_tree recorder_ops H es)"
  unfolding build_tree_def Let_def
  by (auto simp: same_return split: prod.splits
      intro!: same_bind same_lift same_map same_store_leaf same_root_from_leaves)

end


section \<open>What the recorder sees\<close>

abbreviation file_sum :: "RangeRef list \<Rightarrow> nat" where
  "file_sum rs \<equiv> sum_list (map (\<lambda>r. unat (rr_file_count r)) rs)"

definition node_ref :: "(bytes \<Rightarrow> FileHash) \<Rightarrow> u16 \<Rightarrow> RangeRef list \<Rightarrow> bytes \<Rightarrow> RangeRef" where
  "node_ref H h cs bs = \<lparr>rr_min_path = rr_min_path (hd cs), rr_max_path = rr_max_path (last cs), rr_hash = H bs,
     rr_file_count = of_nat (file_sum cs), rr_serialized_bytes = of_nat (length bs), rr_height = h + 1\<rparr>"

lemma ranges_ok_hd_last:
  assumes "ranges_ok h cs" "cs \<noteq> []"
  shows "rr_min_path (hd cs) \<le> rr_max_path (last cs)"
proof (cases cs)
  case (Cons c rest)
  have c: "rr_min_path c \<le> rr_max_path c" using assms(1) Cons range_ok_paths [of c] by (auto simp: ranges_ok_def)
  show ?thesis
  proof (cases "rest = []")
    case False
    then have l: "rr_max_path c < rr_min_path (last rest)" "range_ok (last rest)"
      using assms(1) Cons by (auto simp: ranges_ok_def)
    then have "rr_min_path (last rest) \<le> rr_max_path (last rest)" using range_ok_paths by blast
    with c l(1) have "rr_min_path c \<le> rr_max_path (last rest)" by (meson order.strict_implies_order order.trans)
    then show ?thesis using Cons False by simp
  qed (use Cons c in simp)
qed (use assms in simp)

lemma range_ok_count: "range_ok r \<Longrightarrow> 0 < unat (rr_file_count r)"
  by (auto simp: range_ok_def validate_range_def unat_gt_0 split: if_splits)

lemma node_ref_loads:
  assumes enc: "encode_internal h cs = Inr bs" and typed: "\<forall>c \<in> set cs. range_typed c" and h: "h < MAX_TREE_DEPTH"
    and total: "file_sum cs \<le> MAX_LOADED_ENTRIES"
  shows "range_ok (node_ref H h cs bs)" "length bs < 2 ^ 32" "sum_counts 0 cs = Inr (of_nat (file_sum cs))"
    and "get (H bs) = Inr bs \<Longrightarrow> load_node H get (node_ref H h cs bs) = Inr (Internal h cs)"
proof -
  have cs: "ranges_ok h cs" "cs \<noteq> []" using enc by (auto simp: encode_internal_Inr)
  have bs: "length bs \<le> MAX_NODE_BYTES" "0 < length bs"
    using enc length_encode_ranges [OF typed] by (auto simp: encode_internal_Inr INTERNAL_HEADER_BYTES_def)
  then show "length bs < 2 ^ 32" by (simp add: tree_limits)
  have sb: "unat (of_nat (length bs) :: u32) = length bs" using bs by (intro unat_of_nat_u32) (simp add: tree_limits)
  have n: "unat (of_nat (file_sum cs) :: u64) = file_sum cs" using total by (intro unat_of_nat_u64) (simp add: tree_limits)
  show sum: "sum_counts 0 cs = Inr (of_nat (file_sum cs))" unfolding sum_counts_Inr n by simp
  have "0 < file_sum cs" using cs range_ok_count by (cases cs) (auto simp: ranges_ok_def)
  then have nz: "(of_nat (file_sum cs) :: u64) \<noteq> 0" "(of_nat (length bs) :: u32) \<noteq> 0"
    using n sb bs(2) by (metis less_irrefl unat_0)+
  have hh: "unat (h + 1) = unat h + 1" "unat h < 16" using h by (auto simp: MAX_TREE_DEPTH_def word_less_nat_alt unat_word_ariths)
  then have h1: "h + 1 \<le> MAX_TREE_DEPTH" "h + 1 \<noteq> 0" by (auto simp: MAX_TREE_DEPTH_def word_le_nat_alt word_unat_eq_iff)
  have paths: "path_ok (rr_min_path (hd cs))" "path_ok (rr_max_path (last cs))"
    using cs range_ok_paths by (auto simp: ranges_ok_def)
  show ok: "range_ok (node_ref H h cs bs)"
    using n nz bs(1) sb total h1 paths ranges_ok_hd_last [OF cs]
    by (auto simp: range_ok_def validate_range_def node_ref_def path_ok_def word_le_nat_alt word_less_nat_alt tree_limits
        simp del: word_of_nat_eq_0_iff)
  assume "get (H bs) = Inr bs"
  then show "load_node H get (node_ref H h cs bs) = Inr (Internal h cs)"
    unfolding load_node_Internal using ok sum enc typed h sb by (simp add: node_ref_def)
qed

lemma io_map_map: "io_map f (map g xs) = io_map (\<lambda>x. f (g x)) xs"
  by (induction xs) simp_all

lemma io_map_run:
  "\<forall>x \<in> set xs. \<forall>log. f x log = (Inr (r x), log @ [b x]) \<Longrightarrow> io_map f xs log = (Inr (map r xs), log @ map b xs)"
  by (induction xs arbitrary: log) (simp_all add: io_bind_run)

definition leaf_blob :: "FileEntry list \<Rightarrow> bytes" where
  "leaf_blob g = projr (encode_leaf g)"

definition node_blob :: "u16 \<Rightarrow> RangeRef list \<Rightarrow> bytes" where
  "node_blob h g = projr (encode_internal h g)"

definition leaf_refs :: "(bytes \<Rightarrow> FileHash) \<Rightarrow> FileEntry list list \<Rightarrow> RangeRef list" where
  "leaf_refs H gs = map (\<lambda>g. leaf_ref H g (leaf_blob g)) gs"

definition node_refs :: "(bytes \<Rightarrow> FileHash) \<Rightarrow> u16 \<Rightarrow> RangeRef list list \<Rightarrow> RangeRef list" where
  "node_refs H h gs = map (\<lambda>g. node_ref H h g (node_blob h g)) gs"

lemma store_leaf_run:
  assumes "encode_leaf g = Inr bs" "\<forall>e \<in> set g. entry_typed e"
  shows "store_leaf recorder_ops H g log = (Inr (leaf_ref H g (leaf_blob g)), log @ [leaf_blob g])"
proof -
  have "length bs \<le> MAX_NODE_BYTES"
    using assms length_encode_entries [OF assms(2)] by (auto simp: encode_leaf_Inr LEAF_HEADER_BYTES_def)
  then show ?thesis using assms(1) by (simp add: store_leaf_def io_bind_run recorder_ops_def leaf_blob_def leaf_ref_def tree_limits)
qed

lemma store_internal_run:
  assumes "encode_internal h g = Inr bs" "\<forall>c \<in> set g. range_typed c" "h < MAX_TREE_DEPTH" "file_sum g \<le> MAX_LOADED_ENTRIES"
  shows "store_internal recorder_ops H h g log = (Inr (node_ref H h g (node_blob h g)), log @ [node_blob h g])"
  using assms(1) node_ref_loads(2,3) [OF assms]
  by (simp add: store_internal_def io_bind_run recorder_ops_def node_blob_def node_ref_def)


text \<open>The leaves of a segmented entry list.\<close>

lemma leaf_refs_holds:
  assumes "\<forall>g \<in> set gs. g \<noteq> [] \<and> (\<exists>bs. encode_leaf g = Inr bs) \<and> (\<forall>e \<in> set g. entry_typed e)"
    "\<forall>b \<in> leaf_blob ` set gs. get (H b) = Inr b"
  shows "holds H get (leaf_refs H gs) gs"
  using assms
proof (induction gs)
  case (Cons g gs)
  then have g: "encode_leaf g = Inr (leaf_blob g)" by (auto simp: leaf_blob_def)
  have "load_node H get (leaf_ref H g (leaf_blob g)) = Inr (Leaf g)"
    by (rule leaf_ref_loads(1) [OF g]) (use Cons.prems in auto)
  then show ?case using Cons by (simp add: holds_def leaf_refs_def)
qed (simp add: leaf_refs_def)

lemma leaf_refs_typed:
  assumes "\<forall>g \<in> set gs. g \<noteq> [] \<and> (\<forall>e \<in> set g. entry_typed e)" "\<And>b. hash_ok (H b)"
  shows "\<forall>r \<in> set (leaf_refs H gs). range_typed r"
  using assms by (auto simp: leaf_refs_def range_typed_def leaf_ref_def entry_typed_def)

text \<open>One level of internal nodes.\<close>

lemma sorted_groups:
  assumes "sorted_wrt (\<lambda>a b. rr_max_path a < rr_min_path b) (concat gs)" "[] \<notin> set gs"
  shows "sorted_wrt (\<lambda>a b. rr_max_path a < rr_min_path b) (node_refs H h gs)"
  using assms
proof (induction gs)
  case (Cons g gs)
  have "rr_max_path (last g) < rr_min_path (hd g')" if "g' \<in> set gs" for g'
  proof -
    have "g \<noteq> []" "g' \<noteq> []" using Cons.prems(2) that by auto
    then have "last g \<in> set g" "hd g' \<in> set (concat gs)" using that by (auto intro: bexI [of _ g'])
    then show ?thesis using Cons.prems(1) by (auto simp: sorted_wrt_append)
  qed
  then show ?case using Cons by (auto simp: node_refs_def node_ref_def sorted_wrt_append)
qed (simp add: node_refs_def)

lemma file_sum_concat: "file_sum (concat gs) = sum_list (map file_sum gs)"
  by (induction gs) simp_all

lemma node_refs_sum:
  assumes "file_sum (concat gs) \<le> MAX_LOADED_ENTRIES"
  shows "file_sum (node_refs H h gs) = file_sum (concat gs)"
  using assms
proof (induction gs)
  case (Cons g gs)
  then have "unat (of_nat (file_sum g) :: u64) = file_sum g" by (intro unat_of_nat_u64) (simp add: tree_limits)
  then show ?case using Cons by (simp add: node_refs_def node_ref_def)
qed (simp add: node_refs_def)

lemma node_refs_spans:
  assumes "\<forall>g \<in> set gs. load_node H get (node_ref H h g (node_blob h g)) = Inr (Internal h g)" "h < MAX_TREE_DEPTH"
    "spans H get (concat gs) ls vs"
  shows "\<exists>vs'. spans H get (node_refs H h gs) ls vs' \<and> length vs' = length vs + length gs"
  using assms
proof (induction gs arbitrary: ls vs)
  case (Cons g gs)
  from Cons.prems(3) obtain ls1 ls2 vs1 vs2 where s: "ls = ls1 @ ls2" "vs = vs1 @ vs2" "spans H get g ls1 vs1" "spans H get (concat gs) ls2 vs2"
    by (auto elim: spans_appendE)
  from Cons.IH [OF _ Cons.prems(2) s(4)] Cons.prems(1)
  obtain vs' where vs': "spans H get (node_refs H h gs) ls2 vs'" "length vs' = length vs2 + length gs" by auto
  have "unat (h + 1) = unat h + 1" using Cons.prems(2) by (simp add: MAX_TREE_DEPTH_def word_less_nat_alt unat_word_ariths)
  then have "rr_height (node_ref H h g (node_blob h g)) \<noteq> 0" by (auto simp: node_ref_def word_unat_eq_iff)
  from spans_node [OF this _ s(3) vs'(1)] Cons.prems(1)
  have "spans H get (node_refs H h (g # gs)) (ls1 @ ls2) (node_ref H h g (node_blob h g) # vs1 @ vs')" by (auto simp: node_refs_def)
  then show ?case using s vs'(2) by (intro exI [of _ "node_ref H h g (node_blob h g) # vs1 @ vs'"]) simp
qed (auto simp: node_refs_def)

lemma level_run:
  assumes ok: "ranges_ok h rs" and typed: "\<forall>r \<in> set rs. range_typed r" and h: "h < MAX_TREE_DEPTH"
    and total: "file_sum rs \<le> MAX_LOADED_ENTRIES" and hash: "\<And>b. hash_ok (H b)"
  defines "gs \<equiv> internal_groups rs"
  defines "ps \<equiv> node_refs H h gs"
  shows "io_map (store_internal recorder_ops H h) gs log = (Inr ps, log @ map (node_blob h) gs)"
    and "ranges_ok (h + 1) ps" "\<forall>r \<in> set ps. range_typed r" "file_sum ps = file_sum rs"
    and "\<forall>b \<in> node_blob h ` set gs. get (H b) = Inr b \<Longrightarrow> spans H get rs ls vs \<Longrightarrow>
      \<exists>vs'. spans H get ps ls vs' \<and> length vs' = length vs + length ps"
proof -
  have rs: "concat gs = rs" by (simp add: gs_def internal_groups_def cuts_concat)
  have g: "g \<noteq> []" "encode_internal h g = Inr (node_blob h g)" "\<forall>c \<in> set g. range_typed c" "file_sum g \<le> MAX_LOADED_ENTRIES"
    if "g \<in> set gs" for g
  proof -
    note enc = internal_groups_encode [OF ok that [unfolded gs_def]]
    show "g \<noteq> []" "encode_internal h g = Inr (node_blob h g)" "\<forall>c \<in> set g. range_typed c"
      using enc typed by (auto simp: node_blob_def)
    have "file_sum g \<le> sum_list (map file_sum gs)" using that by (intro member_le_sum_list) auto
    then show "file_sum g \<le> MAX_LOADED_ENTRIES" using total file_sum_concat [of gs] rs by simp
  qed
  show "io_map (store_internal recorder_ops H h) gs log = (Inr ps, log @ map (node_blob h) gs)"
    unfolding ps_def node_refs_def using g h by (intro io_map_run ballI allI store_internal_run) auto
  have ne: "[] \<notin> set gs" using g(1) by blast
  have okp: "\<forall>p \<in> set ps. range_ok p \<and> rr_height p = h + 1"
    using g h node_ref_loads(1) by (auto simp: ps_def node_refs_def node_ref_def)
  then show "ranges_ok (h + 1) ps"
    using sorted_groups [of gs H h] ok rs ne by (auto simp: ranges_ok_def ps_def)
  show "\<forall>r \<in> set ps. range_typed r"
    using g hash by (auto simp: ps_def node_refs_def node_ref_def range_typed_def)
  show "file_sum ps = file_sum rs" unfolding ps_def using node_refs_sum [of gs H h] rs total by simp
  assume "\<forall>b \<in> node_blob h ` set gs. get (H b) = Inr b" "spans H get rs ls vs"
  then show "\<exists>vs'. spans H get ps ls vs' \<and> length vs' = length vs + length ps"
    using node_refs_spans [of gs H get h ls vs] node_ref_loads(4) g h rs by (auto simp: ps_def node_refs_def)
qed


text \<open>The whole loop ends below the depth limit and emits at most as many nodes as it was given.\<close>

definition levels_ok :: "(bytes \<Rightarrow> FileHash) \<Rightarrow> RangeRef list \<Rightarrow> RangeRef \<Rightarrow> nat \<Rightarrow> bytes list \<Rightarrow> bool" where
  "levels_ok H rs r m bss \<longleftrightarrow>
     (\<forall>n log. levels_loop recorder_ops H rs n log = (Inr ([r], n + m), log @ bss))
     \<and> range_ok r \<and> range_typed r \<and> unat (rr_file_count r) = file_sum rs \<and> m \<le> length rs \<and> (length rs = 1 \<longrightarrow> m = 0)
     \<and> (\<forall>get ls vs. (\<forall>b \<in> set bss. get (H b) = Inr b) \<longrightarrow> spans H get rs ls vs \<longrightarrow>
          (\<exists>vs'. spans H get [r] ls vs' \<and> length vs' = length vs + m))"

lemma levels_ok_spans:
  assumes "levels_ok H rs r m bss" "\<forall>b \<in> set bss. get (H b) = Inr b" "spans H get rs ls vs"
  obtains vs' where "spans H get [r] ls vs'" "length vs' = length vs + m"
  using assms unfolding levels_ok_def by blast

lemma levels_loop_more:
  assumes "\<not> length rs \<le> 1" "ranges_ok h rs" "h < MAX_TREE_DEPTH" "gs = internal_groups rs"
    "\<And>log. io_map (store_internal recorder_ops H h) gs log = (Inr ps, log @ bss)"
  shows "levels_loop recorder_ops H rs n log = levels_loop recorder_ops H ps (n + length ps) (log @ bss)"
proof -
  have h: "rr_height (hd rs) = h" using assms(1,2) by (cases rs) (auto simp: ranges_ok_def)
  obtain segs where segs: "segment_ranges rs = Inr segs" "segment_slices segs rs = gs"
    using segment_ranges_groups [OF assms(2)] assms(4) by blast
  have "io_map (\<lambda>g. store_internal recorder_ops H h (sub_list (seg_start g) (seg_end g) rs)) segs log = (Inr ps, log @ bss)"
    using assms(5) [of log] segs(2) io_map_map [of "store_internal recorder_ops H h" "\<lambda>g. sub_list (seg_start g) (seg_end g) rs" segs]
    by (simp add: segment_slices_def)
  then show ?thesis
    unfolding levels_loop_step [of recorder_ops H rs n] using assms(1,2) assms(3) [unfolded not_le [symmetric]] h segs(1)
    by (simp add: io_bind_run codec_simps)
qed

lemma levels_run:
  assumes "ranges_ok h rs" "rs \<noteq> []" "\<forall>r \<in> set rs. range_typed r" "file_sum rs \<le> MAX_LOADED_ENTRIES"
    "\<And>b. hash_ok (H b)" "length rs \<le> 31 ^ (16 - unat h)" "unat h \<le> 16"
  shows "\<exists>r m bss. levels_ok H rs r m bss"
  using assms(1-4,6,7)
proof (induction "16 - unat h" arbitrary: h rs rule: less_induct)
  case less
  show ?case
  proof (cases "length rs \<le> 1")
    case True
    then obtain r where rs: "rs = [r]" using less.prems(2) by (cases rs) auto
    have "levels_loop recorder_ops H rs n log = (Inr ([r], n + 0), log @ [])" for n log
      unfolding rs levels_loop_step [of recorder_ops H "[r]"] by simp
    then have "levels_ok H rs r 0 []" using less.prems(1,3) by (auto simp: levels_ok_def rs ranges_ok_def)
    then show ?thesis by blast
  next
    case False
    have hl: "unat h < 16" using less.prems(5,6) False by (cases "unat h = 16") auto
    then have h: "h < MAX_TREE_DEPTH" by (simp add: MAX_TREE_DEPTH_def word_less_nat_alt)
    have h1: "unat (h + 1) = unat h + 1" using hl by (simp add: unat_word_ariths)
    define gs where "gs = internal_groups rs"
    define ps where "ps = node_refs H h gs"
    note level = level_run [where H = H, OF less.prems(1,3) h less.prems(4) assms(5), folded gs_def, folded ps_def]
    have len: "length ps = length gs" by (simp add: ps_def node_refs_def)
    have cnt: "length ps * 31 < length rs + 31" using internal_groups_count [OF less.prems(1,2)] len by (simp add: gs_def)
    have ne: "ps \<noteq> []" using less.prems(2) cuts_Nil_iff [of internal_bounds range_record "[]" rs] len by (auto simp: gs_def internal_groups_def)
    have pow: "31 ^ (16 - unat h) = 31 * (31 :: nat) ^ (16 - unat (h + 1))" using hl h1 by (simp flip: power_Suc add: Suc_diff_Suc)
    then have small: "length ps \<le> 31 ^ (16 - unat (h + 1))" using cnt less.prems(5) by simp
    have "16 - unat (h + 1) < 16 - unat h" "unat (h + 1) \<le> 16" using hl h1 by simp_all
    then obtain r m bss where up: "levels_ok H ps r m bss"
      using less.hyps [OF _ level(2) ne level(3) _ small] level(4) less.prems(4) by auto
    let ?bss = "map (node_blob h) gs @ bss"
    have "levels_loop recorder_ops H rs n log = (Inr ([r], n + (length ps + m)), log @ ?bss)" for n log
      using levels_loop_more [OF False less.prems(1) h gs_def level(1)] up by (simp add: levels_ok_def add.assoc)
    moreover have "length ps + m \<le> length rs"
    proof (cases "length ps = 1")
      case True
      then show ?thesis using up False by (simp add: levels_ok_def)
    next
      case False
      moreover have "length ps \<noteq> 0" using ne by simp
      ultimately have "2 \<le> length ps" by linarith
      then show ?thesis using up cnt by (simp add: levels_ok_def)
    qed
    moreover have "\<exists>vs'. spans H get [r] ls vs' \<and> length vs' = length vs + (length ps + m)"
      if b: "\<forall>b \<in> set ?bss. get (H b) = Inr b" and s: "spans H get rs ls vs" for get ls vs
    proof -
      obtain v1 where v1: "spans H get ps ls v1" "length v1 = length vs + length ps" using level(5) [OF _ s] b by auto
      have "\<forall>b \<in> set bss. get (H b) = Inr b" using b by simp
      then obtain v2 where "spans H get [r] ls v2" "length v2 = length v1 + m" by (rule levels_ok_spans [OF up _ v1(1)])
      then show ?thesis using v1(2) by auto
    qed
    ultimately have "levels_ok H rs r (length ps + m) ?bss" using up level(4) False by (simp add: levels_ok_def)
    then show ?thesis by blast
  qed
qed


text \<open>A root over given leaves.\<close>

definition root_ok :: "(bytes \<Rightarrow> FileHash) \<Rightarrow> RangeRef list \<Rightarrow> TreeV2Root \<Rightarrow> nat \<Rightarrow> bytes list \<Rightarrow> bool" where
  "root_ok H ls root m bss \<longleftrightarrow>
     (\<forall>log. root_from_leaves recorder_ops H ls log = (Inr (root, m), log @ bss))
     \<and> validate_root_shape root = Inr () \<and> unat (tr_total_files root) = file_sum ls
     \<and> (\<forall>get. (\<forall>b \<in> set bss. get (H b) = Inr b) \<longrightarrow>
          (\<exists>vs. spans H get (root_children root) ls vs \<and> length vs \<le> 2 * length ls))"

lemma spans_leaves: "\<forall>l \<in> set ls. rr_height l = 0 \<Longrightarrow> spans H get ls ls ls"
  by (induction ls) (auto intro: spans.intros)

lemma root_run:
  assumes "ranges_ok 0 ls" "\<forall>r \<in> set ls. range_typed r" "file_sum ls \<le> MAX_LOADED_ENTRIES"
    "\<And>b. hash_ok (H b)" "length ls \<le> 31 ^ 16"
  shows "\<exists>root m bss. root_ok H ls root m bss"
proof (cases "ls = []")
  case True
  have "root_ok H ls empty_root 0 []"
    by (simp add: True root_ok_def root_from_leaves_def validate_root_shape_def empty_root_def root_children_def)
  then show ?thesis by blast
next
  case False
  obtain r m bss where up: "levels_ok H ls r m bss"
    using levels_run [where H = H, OF assms(1) False assms(2,3,4)] assms(5) by auto
  let ?root = "\<lparr>tr_version = TREE_VERSION, tr_total_files = rr_file_count r, tr_child = Some r\<rparr>"
  have r: "range_ok r" "unat (rr_file_count r) = file_sum ls" using up by (simp_all add: levels_ok_def)
  then have sum: "sum_counts 0 ls = Inr (rr_file_count r)" by (simp add: sum_counts_Inr)
  have "root_from_leaves recorder_ops H ls log = (Inr (?root, m), log @ bss)" for log
    using False assms(1) sum up by (simp add: root_from_leaves_def io_bind_run codec_simps levels_ok_def)
  moreover have "0 < rr_file_count r" using range_ok_count [OF r(1)] by (simp add: word_less_nat_alt)
  then have "validate_root_shape ?root = Inr ()"
    using r(1) range_ok_height [OF r(1)] by (simp add: validate_root_shape_def range_ok_def)
  moreover have "\<exists>vs. spans H get (root_children ?root) ls vs \<and> length vs \<le> 2 * length ls" if b: "\<forall>b \<in> set bss. get (H b) = Inr b" for get
  proof -
    have "spans H get ls ls ls" using assms(1) by (intro spans_leaves) (simp add: ranges_ok_def)
    then obtain vs where "spans H get [r] ls vs" "length vs = length ls + m" using levels_ok_spans [OF up b] by blast
    then show ?thesis using up by (auto simp: root_children_def levels_ok_def)
  qed
  ultimately have "root_ok H ls ?root m bss" using r(2) by (simp add: root_ok_def)
  then show ?thesis by blast
qed

text \<open>A tree over groups of entries, with the leaves stored first.\<close>

lemma root_loads:
  assumes "root_ok H (leaf_refs H gs) root m bss" "entries_ok (concat gs)"
    "\<forall>g \<in> set gs. g \<noteq> [] \<and> (\<exists>bs. encode_leaf g = Inr bs) \<and> (\<forall>e \<in> set g. entry_typed e)"
    "\<forall>b \<in> leaf_blob ` set gs \<union> set bss. get (H b) = Inr b" "3 * length gs \<le> MAX_VISITED_NODES"
  shows "load_all_entries H get root = Inr (concat gs)"
proof -
  have holds: "holds H get (leaf_refs H gs) gs" using leaf_refs_holds [OF assms(3)] assms(4) by blast
  obtain vs where vs: "spans H get (root_children root) (leaf_refs H gs) vs" "length vs \<le> 2 * length gs"
  proof -
    have "\<exists>vs. spans H get (root_children root) (leaf_refs H gs) vs \<and> length vs \<le> 2 * length (leaf_refs H gs)"
      using assms(1,4) unfolding root_ok_def by blast
    then show ?thesis using that by (auto simp: leaf_refs_def)
  qed
  have "denotes H get root (leaf_refs H gs) vs gs"
    using holds vs assms(1,2) holds_counts [OF holds] by (simp add: denotes_def root_ok_def)
  moreover have "length vs + length (leaf_refs H gs) \<le> MAX_VISITED_NODES" using vs(2) assms(5) by (simp add: leaf_refs_def)
  ultimately show ?thesis unfolding load_all_entries_Inr by blast
qed


lemma leaf_groups_good:
  assumes "entries_ok es" "\<forall>e \<in> set es. entry_typed e"
  shows "\<forall>g \<in> set (leaf_groups es). g \<noteq> [] \<and> (\<exists>bs. encode_leaf g = Inr bs) \<and> (\<forall>e \<in> set g. entry_typed e)"
  using leaf_groups_encode [OF assms(1)] assms(2) by blast

lemma leaf_groups_bound:
  assumes "entries_ok es"
  shows "3 * length (leaf_groups es) \<le> MAX_VISITED_NODES"
proof (cases "es = []")
  case True
  then show ?thesis by (simp add: leaf_groups_def)
next
  case False
  then show ?thesis using leaf_groups_count [OF assms False] assms by (simp add: entries_ok_def tree_limits MAX_VISITED_NODES_def)
qed

lemma leaf_groups_concat [simp]: "concat (leaf_groups es) = es"
  by (simp add: leaf_groups_def cuts_concat)

lemma store_leaves_run:
  assumes "\<forall>g \<in> set gs. g \<noteq> [] \<and> (\<exists>bs. encode_leaf g = Inr bs) \<and> (\<forall>e \<in> set g. entry_typed e)"
  shows "io_map (store_leaf recorder_ops H) gs log = (Inr (leaf_refs H gs), log @ map leaf_blob gs)"
  unfolding leaf_refs_def
proof (intro io_map_run ballI allI)
  fix g log assume "g \<in> set gs"
  with assms obtain bs where "encode_leaf g = Inr bs" "\<forall>e \<in> set g. entry_typed e" by blast
  then show "store_leaf recorder_ops H g log = (Inr (leaf_ref H g (leaf_blob g)), log @ [leaf_blob g])" by (rule store_leaf_run)
qed

lemma store_segments_run:
  assumes "segment_slices segs es = gs" "\<forall>g \<in> set gs. g \<noteq> [] \<and> (\<exists>bs. encode_leaf g = Inr bs) \<and> (\<forall>e \<in> set g. entry_typed e)"
  shows "io_map (\<lambda>g. store_leaf recorder_ops H (sub_list (seg_start g) (seg_end g) es)) segs log =
    (Inr (leaf_refs H gs), log @ map leaf_blob gs)"
  using store_leaves_run [OF assms(2), of H log] assms(1)
    io_map_map [of "store_leaf recorder_ops H" "\<lambda>g. sub_list (seg_start g) (seg_end g) es" segs]
  by (simp add: segment_slices_def)

lemma leaf_refs_ranges:
  assumes "entries_ok (concat gs)" "\<forall>g \<in> set gs. g \<noteq> [] \<and> (\<exists>bs. encode_leaf g = Inr bs) \<and> (\<forall>e \<in> set g. entry_typed e)"
  shows "ranges_ok 0 (leaf_refs H gs) \<and> file_sum (leaf_refs H gs) = length (concat gs)"
  using assms
proof (induction gs)
  case (Cons g gs)
  let ?r = "leaf_ref H g (leaf_blob g)"
  have g: "encode_leaf g = Inr (leaf_blob g)" "g \<noteq> []" "\<forall>e \<in> set g. entry_typed e" using Cons.prems(2) by (auto simp: leaf_blob_def)
  have ok: "range_ok ?r" using leaf_ref_loads(2) [OF g, of "\<lambda>h. Inr (leaf_blob g)"] by simp
  have "length g \<le> MAX_LEAF_ENTRIES" using g(1) by (simp add: encode_leaf_Inr)
  then have cnt: "unat (rr_file_count ?r) = length g" by (simp add: leaf_ref_def unat_of_nat_u64 tree_limits)
  have "rr_max_path ?r < rr_min_path (leaf_ref H g' (leaf_blob g'))" if g': "g' \<in> set gs" for g'
  proof -
    have "g' \<noteq> []" using Cons.prems(2) g' by auto
    then have "last g \<in> set g" "hd g' \<in> set (concat gs)" using g(2) g' by (auto intro: bexI [of _ g'])
    then show ?thesis using Cons.prems(1) by (auto simp: entries_ok_def sorted_entries_append leaf_ref_def)
  qed
  moreover have "entries_ok (concat gs)" using Cons.prems(1) by (auto simp: entries_ok_def sorted_entries_append)
  ultimately show ?case using Cons.IH Cons.prems(2) ok cnt
    by (auto simp: leaf_refs_def ranges_ok_def leaf_ref_def)
qed (simp add: leaf_refs_def ranges_ok_def)

text \<open>The root over the leaves of groups that make up a valid entry list.\<close>

lemma groups_root_run:
  assumes "entries_ok (concat gs)" "3 * length gs \<le> MAX_VISITED_NODES" "\<And>b. hash_ok (H b)"
    "\<forall>g \<in> set gs. g \<noteq> [] \<and> (\<exists>bs. encode_leaf g = Inr bs) \<and> (\<forall>e \<in> set g. entry_typed e)"
  shows "\<exists>root m bss. root_ok H (leaf_refs H gs) root m bss"
proof (rule root_run)
  show "\<forall>r \<in> set (leaf_refs H gs). range_typed r" using leaf_refs_typed assms(3,4) by blast
  show "length (leaf_refs H gs) \<le> 31 ^ 16" using assms(2) by (simp add: leaf_refs_def MAX_VISITED_NODES_def)
  show "ranges_ok 0 (leaf_refs H gs)" "file_sum (leaf_refs H gs) \<le> MAX_LOADED_ENTRIES"
    using leaf_refs_ranges [OF assms(1,4)] assms(1) by (auto simp: entries_ok_def)
qed (rule assms(3))


lemma build_run_groups:
  assumes "entries_ok (sort_key fe_path es)" "\<forall>e \<in> set es. entry_typed e" "\<And>b. hash_ok (H b)"
  defines "gs \<equiv> leaf_groups (sort_key fe_path es)"
  shows "\<exists>root m bss. root_ok H (leaf_refs H gs) root m bss
    \<and> (\<forall>log. build_tree recorder_ops H es log = (Inr root, log @ map leaf_blob gs @ bss))"
proof (cases "es = []")
  case True
  then have "gs = []" by (simp add: gs_def leaf_groups_def)
  moreover have "root_ok H [] empty_root 0 []"
    by (simp add: root_ok_def root_from_leaves_def validate_root_shape_def empty_root_def root_children_def)
  moreover have "build_tree recorder_ops H es log = (Inr empty_root, log @ [])" for log
    using True by (simp add: build_tree_def io_bind_run codec_simps entries_ok_def)
  ultimately have "root_ok H (leaf_refs H gs) empty_root 0 [] \<and> (\<forall>log. build_tree recorder_ops H es log = (Inr empty_root, log @ map leaf_blob gs @ []))"
    by (simp add: leaf_refs_def)
  then show ?thesis by blast
next
  case False
  define fs where "fs = sort_key fe_path es"
  have set: "set fs = set es" by (simp add: fs_def)
  have fs: "entries_ok fs" "\<forall>e \<in> set fs. entry_typed e" using assms(1,2) set by (simp_all add: fs_def)
  have ne: "fs \<noteq> []" using False set by (metis set_empty)
  have gs: "gs = leaf_groups fs" by (simp add: gs_def fs_def)
  note good = leaf_groups_good [OF fs(1,2), folded gs]
  obtain segs where segs: "segment_entries fs = Inr segs" "segment_slices segs fs = gs"
    using segment_entries_groups [OF fs(1)] gs by blast
  obtain root m bss where root: "root_ok H (leaf_refs H gs) root m bss"
    using groups_root_run [where H = H and gs = gs, OF _ leaf_groups_bound [OF fs(1), folded gs] assms(3) good] fs(1) gs by auto
  have leaves: "io_map (\<lambda>g. store_leaf recorder_ops H (sub_list (seg_start g) (seg_end g) fs)) segs log =
      (Inr (leaf_refs H gs), log @ map leaf_blob gs)" for log
    using store_segments_run [OF segs(2) good] .
  have "build_tree recorder_ops H es log = (Inr root, log @ map leaf_blob gs @ bss)" for log
  proof -
    have "root_from_leaves recorder_ops H (leaf_refs H gs) (log @ map leaf_blob gs) = (Inr (root, m), (log @ map leaf_blob gs) @ bss)"
      using root unfolding root_ok_def by blast
    moreover have "validate_entries fs = Inr ()" using fs(1) by (simp add: codec_simps)
    ultimately show ?thesis using ne segs(1) leaves [of log] unfolding build_tree_def Let_def fs_def [symmetric]
      by (simp add: io_bind_run)
  qed
  then show ?thesis using root by blast
qed

lemma build_run:
  assumes "entries_ok (sort_key fe_path es)" "\<forall>e \<in> set es. entry_typed e" "\<And>b. hash_ok (H b)"
  shows "\<exists>root bss. (\<forall>log. build_tree recorder_ops H es log = (Inr root, log @ bss))
    \<and> (\<forall>get. (\<forall>b \<in> set bss. get (H b) = Inr b) \<longrightarrow> load_all_entries H get root = Inr (sort_key fe_path es))"
proof -
  let ?fs = "sort_key fe_path es"
  obtain root m bss where run: "root_ok H (leaf_refs H (leaf_groups ?fs)) root m bss"
      "\<And>log. build_tree recorder_ops H es log = (Inr root, log @ map leaf_blob (leaf_groups ?fs) @ bss)"
    using build_run_groups [where H = H, OF assms] by blast
  have good: "\<forall>g \<in> set (leaf_groups ?fs). g \<noteq> [] \<and> (\<exists>bs. encode_leaf g = Inr bs) \<and> (\<forall>e \<in> set g. entry_typed e)"
    using leaf_groups_good [OF assms(1)] assms(2) by simp
  have "load_all_entries H get root = Inr ?fs" if "\<forall>b \<in> set (map leaf_blob (leaf_groups ?fs) @ bss). get (H b) = Inr b" for get
    using root_loads [OF run(1) _ good _ leaf_groups_bound [OF assms(1)], of get] assms(1) that by simp
  then show ?thesis using run(2) by blast
qed

section \<open>Stores that grow keep their trees\<close>

definition grows :: "lookup \<Rightarrow> lookup \<Rightarrow> bool" where
  "grows get get' \<longleftrightarrow> (\<forall>h b. get h = Inr b \<longrightarrow> get' h = Inr b)"

lemma load_node_mono: "grows get get' \<Longrightarrow> load_node H get r = Inr node \<Longrightarrow> load_node H get' r = Inr node"
  by (auto simp: load_node_def grows_def)

lemma spans_mono:
  assumes "grows get get'" "spans H get rs ls vs"
  shows "spans H get' rs ls vs"
  using assms(2)
proof (induction rule: spans.induct)
  case (spans_node r h cs ls us rs ls' vs)
  note load_node_mono [OF assms(1) spans_node.hyps(2)]
  then show ?case using spans_node.hyps(1) spans_node.IH spans.spans_node by blast
qed (auto intro: spans.intros)

lemma holds_mono: "grows get get' \<Longrightarrow> holds H get ls ess \<Longrightarrow> holds H get' ls ess"
  unfolding holds_def by (erule list_all2_mono) (rule load_node_mono)

lemma denotes_mono: "grows get get' \<Longrightarrow> denotes H get root ls vs ess \<Longrightarrow> denotes H get' root ls vs ess"
  unfolding denotes_def using spans_mono holds_mono by blast

lemma load_all_entries_mono: "grows get get' \<Longrightarrow> load_all_entries H get root = Inr es \<Longrightarrow> load_all_entries H get' root = Inr es"
  unfolding load_all_entries_Inr using denotes_mono by blast

definition build_blobs :: "(bytes \<Rightarrow> FileHash) \<Rightarrow> FileEntry list \<Rightarrow> bytes list" where
  "build_blobs H es = snd (build_tree recorder_ops H es [])"


context content_store
begin

text \<open>What a computation that only puts leaves, read through the lookup of the store.\<close>

lemma writes_grows:
  assumes "writes m n" "ok s" "m s = (r, s')" "n [] = (q, bs)" "inj_on H ({b. \<exists>h. get_op ops h s = Inr b} \<union> set bs)"
  shows "grows (\<lambda>h. get_op ops h s) (\<lambda>h. get_op ops h s')" "ok s'"
    and "r = Inr a \<Longrightarrow> q = Inr a \<and> (\<forall>b \<in> set bs. get_op ops (H b) s' = Inr b)"
proof -
  obtain q' bs' where "n [] = (q', [] @ bs')" "effect s r s' q' bs'" using assms(1-3) unfolding writes_def by blast
  then have e: "effect s r s' q bs" using assms(4) by simp
  have "inj_on H (resident s \<union> set bs)" using assms(5) by (simp add: resident_def)
  with e show "grows (\<lambda>h. get_op ops h s) (\<lambda>h. get_op ops h s')" "ok s'"
      "r = Inr a \<Longrightarrow> q = Inr a \<and> (\<forall>b \<in> set bs. get_op ops (H b) s' = Inr b)"
    by (simp_all add: effect_def grows_def keeps_def)
qed

lemma build_tree_stored:
  assumes "ok s" "build_tree ops H es s = (Inr root, s')" "\<forall>e \<in> set es. entry_typed e" "\<And>b. hash_ok (H b)"
    "inj_on H ({b. \<exists>h. get_op ops h s = Inr b} \<union> set (build_blobs H es))"
  shows "load_all_entries H (\<lambda>h. get_op ops h s') root = Inr (sort_key fe_path es)"
proof -
  have "validate_entries (sort_key fe_path es) = Inr ()" using assms(2) by (auto simp: build_tree_def Let_def)
  then have ok: "entries_ok (sort_key fe_path es)" by (simp add: codec_simps)
  obtain root' bss where run: "\<And>log. build_tree recorder_ops H es log = (Inr root', log @ bss)"
      "\<And>get. (\<forall>b \<in> set bss. get (H b) = Inr b) \<Longrightarrow> load_all_entries H get root' = Inr (sort_key fe_path es)"
    using build_run [where H = H, OF ok assms(3,4)] by blast
  have rec: "build_tree recorder_ops H es [] = (Inr root', bss)" using run(1) [of "[]"] by simp
  then have "build_blobs H es = bss" by (simp add: build_blobs_def)
  note grow = writes_grows(3) [OF writes_build_tree assms(1,2) rec, of root]
  then show ?thesis using run(2) assms(5) \<open>build_blobs H es = bss\<close> by auto
qed

end

context reliable_store
begin

lemma build_tree_succeeds:
  assumes "ok s" "\<forall>e \<in> set es. entry_typed e" "\<And>b. hash_ok (H b)" "validate_entries (sort_key fe_path es) = Inr ()"
  obtains root s' where "build_tree ops H es s = (Inr root, s')"
proof -
  have "entries_ok (sort_key fe_path es)" using assms(4) by (simp add: codec_simps)
  then obtain root bss where run: "\<And>log. build_tree recorder_ops H es log = (Inr root, log @ bss)"
    using build_run [where H = H, OF _ assms(2,3)] by blast
  have "fst (build_tree ops H es s) = fst (build_tree recorder_ops H es [])"
    using same_build_tree [of es] assms(1) unfolding same_result_def by blast
  then have "build_tree ops H es s = (Inr root, snd (build_tree ops H es s))" using run [of "[]"] by (simp add: prod_eq_iff)
  then show thesis by (rule that)
qed

end

section \<open>Properties\<close>

text \<open>(C1) Building a Tree v2 in a memory store succeeds for every entry list that is valid after sorting,
  whatever its size up to the entry limit: no depth or node limit is hit. Reading the tree back
  returns exactly the sorted list, and every tree that could be read before still reads the same,
  provided no two of the blobs that are resident or written share a hash.\<close>

theorem build_tree_loads_back:
  assumes "memory_addressed H s" "\<forall>e \<in> set es. entry_typed e" "\<And>b. hash_ok (H b)"
    "validate_entries (sort_key fe_path es) = Inr ()"
    "inj_on H ({b. \<exists>h. memory_get h s = Inr b} \<union> set (build_blobs H es))"
  shows "\<exists>root s'. build_tree (memory_ops alloc) H es s = (Inr root, s')
    \<and> load_all_entries H (\<lambda>h. memory_get h s') root = Inr (sort_key fe_path es)
    \<and> (\<forall>old fs. load_all_entries H (\<lambda>h. memory_get h s) old = Inr fs \<longrightarrow>
         load_all_entries H (\<lambda>h. memory_get h s') old = Inr fs)"
proof -
  have get: "get_op (memory_ops alloc) = memory_get" by (simp add: memory_ops_def)
  obtain root s' where b: "build_tree (memory_ops alloc) H es s = (Inr root, s')"
    using memory.build_tree_succeeds [where H = H, OF assms(1-4)] by blast
  have inj: "inj_on H ({b. \<exists>h. get_op (memory_ops alloc) h s = Inr b} \<union> set (build_blobs H es))"
    using assms(5) by (simp add: get)
  note loads = memory.build_tree_stored [where H = H and alloc = alloc, OF assms(1) b assms(2,3) inj]
  obtain q bs where rec: "build_tree recorder_ops H es [] = (q, bs)" by (cases "build_tree recorder_ops H es []")
  then have "bs = build_blobs H es" by (simp add: build_blobs_def)
  then have "grows (\<lambda>h. memory_get h s) (\<lambda>h. memory_get h s')"
    using memory.writes_grows(1) [OF memory.writes_build_tree assms(1) b rec] inj by (simp add: get)
  then show ?thesis using b loads load_all_entries_mono unfolding get by blast
qed


lemma one_entry_blobs:
  assumes "entries_ok [e]" "entry_typed e"
  shows "build_blobs H [e] = [leaf_blob [e]]"
proof -
  have len: "leaf_record_len e \<le> 4146" using leaf_record_bound [OF assms(1)] by (simp add: entry_record_def)
  then have seg: "segment_entries [e] = Inr [\<lparr>seg_start = 0, seg_end = 1, stable_end = False\<rparr>]"
    using assms(1)
    by (simp add: segment_entries_def codec_simps segment_by_def segment_step_def segment_flush_def segment_take_def
        entry_record_def leaf_bounds_def tree_limits MIN_LEAF_ENTRIES_def)
  have "\<exists>bs. encode_leaf [e] = Inr bs" using assms(1) len by (simp add: encode_leaf_Inr tree_limits)
  then have leaf: "store_leaf recorder_ops H [e] log = (Inr (leaf_ref H [e] (leaf_blob [e])), log @ [leaf_blob [e]])" for log
    using store_leaf_run assms(2) by auto
  have ok: "ranges_ok 0 [leaf_ref H [e] (leaf_blob [e])]"
    using leaf_refs_ranges [of "[[e]]" H] assms \<open>\<exists>bs. encode_leaf [e] = Inr bs\<close> by (simp add: leaf_refs_def)
  have "sum_counts 0 [leaf_ref H [e] (leaf_blob [e])] = Inr 1" by (simp add: u64_checked_add_def leaf_ref_def)
  then have root: "\<exists>root. root_from_leaves recorder_ops H [leaf_ref H [e] (leaf_blob [e])] log = (Inr root, log)" for log
    using ok levels_loop_step [of recorder_ops H "[leaf_ref H [e] (leaf_blob [e])]" 0]
    by (simp add: root_from_leaves_def io_bind_run codec_simps)
  obtain root n where "root_from_leaves recorder_ops H [leaf_ref H [e] (leaf_blob [e])] [leaf_blob [e]] = (Inr (root, n), [leaf_blob [e]])"
    using root [of "[leaf_blob [e]]"] by auto
  moreover have "io_map (\<lambda>g. store_leaf recorder_ops H (sub_list (seg_start g) (seg_end g) [e]))
      [\<lparr>seg_start = 0, seg_end = 1, stable_end = False\<rparr>] [] = (Inr [leaf_ref H [e] (leaf_blob [e])], [leaf_blob [e]])"
    using leaf [of "[]"] by (simp add: io_bind_run sub_list_def)
  moreover have "validate_entries [e] = Inr ()" using assms(1) by (simp add: codec_simps)
  ultimately show ?thesis using seg unfolding build_blobs_def build_tree_def Let_def by (simp add: io_bind_run)
qed

theorem build_tree_loads_back_witness:
  "let e = FileEntry.make ''a'' ZERO_HASH 1 2; H = (\<lambda>b. ZERO_HASH) in
   \<exists>root s'. build_tree (memory_ops length) H [e] memory_default = (Inr root, s')
     \<and> load_all_entries H (\<lambda>h. memory_get h s') root = Inr [e]"
proof -
  let ?e = "FileEntry.make ''a'' ZERO_HASH 1 2" and ?H = "\<lambda>b :: bytes. ZERO_HASH"
  have ok: "entries_ok [?e]" by (simp add: entries_ok_def plain_paths FileEntry.defs tree_limits)
  have typed: "entry_typed ?e" by (simp add: entry_typed_def FileEntry.defs ZERO_HASH_def as_bytes_def from_utf8_ok_ascii)
  have "inj_on ?H ({b. \<exists>h. memory_get h memory_default = Inr b} \<union> set (build_blobs ?H [?e]))"
    using one_entry_blobs [OF ok typed, of ?H] by (simp add: memory_get_def memory_default_def)
  from build_tree_loads_back [where H = ?H and alloc = length, OF _ _ _ _ this] ok typed
  show ?thesis unfolding Let_def by (auto simp: memory_addressed_def memory_default_def ZERO_HASH_def codec_simps)
qed

end
