(* ===== verification/Tree_V2_Update.thy ===== *)
theory Tree_V2_Update
  imports Tree_V2_Build Entry_Merge
begin

text \<open>
  Incremental update of a Tree v2 (\<open>tree_v2.rs\<close>: \<open>update_tree\<close>). The function first reads: it collects
  the leaves, loads the span the changed paths fall into, merges the changes and extends the span
  until the old and the new segmentation meet again; \<open>update_plan\<close> is that part. Then it writes the
  replacement leaves and rebuilds the internal levels; \<open>apply_plan\<close> is that part. The theorems say
  that an update always succeeds, stands for the changed entry list, keeps the invariant of the tree
  and, when every path is short, gives the root a full rebuild would give.
\<close>

section \<open>Operations\<close>

record UpdateStats =
  leaves_loaded :: u64
  entries_loaded :: u64
  replacement_leaves :: u64
  internal_nodes_emitted :: u64
  resync_leaves_scanned :: u64
  reached_tree_end :: bool

definition stats_default :: UpdateStats where
  "stats_default = \<lparr>leaves_loaded = 0, entries_loaded = 0, replacement_leaves = 0, internal_nodes_emitted = 0,
     resync_leaves_scanned = 0, reached_tree_end = False\<rparr>"

text \<open>\<open>slice::partition_point\<close> on a slice that the predicate partitions.\<close>

definition partition_point :: "('a \<Rightarrow> bool) \<Rightarrow> 'a list \<Rightarrow> nat" where
  "partition_point P xs = length (takeWhile P xs)"

text \<open>\<open>segments.last().is_some_and(..)\<close>: the last segment is stable and ends at the end of the old leaf.\<close>

definition meets_boundary :: "Segment list \<Rightarrow> FileEntry list \<Rightarrow> RangeRef \<Rightarrow> bool" where
  "meets_boundary segments entries leaf =
     (segments \<noteq> [] \<and> stable_end (last segments) \<and>
      (let i = seg_end (last segments) - 1 in i < length entries \<and> fe_path (entries ! i) = rr_max_path leaf))"

text \<open>The loop: \<open>leaf\<close> is \<open>leaves[end]\<close> and \<open>rest\<close> the leaves after it, \<open>scanned\<close> is
  \<open>end - start + 1\<close>.\<close>

fun resync_loop ::
  "(bytes \<Rightarrow> FileHash) \<Rightarrow> lookup \<Rightarrow> RangeRef \<Rightarrow> RangeRef list \<Rightarrow> nat \<Rightarrow> FileEntry list \<Rightarrow> UpdateStats \<Rightarrow> TraversalBudget
   \<Rightarrow> ChunkError + Segment list \<times> FileEntry list \<times> RangeRef list \<times> UpdateStats" where
  "resync_loop H get leaf [] scanned entries stats b =
     and_then (segment_entries entries) (\<lambda>segments.
       Inr (segments, entries, [], stats\<lparr>reached_tree_end := True, resync_leaves_scanned := of_nat scanned\<rparr>))"
| "resync_loop H get leaf (next # rest) scanned entries stats b =
     and_then (segment_entries entries) (\<lambda>segments.
       if meets_boundary segments entries leaf
       then Inr (segments, entries, next # rest, stats\<lparr>reached_tree_end := False, resync_leaves_scanned := of_nat scanned\<rparr>)
       else and_then (load_leaf_span H get [next] b) (\<lambda>(appended, b).
         resync_loop H get next rest (scanned + 1) (entries @ appended)
           (stats\<lparr>leaves_loaded := u64_saturating_add (leaves_loaded stats) 1,
              entries_loaded := u64_saturating_add (entries_loaded stats) (of_nat (length appended))\<rparr>) b))"

datatype UpdatePlan =
    Unchanged
  | Rebuild "FileEntry list" nat
  | Replace "RangeRef list" "FileEntry list" "Segment list" "RangeRef list" UpdateStats

definition update_span :: "string \<Rightarrow> string \<Rightarrow> RangeRef list \<Rightarrow> nat \<times> nat" where
  "update_span first_path last_path leaves =
     (let start = min (partition_point (\<lambda>r. rr_max_path r < first_path) leaves) (length leaves - 1)
      in (start, max (min (partition_point (\<lambda>r. rr_max_path r < last_path) leaves) (length leaves - 1)) start))"

definition update_plan ::
  "(bytes \<Rightarrow> FileHash) \<Rightarrow> lookup \<Rightarrow> TreeV2Root \<Rightarrow> FileEntry list \<Rightarrow> string list \<Rightarrow> ChunkError + UpdatePlan" where
  "update_plan H get root changed deleted =
     and_then (validate_root_shape root) (\<lambda>_.
     and_then (try_all (\<lambda>e. validate_path (fe_path e)) changed) (\<lambda>_.
     and_then (try_all validate_path deleted) (\<lambda>_.
       if changed = [] \<and> deleted = [] then Inr Unchanged
       else
         let operation_paths = sort (map fe_path changed @ deleted);
             first_path = hd operation_paths;
             last_path = last operation_paths
         in
         and_then (collect_leaf_refs H get root budget_default) (\<lambda>(leaves, b).
           if leaves = [] then
             let merged = merge_prefix_entries [] changed deleted in
             and_then (segment_entries merged) (\<lambda>segments. Inr (Rebuild merged (length segments)))
           else
             let (start, end') = update_span first_path last_path leaves in
             and_then (load_leaf_span H get (sub_list start (end' + 1) leaves) b) (\<lambda>(loaded, b).
               let stats = stats_default\<lparr>leaves_loaded := of_nat (end' - start + 1), entries_loaded := of_nat (length loaded)\<rparr>
               in
               and_then (resync_loop H get (leaves ! end') (drop (end' + 1) leaves) (end' - start + 1)
                   (merge_prefix_entries loaded changed deleted) stats b) (\<lambda>(segments, entries, rest, stats).
                 Inr (Replace (take start leaves) entries segments rest stats)))))))"

definition apply_plan ::
  "'s store_ops \<Rightarrow> (bytes \<Rightarrow> FileHash) \<Rightarrow> TreeV2Root \<Rightarrow> UpdatePlan \<Rightarrow> ('s, TreeV2Root \<times> UpdateStats) store_io" where
  "apply_plan ops H root plan =
     (case plan of
        Unchanged \<Rightarrow> io_return (root, stats_default)
      | Rebuild merged n \<Rightarrow>
          io_bind (build_tree ops H merged) (\<lambda>next.
            io_return (next, stats_default\<lparr>replacement_leaves := of_nat n, reached_tree_end := True\<rparr>))
      | Replace prefix entries segments rest stats \<Rightarrow>
          io_bind (io_map (\<lambda>g. store_leaf ops H (sub_list (seg_start g) (seg_end g) entries)) segments) (\<lambda>refs.
          let next_leaves = prefix @ refs @ rest in
          io_bind (io_lift (validate_ranges next_leaves 0)) (\<lambda>_.
          io_bind (root_from_leaves ops H next_leaves) (\<lambda>(next, internal_nodes).
            io_return (next, stats\<lparr>replacement_leaves := of_nat (length refs),
              internal_nodes_emitted := of_nat internal_nodes\<rparr>)))))"

definition update_tree ::
  "'s store_ops \<Rightarrow> (bytes \<Rightarrow> FileHash) \<Rightarrow> TreeV2Root \<Rightarrow> FileEntry list \<Rightarrow> string list
   \<Rightarrow> ('s, TreeV2Root \<times> UpdateStats) store_io" where
  "update_tree ops H root changed deleted s =
     io_bind (io_lift (update_plan H (\<lambda>h. get_op ops h s) root changed deleted)) (apply_plan ops H root) s"

section \<open>The leaves of a tree are determined by their entries\<close>

lemma loaded_leaf_ref: "load_node H get l = Inr (Leaf g) \<Longrightarrow> l = leaf_ref H g (leaf_blob g) \<and> get (H (leaf_blob g)) = Inr (leaf_blob g)"
  by (auto simp: load_node_Leaf leaf_ref_def leaf_blob_def word_unat_eq_iff)

lemma holds_leaf_refs: "holds H get ls gs \<Longrightarrow> ls = leaf_refs H gs \<and> (\<forall>b \<in> leaf_blob ` set gs. get (H b) = Inr b)"
  by (induction ls arbitrary: gs) (auto simp: holds_Cons leaf_refs_def dest: loaded_leaf_ref)

lemma holds_good:
  assumes "holds H get ls gs"
  shows "\<forall>g \<in> set gs. g \<noteq> [] \<and> (\<exists>bs. encode_leaf g = Inr bs) \<and> (\<forall>e \<in> set g. entry_typed e)"
proof
  fix g assume "g \<in> set gs"
  then obtain l where "load_node H get l = Inr (Leaf g)"
    using assms unfolding holds_def list_all2_conv_all_nth by (metis in_set_conv_nth)
  then show "g \<noteq> [] \<and> (\<exists>bs. encode_leaf g = Inr bs) \<and> (\<forall>e \<in> set g. entry_typed e)" by (auto simp: load_node_Leaf)
qed

lemma holds_append: "length ls = length gs \<Longrightarrow> holds H get (ls @ ms) (gs @ hs) \<longleftrightarrow> holds H get ls gs \<and> holds H get ms hs"
  by (simp add: holds_def list_all2_append)

section \<open>Changes inside a span\<close>

definition op_paths :: "FileEntry list \<Rightarrow> string list \<Rightarrow> string list" where
  "op_paths changed deleted = map fe_path changed @ deleted"

lemma last_upsert_None: "last_upsert es p = None \<longleftrightarrow> p \<notin> fe_path ` set es"
  by (induction es rule: rev_induct) (auto simp: last_upsert_snoc last_upsert_def)

lemma last_upsert_Some: "last_upsert es p = Some e \<Longrightarrow> e \<in> set es \<and> fe_path e = p"
  by (induction es rule: rev_induct) (auto simp: last_upsert_snoc last_upsert_def split: if_splits)

lemma apply_changes_eq:
  "apply_changes m changed deleted p =
     (case last_upsert changed p of Some e \<Rightarrow> Some e | None \<Rightarrow> if p \<in> set deleted then None else m p)"
  by (simp add: apply_changes_def foldl_upsert_one restrict_map_def split: option.splits)

lemma apply_changes_untouched: "p \<notin> set (op_paths changed deleted) \<Longrightarrow> apply_changes m changed deleted p = m p"
  using last_upsert_None [of changed p] by (auto simp: apply_changes_eq op_paths_def)

lemma merge_paths_from:
  assumes "sorted_entries es" "e \<in> set (merge_prefix_entries es changed deleted)"
  shows "e \<in> set es \<or> e \<in> set changed"
proof -
  note m = merge_prefix_entries_correct [OF assms(1), of changed deleted]
  have "apply_changes (entry_map es) changed deleted (fe_path e) = Some e"
    using entry_map_Some [OF m(1)] m(2) assms(2) by auto
  then show ?thesis using last_upsert_Some [of changed "fe_path e" e] entry_map_SomeD [of es "fe_path e" e]
    by (auto simp: apply_changes_eq split: option.splits if_splits)
qed

lemma entry_map_append: "entry_map (es @ fs) = entry_map fs ++ entry_map es"
  by (simp add: entry_map_def index_by_append)

lemma merge_span:
  assumes sorted: "sorted_entries (as @ bs @ cs)"
    and low: "\<forall>a \<in> set as. \<forall>p \<in> set (op_paths changed deleted). fe_path a < p"
    and high: "\<forall>c \<in> set cs. \<forall>p \<in> set (op_paths changed deleted). p < fe_path c"
  shows "merge_prefix_entries (as @ bs @ cs) changed deleted = as @ merge_prefix_entries bs changed deleted @ cs"
proof (rule sorted_entries_same_map)
  let ?m = "merge_prefix_entries bs changed deleted"
  have s: "sorted_entries as" "sorted_entries bs" "sorted_entries cs" using sorted by (auto simp: sorted_entries_append)
  note whole = merge_prefix_entries_correct [OF sorted, of changed deleted]
  note part = merge_prefix_entries_correct [OF s(2), of changed deleted]
  show "sorted_entries (merge_prefix_entries (as @ bs @ cs) changed deleted)" by (rule whole)
  have op: "fe_path e \<in> set (op_paths changed deleted)" if "e \<in> set changed" for e using that by (simp add: op_paths_def)
  have "fe_path a < fe_path e" if "a \<in> set as" "e \<in> set ?m" for a e
    using merge_paths_from [OF s(2) that(2)] that(1) low op sorted by (auto simp: sorted_entries_append)
  moreover have "fe_path e < fe_path c" if "c \<in> set cs" "e \<in> set ?m" for c e
    using merge_paths_from [OF s(2) that(2)] that(1) high op sorted by (auto simp: sorted_entries_append)
  ultimately show "sorted_entries (as @ ?m @ cs)" using s part(1) sorted by (auto simp: sorted_entries_append)
  show "entry_map (merge_prefix_entries (as @ bs @ cs) changed deleted) = entry_map (as @ ?m @ cs)"
  proof
    fix p
    show "entry_map (merge_prefix_entries (as @ bs @ cs) changed deleted) p = entry_map (as @ ?m @ cs) p"
    proof (cases "p \<in> set (op_paths changed deleted)")
      case True
      then have "entry_map as p = None" "entry_map cs p = None" using low high by (auto simp: entry_map_None)
      then show ?thesis by (simp add: whole(2) part(2) entry_map_append apply_changes_eq map_add_def split: option.splits)
    next
      case False
      then show ?thesis
        by (simp add: whole(2) part(2) entry_map_append apply_changes_untouched map_add_def split: option.split)
    qed
  qed
qed


section \<open>The invariant of a tree\<close>

definition packed :: "FileEntry list list \<Rightarrow> bool" where
  "packed gs \<longleftrightarrow> (\<forall>g \<in> set (butlast gs). 63 \<le> length g)"

text \<open>\<open>tree_inv H get root gs\<close>: the root stands for the entries \<open>concat gs\<close>, one group per leaf; all leaves but
  the last hold at least 63 entries, and there are no more internal nodes than leaves.\<close>

definition tree_inv :: "(bytes \<Rightarrow> FileHash) \<Rightarrow> lookup \<Rightarrow> TreeV2Root \<Rightarrow> FileEntry list list \<Rightarrow> bool" where
  "tree_inv H get root gs \<longleftrightarrow>
     (\<exists>vs. denotes H get root (leaf_refs H gs) vs gs \<and> length vs \<le> 2 * length gs) \<and> packed gs"

lemma packed_bound:
  assumes "packed gs" "[] \<notin> set gs" "length (concat gs) \<le> MAX_LOADED_ENTRIES"
  shows "3 * length gs \<le> MAX_VISITED_NODES"
proof (cases gs rule: rev_cases)
  case (snoc hs g)
  then have "length hs * 63 \<le> length (concat hs)" using assms(1) by (intro sum_lengths) (simp add: packed_def)
  then show ?thesis using assms(3) snoc by (simp add: tree_limits MAX_VISITED_NODES_def)
qed (simp add: MAX_VISITED_NODES_def)

lemma tree_inv_bound:
  assumes "tree_inv H get root gs"
  shows "3 * length gs \<le> MAX_VISITED_NODES"
proof -
  have h: "holds H get (leaf_refs H gs) gs" "entries_ok (concat gs)" using assms by (auto simp: tree_inv_def denotes_def)
  have "[] \<notin> set gs" using holds_good [OF h(1)] by blast
  then show ?thesis using assms h(2) by (intro packed_bound) (simp_all add: tree_inv_def entries_ok_def)
qed

lemma tree_inv_loads: "tree_inv H get root gs \<Longrightarrow> load_all_entries H get root = Inr (concat gs)"
  using tree_inv_bound [of H get root gs] unfolding tree_inv_def load_all_entries_Inr by (fastforce simp: leaf_refs_def)

text \<open>A root made over groups of entries has the invariant once its blobs are stored.\<close>

lemma root_tree_inv:
  assumes "root_ok H (leaf_refs H gs) root m bss" "entries_ok (concat gs)" "packed gs"
    "\<forall>g \<in> set gs. g \<noteq> [] \<and> (\<exists>bs. encode_leaf g = Inr bs) \<and> (\<forall>e \<in> set g. entry_typed e)"
    "\<forall>b \<in> leaf_blob ` set gs \<union> set bss. get (H b) = Inr b"
  shows "tree_inv H get root gs"
proof -
  have holds: "holds H get (leaf_refs H gs) gs" using leaf_refs_holds [OF assms(4)] assms(5) by blast
  have "\<exists>vs. spans H get (root_children root) (leaf_refs H gs) vs \<and> length vs \<le> 2 * length (leaf_refs H gs)"
    using assms(1,5) unfolding root_ok_def by blast
  then obtain vs where vs: "spans H get (root_children root) (leaf_refs H gs) vs" "length vs \<le> 2 * length gs"
    by (auto simp: leaf_refs_def)
  have "denotes H get root (leaf_refs H gs) vs gs"
    using holds vs assms(1,2) holds_counts [OF holds] by (simp add: denotes_def root_ok_def)
  then show ?thesis using vs(2) assms(3) by (auto simp: tree_inv_def)
qed

section \<open>The plan\<close>

lemma segment_entries_open:
  assumes "entries_ok es" "segment_entries es = Inr segs" "segs \<noteq> []" "stable_end (last segs)"
  shows "es \<noteq> []" "open_after leaf_bounds entry_record [] es = []"
proof -
  obtain segs' where *: "segment_entries es = Inr segs'" "tiles 0 segs' (length es)"
      "es \<noteq> [] \<Longrightarrow> segs' \<noteq> [] \<and> (stable_end (last segs') \<longleftrightarrow> open_after leaf_bounds entry_record [] es = [])"
    using segment_entries_groups [OF assms(1)] by blast
  then have "segs' = segs" using assms(2) by simp
  then show "es \<noteq> []" using * assms(3) by (cases segs) (auto dest: tiles_le)
  then show "open_after leaf_bounds entry_record [] es = []" using * assms(4) \<open>segs' = segs\<close> by simp
qed

lemma resync_run:
  assumes "holds H get rest gs" "entries_ok (es @ concat gs)"
    "tb_nodes b + length rest \<le> MAX_VISITED_NODES" "tb_entries b + length (concat gs) \<le> MAX_LOADED_ENTRIES"
  shows "\<exists>ds cs segs stats'. gs = ds @ cs \<and> resync_loop H get leaf rest n es stats b = Inr (segs, es @ concat ds, leaf_refs H cs, stats')
    \<and> segment_entries (es @ concat ds) = Inr segs
    \<and> (cs = [] \<or> es @ concat ds \<noteq> [] \<and> open_after leaf_bounds entry_record [] (es @ concat ds) = [])"
  using assms
proof (induction rest arbitrary: leaf gs es n stats b)
  case Nil
  obtain segs where "segment_entries es = Inr segs" using segment_entries_groups [of es] Nil.prems(1,2) by auto
  then show ?case using Nil.prems(1) by (intro exI [of _ "[]"] exI [of _ segs]) (simp add: leaf_refs_def)
next
  case (Cons l rest)
  obtain g gs' where gs: "gs = g # gs'" "load_node H get l = Inr (Leaf g)" "holds H get rest gs'"
    using Cons.prems(1) by (auto simp: holds_Cons)
  have ok: "entries_ok es" "entries_ok g" "entries_ok ((es @ g) @ concat gs')"
    using Cons.prems(2) gs(1) by (auto simp: entries_ok_def sorted_entries_append)
  obtain segs where segs: "segment_entries es = Inr segs" using segment_entries_groups [OF ok(1)] by blast
  show ?case
  proof (cases "meets_boundary segs es leaf")
    case True
    then have "es \<noteq> []" "open_after leaf_bounds entry_record [] es = []"
      using segment_entries_open [OF ok(1) segs] by (auto simp: meets_boundary_def)
    moreover have "leaf_refs H gs = l # rest" using holds_leaf_refs [OF Cons.prems(1)] by simp
    ultimately have "gs = [] @ gs \<and> resync_loop H get leaf (l # rest) n es stats b =
        Inr (segs, es @ concat [], leaf_refs H gs, stats\<lparr>reached_tree_end := False, resync_leaves_scanned := of_nat n\<rparr>)
      \<and> segment_entries (es @ concat []) = Inr segs
      \<and> (gs = [] \<or> es @ concat [] \<noteq> [] \<and> open_after leaf_bounds entry_record [] (es @ concat []) = [])"
      using True segs by simp
    then show ?thesis by blast
  next
    case False
    let ?b = "\<lparr>tb_nodes = tb_nodes b + 1, tb_entries = tb_entries b + length g\<rparr>"
    have span: "load_leaf_span H get [l] b = Inr (g, ?b)"
      using gs(1,2) ok(2) Cons.prems(3,4) by (auto simp: load_leaf_span_Inr holds_Cons read_all_Inr)
    obtain stats1 where step: "resync_loop H get leaf (l # rest) n es stats b = resync_loop H get l rest (n + 1) (es @ g) stats1 ?b"
      using False segs span by auto
    obtain ds cs segs' stats' where IH: "gs' = ds @ cs"
        "resync_loop H get l rest (n + 1) (es @ g) stats1 ?b = Inr (segs', (es @ g) @ concat ds, leaf_refs H cs, stats')"
        "segment_entries ((es @ g) @ concat ds) = Inr segs'"
        "cs = [] \<or> (es @ g) @ concat ds \<noteq> [] \<and> open_after leaf_bounds entry_record [] ((es @ g) @ concat ds) = []"
    proof -
      have "tb_nodes ?b + length rest \<le> MAX_VISITED_NODES" "tb_entries ?b + length (concat gs') \<le> MAX_LOADED_ENTRIES"
        using Cons.prems(3,4) gs(1) by simp_all
      from Cons.IH [OF gs(3) ok(3) this, of l "n + 1" stats1] show ?thesis using that by blast
    qed
    then have "gs = (g # ds) @ cs \<and> resync_loop H get leaf (l # rest) n es stats b = Inr (segs', es @ concat (g # ds), leaf_refs H cs, stats')
      \<and> segment_entries (es @ concat (g # ds)) = Inr segs'
      \<and> (cs = [] \<or> es @ concat (g # ds) \<noteq> [] \<and> open_after leaf_bounds entry_record [] (es @ concat (g # ds)) = [])"
      using gs(1) step by simp
    then show ?thesis by blast
  qed
qed


lemma group_before:
  assumes "sorted_entries (concat gs)" "i < j" "j < length gs" "a \<in> set (gs ! i)" "c \<in> set (gs ! j)"
  shows "fe_path a < fe_path c"
proof -
  have "gs = take j gs @ gs ! j # drop (Suc j) gs" using assms(3) by (rule id_take_nth_drop)
  then have "sorted_entries (concat (take j gs) @ gs ! j @ concat (drop (Suc j) gs))" using assms(1) by (metis concat.simps(2) concat_append)
  moreover have "gs ! i \<in> set (take j gs)" using assms(2,3) by (auto simp: in_set_conv_nth intro: exI [of _ i])
  then have "a \<in> set (concat (take j gs))" using assms(4) by auto
  ultimately show ?thesis using assms(5) by (auto simp: sorted_entries_append)
qed

lemma partition_point_low: "i < partition_point P xs \<Longrightarrow> P (xs ! i)"
  by (metis partition_point_def nth_mem set_takeWhileD takeWhile_nth)

lemma partition_point_high: "partition_point P xs < length xs \<Longrightarrow> \<not> P (xs ! partition_point P xs)"
  by (simp add: partition_point_def nth_length_takeWhile)

lemma leaf_refs_max: "i < length gs \<Longrightarrow> rr_max_path (leaf_refs H gs ! i) = fe_path (last (gs ! i))"
  by (simp add: leaf_refs_def leaf_ref_def)

lemma group_sorted: "sorted_entries (concat gs) \<Longrightarrow> g \<in> set gs \<Longrightarrow> sorted_entries g"
  by (induction gs) (auto simp: sorted_entries_append)

lemma in_group:
  "x \<in> set (concat (take n gs)) \<Longrightarrow> \<exists>i. i < n \<and> i < length gs \<and> x \<in> set (gs ! i)"
  "x \<in> set (concat (drop n gs)) \<Longrightarrow> \<exists>i. n \<le> i \<and> i < length gs \<and> x \<in> set (gs ! i)"
proof -
  assume "x \<in> set (concat (take n gs))"
  then obtain g where "g \<in> set (take n gs)" "x \<in> set g" by auto
  then obtain i where "i < length (take n gs)" "take n gs ! i = g" by (auto simp: in_set_conv_nth)
  then show "\<exists>i. i < n \<and> i < length gs \<and> x \<in> set (gs ! i)" using \<open>x \<in> set g\<close> by (intro exI [of _ i]) auto
next
  assume "x \<in> set (concat (drop n gs))"
  then obtain g where "g \<in> set (drop n gs)" "x \<in> set g" by auto
  then obtain i where "i < length (drop n gs)" "drop n gs ! i = g" by (auto simp: in_set_conv_nth)
  then show "\<exists>i. n \<le> i \<and> i < length gs \<and> x \<in> set (gs ! i)" using \<open>x \<in> set g\<close> by (intro exI [of _ "n + i"]) auto
qed

lemma span_bounds:
  assumes sorted: "sorted_entries (concat gs)" and ne: "[] \<notin> set gs" "gs \<noteq> []" and ops: "ps \<noteq> []"
    and start: "start = min (partition_point (\<lambda>r. rr_max_path r < hd (sort ps)) (leaf_refs H gs)) (length gs - 1)"
    and stop: "stop = max (min (partition_point (\<lambda>r. rr_max_path r < last (sort ps)) (leaf_refs H gs)) (length gs - 1)) start"
  shows "\<forall>a \<in> set (concat (take start gs)). \<forall>p \<in> set ps. fe_path a < p"
    and "\<forall>c \<in> set (concat (drop (stop + 1) gs)). \<forall>p \<in> set ps. p < fe_path c"
    and "start \<le> stop" "stop < length gs"
proof -
  have so: "sort ps \<noteq> []" using ops set_sort [of "\<lambda>x. x" ps] by (cases "sort ps") auto
  have first: "hd (sort ps) \<le> p" if "p \<in> set ps" for p
  proof -
    have "p \<in> set (sort ps)" using that by simp
    then show ?thesis using sorted_sort [of ps] so by (cases "sort ps") auto
  qed
  have lst: "p \<le> last (sort ps)" if "p \<in> set ps" for p
  proof -
    have "p \<in> set (sort ps)" using that by simp
    then show ?thesis using sorted_sort [of ps] so by (cases "sort ps" rule: rev_cases) (auto simp: sorted_append)
  qed
  have "0 < length gs" using ne(2) by simp
  then show "start \<le> stop" "stop < length gs" using start stop by linarith+
  show "\<forall>a \<in> set (concat (take start gs)). \<forall>p \<in> set ps. fe_path a < p"
  proof (intro ballI)
    fix a p assume a: "a \<in> set (concat (take start gs))" and p: "p \<in> set ps"
    from in_group(1) [OF a] obtain i where i: "i < start" "i < length gs" "a \<in> set (gs ! i)" by blast
    have "i < partition_point (\<lambda>r. rr_max_path r < hd (sort ps)) (leaf_refs H gs)" using i(1) start by simp
    from partition_point_low [OF this] have lt: "fe_path (last (gs ! i)) < hd (sort ps)"
      unfolding leaf_refs_max [OF i(2)] .
    have "sorted_entries (gs ! i)" by (rule group_sorted [OF sorted nth_mem [OF i(2)]])
    then have "fe_path a \<le> fe_path (last (gs ! i))" using i(3) by (rule sorted_entries_last)
    then show "fe_path a < p" using lt first [OF p] by (rule le_less_trans [OF _ less_le_trans])
  qed
  show "\<forall>c \<in> set (concat (drop (stop + 1) gs)). \<forall>p \<in> set ps. p < fe_path c"
  proof (intro ballI)
    fix c p assume c: "c \<in> set (concat (drop (stop + 1) gs))" and p: "p \<in> set ps"
    from in_group(2) [OF c] obtain j where "stop + 1 \<le> j" "j < length gs" "c \<in> set (gs ! j)" by blast
    then have j: "stop < j" "j < length gs" "c \<in> set (gs ! j)" by simp_all
    let ?k = "partition_point (\<lambda>r. rr_max_path r < last (sort ps)) (leaf_refs H gs)"
    have k: "?k \<le> stop" "?k < length gs" using j stop by auto
    then have "\<not> fe_path (last (gs ! ?k)) < last (sort ps)"
      using partition_point_high [of "\<lambda>r. rr_max_path r < last (sort ps)" "leaf_refs H gs"] leaf_refs_max [of ?k gs H]
      by (simp add: leaf_refs_def)
    then have "last (sort ps) \<le> fe_path (last (gs ! ?k))" by (simp only: not_less)
    with lst [OF p] have "p \<le> fe_path (last (gs ! ?k))" by (rule order.trans)
    moreover have "last (gs ! ?k) \<in> set (gs ! ?k)" using ne(1) nth_mem [OF k(2)] by (intro last_in_set) auto
    then have "fe_path (last (gs ! ?k)) < fe_path c" using group_before [OF sorted _ j(2) _ j(3), of ?k] k j(1) by simp
    ultimately show "p < fe_path c" by (rule le_less_trans)
  qed
qed


lemma holds_sub:
  assumes "holds H get (leaf_refs H gs) gs"
  shows "holds H get (leaf_refs H (take n gs)) (take n gs)" "holds H get (leaf_refs H (drop n gs)) (drop n gs)"
  using assms by (auto simp: holds_def leaf_refs_def list_all2_conv_all_nth)

lemma leaf_refs_sub [simp]:
  "take n (leaf_refs H gs) = leaf_refs H (take n gs)" "drop n (leaf_refs H gs) = leaf_refs H (drop n gs)"
  "sub_list i j (leaf_refs H gs) = leaf_refs H (sub_list i j gs)" "length (leaf_refs H gs) = length gs"
  "leaf_refs H (gs @ hs) = leaf_refs H gs @ leaf_refs H hs" "leaf_refs H gs = [] \<longleftrightarrow> gs = []"
  by (simp_all add: leaf_refs_def take_map drop_map sub_list_map)

lemma merged_ok:
  assumes "entries_ok es" "\<forall>e \<in> set changed. path_ok (fe_path e)"
    "length (merge_prefix_entries es changed deleted) \<le> MAX_LOADED_ENTRIES"
  shows "entries_ok (merge_prefix_entries es changed deleted)"
  using assms merge_paths_from [of es _ changed deleted] merge_prefix_entries_correct(1) [of es changed deleted]
  by (auto simp: entries_ok_def)

lemma entries_ok_append: "entries_ok (es @ fs) \<Longrightarrow> entries_ok es \<and> entries_ok fs"
  by (auto simp: entries_ok_def sorted_entries_append)

lemma plan_run:
  assumes inv: "tree_inv H get root gs" and ne: "gs \<noteq> []" and ops: "op_paths changed deleted \<noteq> []"
    and ch: "\<forall>e \<in> set changed. path_ok (fe_path e)" and del: "\<forall>p \<in> set deleted. path_ok p"
    and size: "length (merge_prefix_entries (concat gs) changed deleted) \<le> MAX_LOADED_ENTRIES"
  shows "\<exists>as bs mid segs cs stats. update_plan H get root changed deleted = Inr (Replace (leaf_refs H as) mid segs (leaf_refs H cs) stats)
    \<and> segment_entries mid = Inr segs \<and> gs = as @ bs @ cs \<and> bs \<noteq> []
    \<and> merge_prefix_entries (concat gs) changed deleted = concat as @ mid @ concat cs
    \<and> (cs = [] \<or> mid \<noteq> [] \<and> open_after leaf_bounds entry_record [] mid = [])"
proof -
  obtain vs where d: "denotes H get root (leaf_refs H gs) vs gs" "length vs \<le> 2 * length gs" using inv by (auto simp: tree_inv_def)
  have h: "holds H get (leaf_refs H gs) gs" "entries_ok (concat gs)" "validate_root_shape root = Inr ()" using d(1) by (simp_all add: denotes_def)
  have bound: "length vs + length gs \<le> MAX_VISITED_NODES" using tree_inv_bound [OF inv] d(2) by simp
  then have collect: "collect_leaf_refs H get root budget_default = Inr (leaf_refs H gs, \<lparr>tb_nodes = length vs, tb_entries = 0\<rparr>)"
    by (intro denotes_collect [OF d(1)]) simp
  have nil: "[] \<notin> set gs" using holds_good [OF h(1)] by blast
  have sorted: "sorted_entries (concat gs)" using h(2) by (simp add: entries_ok_def)
  define start where "start = min (partition_point (\<lambda>r. rr_max_path r < hd (sort (op_paths changed deleted))) (leaf_refs H gs)) (length gs - 1)"
  define stop where "stop = max (min (partition_point (\<lambda>r. rr_max_path r < last (sort (op_paths changed deleted))) (leaf_refs H gs)) (length gs - 1)) start"
  note sb = span_bounds [OF sorted nil ne ops start_def stop_def]
  define as where "as = take start gs"
  define bs where "bs = sub_list start (stop + 1) gs"
  define cs where "cs = drop (stop + 1) gs"
  have gs: "gs = as @ bs @ cs"
    unfolding as_def bs_def cs_def sub_list_def using sb(3)
    by (metis append_take_drop_id drop_drop le_Suc_eq le_add_diff_inverse2 Suc_eq_plus1)
  have lens: "length bs = stop + 1 - start" "bs \<noteq> []" using sb(3,4) by (auto simp: bs_def length_sub_list simp flip: length_0_conv)
  let ?mid = "merge_prefix_entries (concat bs) changed deleted"
  have cat: "concat gs = concat as @ concat bs @ concat cs" using gs by (metis concat_append)
  have merge: "merge_prefix_entries (concat gs) changed deleted = concat as @ ?mid @ concat cs"
    unfolding cat by (rule merge_span) (use sorted cat sb(1,2) as_def cs_def in auto)
  have ok: "entries_ok (?mid @ concat cs)" "entries_ok (concat bs)"
    using merged_ok [OF h(2) ch size, unfolded merge] h(2) [unfolded cat] entries_ok_append by blast+
  have hb: "holds H get (leaf_refs H bs) bs" "holds H get (leaf_refs H cs) cs"
    using holds_sub(1) [OF holds_sub(2) [OF h(1)]] holds_sub(2) [OF h(1)] by (simp_all add: bs_def cs_def sub_list_def)
  let ?b = "\<lparr>tb_nodes = length vs + length bs, tb_entries = length (concat bs)\<rparr>"
  have span: "load_leaf_span H get (leaf_refs H bs) \<lparr>tb_nodes = length vs, tb_entries = 0\<rparr> = Inr (concat bs, ?b)"
    using hb(1) ok(2) bound gs by (auto simp: load_leaf_span_Inr read_all_Inr entries_ok_def intro!: exI [of _ bs])
  let ?stats = "stats_default\<lparr>leaves_loaded := of_nat (stop - start + 1), entries_loaded := of_nat (length (concat bs))\<rparr>"
  have b: "tb_nodes ?b + length (leaf_refs H cs) \<le> MAX_VISITED_NODES" "tb_entries ?b + length (concat cs) \<le> MAX_LOADED_ENTRIES"
    using bound h(2) unfolding cat by (simp_all add: entries_ok_def gs)
  obtain ds es segs stats where resync: "cs = ds @ es"
      "resync_loop H get (leaf_refs H gs ! stop) (leaf_refs H cs) (stop - start + 1) ?mid ?stats ?b = Inr (segs, ?mid @ concat ds, leaf_refs H es, stats)"
      "segment_entries (?mid @ concat ds) = Inr segs"
      "es = [] \<or> ?mid @ concat ds \<noteq> [] \<and> open_after leaf_bounds entry_record [] (?mid @ concat ds) = []"
    using resync_run [OF hb(2) ok(1) b, of "leaf_refs H gs ! stop" "stop - start + 1" ?stats] by blast
  have valid: "try_all (\<lambda>e. validate_path (fe_path e)) changed = Inr ()" "try_all validate_path deleted = Inr ()"
    using ch del by (simp_all add: path_ok_def)
  have nonempty: "\<not> (changed = [] \<and> deleted = [])" using ops by (auto simp: op_paths_def)
  have us: "update_span (hd (sort (op_paths changed deleted))) (last (sort (op_paths changed deleted))) (leaf_refs H gs) = (start, stop)"
    by (simp add: update_span_def start_def stop_def Let_def)
  have sub: "sub_list start (stop + 1) (leaf_refs H gs) = leaf_refs H bs" "drop (stop + 1) (leaf_refs H gs) = leaf_refs H cs"
      "take start (leaf_refs H gs) = leaf_refs H as" "leaf_refs H gs \<noteq> []"
    using ne by (simp_all add: as_def bs_def cs_def)
  have "update_plan H get root changed deleted = Inr (Replace (leaf_refs H as) (?mid @ concat ds) segs (leaf_refs H es) stats)"
    unfolding update_plan_def op_paths_def [symmetric] h(3) valid and_then_simps if_not_P [OF nonempty] collect Let_def prod.case
      us if_not_P [OF sub(4)] sub(1-3) span resync(2) ..
  moreover have "gs = as @ (bs @ ds) @ es" "bs @ ds \<noteq> []" using gs resync(1) lens(2) by simp_all
  moreover have "merge_prefix_entries (concat gs) changed deleted = concat as @ (?mid @ concat ds) @ concat es"
    using merge resync(1) by simp
  ultimately show ?thesis using resync(3,4) by blast
qed


section \<open>Carrying the plan out\<close>

context content_store
begin

lemma writes_apply_plan: "writes (apply_plan ops H root plan) (apply_plan recorder_ops H root plan)"
  unfolding apply_plan_def Let_def
  by (cases plan) (auto simp: writes_return split: prod.splits
      intro!: writes_bind writes_lift writes_map writes_store_leaf writes_root_from_leaves writes_build_tree)

end

context reliable_store
begin

lemma same_apply_plan: "same_result (apply_plan ops H root plan) (apply_plan recorder_ops H root plan)"
  unfolding apply_plan_def Let_def
  by (cases plan) (auto simp: same_return split: prod.splits
      intro!: same_bind same_lift same_map same_store_leaf same_root_from_leaves same_build_tree)

end

lemma replace_run:
  assumes "segment_entries mid = Inr segs" "\<And>b. hash_ok (H b)" "entries_ok (concat as @ mid @ concat cs)"
    "\<forall>e \<in> set mid. entry_typed e"
    "\<forall>g \<in> set (as @ cs). g \<noteq> [] \<and> (\<exists>bs. encode_leaf g = Inr bs) \<and> (\<forall>e \<in> set g. entry_typed e)"
    "packed (as @ leaf_groups mid @ cs)"
  defines "gs \<equiv> as @ leaf_groups mid @ cs"
  shows "\<exists>next m bss. root_ok H (leaf_refs H gs) next m bss
    \<and> (\<exists>stats'. \<forall>log. apply_plan recorder_ops H root (Replace (leaf_refs H as) mid segs (leaf_refs H cs) stats) log =
         (Inr (next, stats'), log @ map leaf_blob (leaf_groups mid) @ bss))"
proof -
  have mid: "entries_ok mid" using assms(3) entries_ok_append by blast
  then have slices: "segment_slices segs mid = leaf_groups mid" using segment_entries_groups [OF mid] assms(1) by (metis sum.inject(2))
  have good: "\<forall>g \<in> set gs. g \<noteq> [] \<and> (\<exists>bs. encode_leaf g = Inr bs) \<and> (\<forall>e \<in> set g. entry_typed e)"
    using leaf_groups_good [OF mid assms(4)] assms(5) by (auto simp: gs_def)
  have ok: "entries_ok (concat gs)" using assms(3) by (simp add: gs_def)
  have "[] \<notin> set gs" using good by blast
  then have bound: "3 * length gs \<le> MAX_VISITED_NODES" using assms(6) ok by (intro packed_bound) (simp_all add: gs_def entries_ok_def)
  obtain "next" m bss where root: "root_ok H (leaf_refs H gs) next m bss"
    using groups_root_run [where H = H and gs = gs, OF ok bound assms(2) good] by blast
  have store: "io_map (\<lambda>g. store_leaf recorder_ops H (sub_list (seg_start g) (seg_end g) mid)) segs log =
      (Inr (leaf_refs H (leaf_groups mid)), log @ map leaf_blob (leaf_groups mid))" for log
    by (rule store_segments_run [OF slices leaf_groups_good [OF mid assms(4)]])
  have valid: "validate_ranges (leaf_refs H as @ leaf_refs H (leaf_groups mid) @ leaf_refs H cs) 0 = Inr ()"
    using leaf_refs_ranges [OF ok good, of H] by (simp add: codec_simps gs_def)
  have run: "root_from_leaves recorder_ops H (leaf_refs H as @ leaf_refs H (leaf_groups mid) @ leaf_refs H cs) log = (Inr (next, m), log @ bss)" for log
    using root unfolding root_ok_def gs_def by simp
  have "\<forall>log. apply_plan recorder_ops H root (Replace (leaf_refs H as) mid segs (leaf_refs H cs) stats) log =
      (Inr (next, stats\<lparr>replacement_leaves := of_nat (length (leaf_groups mid)), internal_nodes_emitted := of_nat m\<rparr>),
       log @ map leaf_blob (leaf_groups mid) @ bss)"
    unfolding apply_plan_def UpdatePlan.case Let_def using store valid run by (simp add: io_bind_run)
  then show ?thesis using root by blast
qed

lemma packed_replace:
  assumes "packed (as @ bs @ cs)" "bs \<noteq> []" "entries_ok mid" "cs = [] \<or> mid \<noteq> [] \<and> open_after leaf_bounds entry_record [] mid = []"
  shows "packed (as @ leaf_groups mid @ cs)"
proof -
  have as: "\<forall>g \<in> set as. 63 \<le> length g" using assms(1,2) by (auto simp: packed_def butlast_append split: if_splits)
  have cs: "\<forall>g \<in> set (butlast cs). 63 \<le> length g" using assms(1) by (auto simp: packed_def butlast_append split: if_splits)
  show ?thesis
  proof (cases "cs = []")
    case True
    then show ?thesis using as leaf_groups_min(1) [OF assms(3)] by (auto simp: packed_def butlast_append dest: in_set_butlastD)
  next
    case False
    then have "\<forall>g \<in> set (leaf_groups mid). 63 \<le> length g" using assms(3,4) leaf_groups_min(2) by blast
    then show ?thesis using as cs False by (auto simp: packed_def butlast_append)
  qed
qed

lemma sort_sorted_entries: "sorted_entries es \<Longrightarrow> sort_key fe_path es = es"
proof (induction es)
  case (Cons e es)
  then show ?case by (cases es) (auto intro: less_imp_le)
qed simp

text \<open>Between short records a boundary depends only on the entries before it, so replacing a span keeps the
  segmentation that a rebuild would choose.\<close>

lemma replaced_groups:
  assumes "short leaf_bounds entry_record (concat (as @ bs @ cs))" "as @ bs @ cs = leaf_groups (concat (as @ bs @ cs))" "bs \<noteq> []"
    "cs = [] \<or> mid \<noteq> [] \<and> open_after leaf_bounds entry_record [] mid = []"
  shows "as @ leaf_groups mid @ cs = leaf_groups (concat (as @ leaf_groups mid @ cs))"
proof -
  let ?b = leaf_bounds and ?f = entry_record
  have cut: "cuts ?b ?f [] (concat as @ concat (bs @ cs)) = as @ bs @ cs" using assms(2) by (simp add: leaf_groups_def)
  have "[] \<notin> set (as @ bs @ cs)" using cuts_nonempty [of ?b ?f "[]" "concat as @ concat (bs @ cs)"] unfolding cut by auto
  then have "concat (bs @ cs) \<noteq> []" using assms(3) by (cases bs) auto
  then have as: "open_after ?b ?f [] (concat as) = [] \<and> as = cuts ?b ?f [] (concat as)"
    by (intro short_boundary [OF cut]) (use assms(1) in \<open>simp_all add: leaf_bounds_def MAX_LEAF_ENTRIES_def\<close>)
  have cs: "cs = cuts ?b ?f [] (concat cs)" using cuts_suffix [of ?b ?f "[]" _ "as @ bs" cs] cut assms(3) by simp
  have "cuts ?b ?f [] (mid @ concat cs) = cuts ?b ?f [] mid @ cs"
    using assms(4) cuts_append [of ?b ?f "[]" mid "concat cs"] cs by auto
  then have "cuts ?b ?f [] (concat as @ mid @ concat cs) = as @ cuts ?b ?f [] mid @ cs"
    using cuts_append [of ?b ?f "[]" "concat as" "mid @ concat cs"] as by simp
  then show ?thesis by (simp add: leaf_groups_def cuts_concat)
qed

text \<open>Whatever the plan, the recorder ends with a root over groups that make up the changed list, of which the
  groups that are not among the old ones are stored.\<close>

lemma plan_applied:
  assumes inv: "tree_inv H get root gs" and ops: "op_paths changed deleted \<noteq> []"
    and ch: "\<forall>e \<in> set changed. path_ok (fe_path e) \<and> entry_typed e" and del: "\<forall>p \<in> set deleted. path_ok p"
    and size: "length (merge_prefix_entries (concat gs) changed deleted) \<le> MAX_LOADED_ENTRIES" and hash: "\<And>b. hash_ok (H b)"
  shows "\<exists>plan next m bss gs' new stats. update_plan H get root changed deleted = Inr plan
    \<and> root_ok H (leaf_refs H gs') next m bss \<and> packed gs'
    \<and> concat gs' = merge_prefix_entries (concat gs) changed deleted
    \<and> (\<forall>g \<in> set gs'. g \<noteq> [] \<and> (\<exists>bs. encode_leaf g = Inr bs) \<and> (\<forall>e \<in> set g. entry_typed e))
    \<and> set gs' \<subseteq> set gs \<union> set new
    \<and> (short leaf_bounds entry_record (concat gs) \<longrightarrow> gs = leaf_groups (concat gs) \<longrightarrow> gs' = leaf_groups (concat gs'))
    \<and> (\<forall>log. apply_plan recorder_ops H root plan log = (Inr (next, stats), log @ map leaf_blob new @ bss))"
proof -
  have h: "holds H get (leaf_refs H gs) gs" "entries_ok (concat gs)" "validate_root_shape root = Inr ()" and pk: "packed gs"
    using inv by (auto simp: tree_inv_def denotes_def)
  note good = holds_good [OF h(1)]
  have chp: "\<forall>e \<in> set changed. path_ok (fe_path e)" using ch by blast
  have ok: "entries_ok (merge_prefix_entries (concat gs) changed deleted)" using merged_ok [OF h(2) chp size] .
  have typed: "\<forall>e \<in> set (merge_prefix_entries (concat gs) changed deleted). entry_typed e"
    using merge_paths_from [of "concat gs" _ changed deleted] h(2) good ch by (auto simp: entries_ok_def)
  show ?thesis
  proof (cases "gs = []")
    case False
    obtain as bs mid segs cs stats where p: "update_plan H get root changed deleted = Inr (Replace (leaf_refs H as) mid segs (leaf_refs H cs) stats)"
        "segment_entries mid = Inr segs" "gs = as @ bs @ cs" "bs \<noteq> []"
        "merge_prefix_entries (concat gs) changed deleted = concat as @ mid @ concat cs"
        "cs = [] \<or> mid \<noteq> [] \<and> open_after leaf_bounds entry_record [] mid = []"
      using plan_run [OF inv False ops chp del size] by blast
    have okm: "entries_ok (concat as @ mid @ concat cs)" "\<forall>e \<in> set mid. entry_typed e" using ok typed unfolding p(5) by auto
    have mid: "entries_ok mid" using okm(1) entries_ok_append by blast
    have pk': "packed (as @ leaf_groups mid @ cs)" using packed_replace [OF _ p(4) mid p(6)] pk p(3) by simp
    have goods: "\<forall>g \<in> set (as @ cs). g \<noteq> [] \<and> (\<exists>bs. encode_leaf g = Inr bs) \<and> (\<forall>e \<in> set g. entry_typed e)"
      using good p(3) by auto
    obtain "next" m bss stats' where run: "root_ok H (leaf_refs H (as @ leaf_groups mid @ cs)) next m bss"
        "\<forall>log. apply_plan recorder_ops H root (Replace (leaf_refs H as) mid segs (leaf_refs H cs) stats) log =
         (Inr (next, stats'), log @ map leaf_blob (leaf_groups mid) @ bss)"
      using replace_run [where H = H, OF p(2) hash okm goods pk'] by blast
    moreover have "\<forall>g \<in> set (as @ leaf_groups mid @ cs). g \<noteq> [] \<and> (\<exists>bs. encode_leaf g = Inr bs) \<and> (\<forall>e \<in> set g. entry_typed e)"
      using goods leaf_groups_good [OF mid okm(2)] by auto
    moreover have "concat (as @ leaf_groups mid @ cs) = merge_prefix_entries (concat gs) changed deleted" using p(5) by simp
    moreover have "set (as @ leaf_groups mid @ cs) \<subseteq> set gs \<union> set (leaf_groups mid)" using p(3) by auto
    moreover have "short leaf_bounds entry_record (concat gs) \<longrightarrow> gs = leaf_groups (concat gs) \<longrightarrow>
        as @ leaf_groups mid @ cs = leaf_groups (concat (as @ leaf_groups mid @ cs))"
      using replaced_groups [of as bs cs mid] p(3,4,6) by blast
    ultimately show ?thesis using p(1) pk' by blast
  next
    case True
    let ?m = "merge_prefix_entries [] changed deleted"
    have m: "entries_ok ?m" "\<forall>e \<in> set ?m. entry_typed e" using ok typed True by simp_all
    have sort: "sort_key fe_path ?m = ?m" using m(1) by (intro sort_sorted_entries) (simp add: entries_ok_def)
    obtain "next" mm bss where run: "root_ok H (leaf_refs H (leaf_groups ?m)) next mm bss"
        "\<forall>log. build_tree recorder_ops H ?m log = (Inr next, log @ map leaf_blob (leaf_groups ?m) @ bss)"
      using build_run_groups [where H = H and es = ?m] m hash unfolding sort by blast
    obtain segs where segs: "segment_entries ?m = Inr segs" using segment_entries_groups [OF m(1)] by blast
    obtain vs where "denotes H get root [] vs []" "length vs \<le> 0" using inv True by (auto simp: tree_inv_def leaf_refs_def)
    then have collect: "collect_leaf_refs H get root budget_default = Inr ([], \<lparr>tb_nodes = length vs, tb_entries = 0\<rparr>)"
      by (intro denotes_collect) simp_all
    have valid: "try_all (\<lambda>e. validate_path (fe_path e)) changed = Inr ()" "try_all validate_path deleted = Inr ()"
      using chp del by (simp_all add: path_ok_def)
    have nonempty: "\<not> (changed = [] \<and> deleted = [])" using ops by (auto simp: op_paths_def)
    have plan: "update_plan H get root changed deleted = Inr (Rebuild ?m (length segs))"
      unfolding update_plan_def h(3) valid and_then_simps if_not_P [OF nonempty] collect Let_def prod.case using segs by simp
    have "\<forall>log. apply_plan recorder_ops H root (Rebuild ?m (length segs)) log =
        (Inr (next, stats_default\<lparr>replacement_leaves := of_nat (length segs), reached_tree_end := True\<rparr>), log @ map leaf_blob (leaf_groups ?m) @ bss)"
      unfolding apply_plan_def UpdatePlan.case using run(2) by (simp add: io_bind_run)
    moreover have "packed (leaf_groups ?m)" using leaf_groups_min(1) [OF m(1)] by (simp add: packed_def)
    moreover have "concat (leaf_groups ?m) = merge_prefix_entries (concat gs) changed deleted" using True by simp
    moreover have "set (leaf_groups ?m) \<subseteq> set gs \<union> set (leaf_groups ?m)" by blast
    moreover have "leaf_groups ?m = leaf_groups (concat (leaf_groups ?m))" by simp
    ultimately show ?thesis using plan run(1) leaf_groups_good [OF m] by blast
  qed
qed


definition leaves_root :: "(bytes \<Rightarrow> FileHash) \<Rightarrow> FileEntry list list \<Rightarrow> TreeV2Root \<Rightarrow> bool" where
  "leaves_root H gs root \<longleftrightarrow> (\<exists>m bss. root_ok H (leaf_refs H gs) root m bss)"

definition update_blobs :: "(bytes \<Rightarrow> FileHash) \<Rightarrow> lookup \<Rightarrow> TreeV2Root \<Rightarrow> FileEntry list \<Rightarrow> string list \<Rightarrow> bytes list" where
  "update_blobs H get root changed deleted =
     (case update_plan H get root changed deleted of
        Inl e \<Rightarrow> [] | Inr plan \<Rightarrow> snd (apply_plan recorder_ops H root plan []))"

lemma merge_nothing: "sorted_entries es \<Longrightarrow> merge_prefix_entries es [] [] = es"
  using merge_prefix_entries_correct [of es "[]" "[]"]
  by (intro sorted_entries_same_map) (simp_all add: apply_changes_def restrict_map_def)

lemma tree_inv_mono: "grows get get' \<Longrightarrow> tree_inv H get root gs \<Longrightarrow> tree_inv H get' root gs"
  unfolding tree_inv_def using denotes_mono by blast

context reliable_store
begin

lemma update_stored:
  assumes s: "ok s" and inv: "tree_inv H (\<lambda>h. get_op ops h s) root gs"
    and ch: "\<forall>e \<in> set changed. path_ok (fe_path e) \<and> entry_typed e" and del: "\<forall>p \<in> set deleted. path_ok p"
    and size: "length (merge_prefix_entries (concat gs) changed deleted) \<le> MAX_LOADED_ENTRIES" and hash: "\<And>b. hash_ok (H b)"
    and inj: "inj_on H ({b. \<exists>h. get_op ops h s = Inr b} \<union> set (update_blobs H (\<lambda>h. get_op ops h s) root changed deleted))"
  shows "\<exists>next stats s' gs'. update_tree ops H root changed deleted s = (Inr (next, stats), s')
    \<and> tree_inv H (\<lambda>h. get_op ops h s') next gs' \<and> concat gs' = merge_prefix_entries (concat gs) changed deleted
    \<and> grows (\<lambda>h. get_op ops h s) (\<lambda>h. get_op ops h s')
    \<and> (short leaf_bounds entry_record (concat gs) \<longrightarrow> gs = leaf_groups (concat gs) \<longrightarrow> leaves_root H gs root \<longrightarrow>
         gs' = leaf_groups (concat gs') \<and> leaves_root H gs' next)"
proof -
  let ?get = "\<lambda>h. get_op ops h s"
  have h: "holds H ?get (leaf_refs H gs) gs" "entries_ok (concat gs)" "validate_root_shape root = Inr ()"
    using inv by (auto simp: tree_inv_def denotes_def)
  show ?thesis
  proof (cases "op_paths changed deleted = []")
    case True
    then have "changed = []" "deleted = []" by (auto simp: op_paths_def)
    then have "update_tree ops H root changed deleted s = (Inr (root, stats_default), s)"
      using h(3) by (simp add: update_tree_def update_plan_def apply_plan_def io_bind_run)
    moreover have "concat gs = merge_prefix_entries (concat gs) changed deleted"
      using h(2) \<open>changed = []\<close> \<open>deleted = []\<close> by (simp add: merge_nothing entries_ok_def)
    moreover have "grows ?get ?get" by (simp add: grows_def)
    ultimately show ?thesis using inv by metis
  next
    case False
    obtain plan "next" m bss gs' new stats where p: "update_plan H ?get root changed deleted = Inr plan"
        "root_ok H (leaf_refs H gs') next m bss" "packed gs'" "concat gs' = merge_prefix_entries (concat gs) changed deleted"
        "\<forall>g \<in> set gs'. g \<noteq> [] \<and> (\<exists>bs. encode_leaf g = Inr bs) \<and> (\<forall>e \<in> set g. entry_typed e)" "set gs' \<subseteq> set gs \<union> set new"
        "short leaf_bounds entry_record (concat gs) \<longrightarrow> gs = leaf_groups (concat gs) \<longrightarrow> gs' = leaf_groups (concat gs')"
        "\<forall>log. apply_plan recorder_ops H root plan log = (Inr (next, stats), log @ map leaf_blob new @ bss)"
      using plan_applied [where H = H, OF inv False ch del size hash] by blast
    let ?bs = "map leaf_blob new @ bss"
    have rec: "apply_plan recorder_ops H root plan [] = (Inr (next, stats), ?bs)" using p(8) by simp
    obtain s' where run: "apply_plan ops H root plan s = (Inr (next, stats), s')"
    proof -
      have "fst (apply_plan ops H root plan s) = fst (apply_plan recorder_ops H root plan [])"
        using same_apply_plan s unfolding same_result_def by blast
      then have "apply_plan ops H root plan s = (Inr (next, stats), snd (apply_plan ops H root plan s))"
        using rec by (simp add: prod_eq_iff)
      then show thesis by (rule that)
    qed
    have inj': "inj_on H ({b. \<exists>h. get_op ops h s = Inr b} \<union> set ?bs)" using inj p(1) rec by (simp add: update_blobs_def)
    note wg = writes_grows(1) [OF writes_apply_plan s run rec inj'] writes_grows(3) [OF writes_apply_plan s run rec inj', of "(next, stats)"]
    have stored: "\<forall>b \<in> leaf_blob ` set gs. get_op ops (H b) s' = Inr b"
      using holds_leaf_refs [OF h(1)] wg(1) by (auto simp: grows_def)
    have "\<forall>b \<in> leaf_blob ` set gs' \<union> set bss. get_op ops (H b) s' = Inr b"
      using stored wg(2) p(6) by auto
    moreover have "entries_ok (concat gs')" unfolding p(4) using merged_ok [OF h(2) _ size] ch by blast
    ultimately have "tree_inv H (\<lambda>h. get_op ops h s') next gs'" 
      using root_tree_inv [where get = "\<lambda>h. get_op ops h s'", OF p(2) _ p(3,5)] by simp
    moreover have "update_tree ops H root changed deleted s = (Inr (next, stats), s')"
      using p(1) run by (simp add: update_tree_def io_bind_run)
    moreover have "leaves_root H gs' next" using p(2) by (auto simp: leaves_root_def)
    ultimately show ?thesis using p(4,7) wg(1) by blast
  qed
qed

end

lemma built_root:
  assumes "entries_ok es" "\<forall>e \<in> set es. entry_typed e" "\<And>b. hash_ok (H b)"
  shows "fst (build_tree recorder_ops H es []) = Inr root \<longleftrightarrow> leaves_root H (leaf_groups es) root"
proof -
  have sort: "sort_key fe_path es = es" using assms(1) by (intro sort_sorted_entries) (simp add: entries_ok_def)
  obtain r m bss where run: "root_ok H (leaf_refs H (leaf_groups es)) r m bss"
      "\<forall>log. build_tree recorder_ops H es log = (Inr r, log @ map leaf_blob (leaf_groups es) @ bss)"
    using build_run_groups [where H = H and es = es] assms unfolding sort by blast
  have "leaves_root H (leaf_groups es) root \<longleftrightarrow> root = r"
    using run(1) unfolding leaves_root_def root_ok_def by (metis Pair_inject sum.inject(2))
  then show ?thesis using run(2) by auto
qed

section \<open>Properties\<close>

text \<open>(C2) Incremental update refines the map of paths to entries and keeps the tree invariant. On any stored tree that
  has the invariant, an update with valid paths succeeds in a memory store, the new root stands for the
  old entries with the deletions and then the upserts applied, the invariant holds again, and every tree
  that could be read before still reads the same. The result must stay within the entry limit, and the
  blobs that are resident or written must not collide.\<close>

theorem update_tree_applies_changes:
  assumes "memory_addressed H s" "tree_inv H (\<lambda>h. memory_get h s) root gs"
    "\<forall>e \<in> set changed. validate_path (fe_path e) = Inr () \<and> entry_typed e" "\<forall>p \<in> set deleted. validate_path p = Inr ()"
    "length (merge_prefix_entries (concat gs) changed deleted) \<le> MAX_LOADED_ENTRIES" "\<And>b. hash_ok (H b)"
    "inj_on H ({b. \<exists>h. memory_get h s = Inr b} \<union> set (update_blobs H (\<lambda>h. memory_get h s) root changed deleted))"
  shows "\<exists>next stats s' gs'. update_tree (memory_ops alloc) H root changed deleted s = (Inr (next, stats), s')
    \<and> tree_inv H (\<lambda>h. memory_get h s') next gs'
    \<and> load_all_entries H (\<lambda>h. memory_get h s') next = Inr (concat gs')
    \<and> entry_map (concat gs') = apply_changes (entry_map (concat gs)) changed deleted
    \<and> (\<forall>old fs. load_all_entries H (\<lambda>h. memory_get h s) old = Inr fs \<longrightarrow>
         load_all_entries H (\<lambda>h. memory_get h s') old = Inr fs)"
proof -
  have get: "get_op (memory_ops alloc) = memory_get" by (simp add: memory_ops_def)
  have paths: "\<forall>e \<in> set changed. path_ok (fe_path e) \<and> entry_typed e" "\<forall>p \<in> set deleted. path_ok p"
    using assms(3,4) by (simp_all add: path_ok_def)
  obtain "next" stats s' gs' where u: "update_tree (memory_ops alloc) H root changed deleted s = (Inr (next, stats), s')"
      "tree_inv H (\<lambda>h. memory_get h s') next gs'" "concat gs' = merge_prefix_entries (concat gs) changed deleted"
      "grows (\<lambda>h. memory_get h s) (\<lambda>h. memory_get h s')"
    using memory.update_stored [where H = H and alloc = alloc, OF assms(1) _ paths assms(5,6)] assms(2,7) unfolding get by blast
  have "sorted_entries (concat gs)" using assms(2) by (auto simp: tree_inv_def denotes_def entries_ok_def)
  then have "entry_map (concat gs') = apply_changes (entry_map (concat gs)) changed deleted"
    unfolding u(3) by (rule merge_prefix_entries_correct(2))
  then show ?thesis using u tree_inv_loads [OF u(2)] load_all_entries_mono [OF u(4)] by blast
qed


lemma segment_one:
  assumes "entries_ok [e]"
  shows "segment_entries [e] = Inr [\<lparr>seg_start = 0, seg_end = 1, stable_end = False\<rparr>]"
  using assms leaf_record_bound [OF assms]
  by (simp add: segment_entries_def codec_simps segment_by_def segment_step_def segment_flush_def segment_take_def
      entry_record_def leaf_bounds_def tree_limits MIN_LEAF_ENTRIES_def)

lemma empty_tree_inv: "tree_inv H get empty_root []"
  by (auto simp: tree_inv_def denotes_def packed_def holds_def leaf_refs_def root_children_def validate_root_shape_def
      entries_ok_def empty_root_def intro: spans.intros)

text \<open>One upsert into an empty tree, the concrete input of the witnesses.\<close>

lemma first_update:
  fixes e defines "e \<equiv> FileEntry.make ''a'' ZERO_HASH 1 2"
  shows "entries_ok [e]" "entry_typed e" "validate_path (fe_path e) = Inr ()" "validate_path ''b'' = Inr ()"
    and "merge_prefix_entries [] [e] [''b''] = [e]"
    and "inj_on H ({b. \<exists>h. memory_get h memory_default = Inr b} \<union> set (update_blobs H (\<lambda>h. memory_get h memory_default) empty_root [e] [''b'']))"
proof -
  show ok: "entries_ok [e]" by (simp add: e_def entries_ok_def plain_paths FileEntry.defs tree_limits)
  show typed: "entry_typed e" by (simp add: e_def entry_typed_def FileEntry.defs ZERO_HASH_def as_bytes_def from_utf8_ok_ascii)
  show path: "validate_path (fe_path e) = Inr ()" "validate_path ''b'' = Inr ()"
    using plain_paths by (simp_all add: e_def path_ok_def FileEntry.defs)
  show m: "merge_prefix_entries [] [e] [''b''] = [e]"
    using merge_prefix_entries_correct [of "[]" "[e]" "[''b'']"] ok
    by (intro sorted_entries_same_map) (auto simp: e_def apply_changes_def upsert_one_def entries_ok_def FileEntry.defs)
  have plan: "update_plan H (\<lambda>h. memory_get h memory_default) empty_root [e] [''b''] = Inr (Rebuild [e] 1)"
    using m path segment_one [OF ok]
    by (simp add: update_plan_def validate_root_shape_def collect_leaf_refs_def root_children_def codec_simps ranges_ok_def Let_def empty_root_def)
  obtain r where "build_tree recorder_ops H [e] [] = (r, [leaf_blob [e]])"
    using one_entry_blobs [OF ok typed, of H] by (cases "build_tree recorder_ops H [e] []") (auto simp: build_blobs_def)
  then have "update_blobs H (\<lambda>h. memory_get h memory_default) empty_root [e] [''b''] = [leaf_blob [e]]"
    using plan by (cases r) (simp_all add: update_blobs_def apply_plan_def io_bind_def)
  then show "inj_on H ({b. \<exists>h. memory_get h memory_default = Inr b} \<union> set (update_blobs H (\<lambda>h. memory_get h memory_default) empty_root [e] [''b'']))"
    by (simp add: memory_get_def memory_default_def)
qed

theorem update_tree_applies_changes_witness:
  "let e = FileEntry.make ''a'' ZERO_HASH 1 2; H = (\<lambda>b. ZERO_HASH) in
   \<exists>next stats s'. update_tree (memory_ops length) H empty_root [e] [''b''] memory_default = (Inr (next, stats), s')
     \<and> entry_map [e] = apply_changes (entry_map []) [e] [''b'']"
  using update_tree_applies_changes [where H = "\<lambda>b. ZERO_HASH" and alloc = length, OF _ empty_tree_inv _ _ _ _ first_update(6)]
    first_update merge_prefix_entries_correct(2) [of "[]" "[FileEntry.make ''a'' ZERO_HASH 1 2]" "[''b'']"]
  by (auto simp: memory_addressed_def memory_default_def ZERO_HASH_def tree_limits)

text \<open>(C3) An incremental update gives the root that a rebuild from the changed list gives, byte for byte, and the
  tree it leaves can be updated again in the same way. This holds when the root was built from its
  entries and the paths in it have at most 205 bytes: then a leaf of 256 entries fits a node, and no
  boundary depends on the entry after it.\<close>

theorem update_tree_equals_rebuild:
  assumes "memory_addressed H s" "memory_addressed H t" "tree_inv H (\<lambda>h. memory_get h s) root (leaf_groups es)"
    "fst (build_tree (memory_ops alloc) H es t) = Inr root" "sorted_entries es" "\<forall>e \<in> set es. length (fe_path e) \<le> 205 \<and> entry_typed e"
    "\<forall>e \<in> set changed. validate_path (fe_path e) = Inr () \<and> entry_typed e" "\<forall>p \<in> set deleted. validate_path p = Inr ()"
    "length (merge_prefix_entries es changed deleted) \<le> MAX_LOADED_ENTRIES" "\<And>b. hash_ok (H b)"
    "inj_on H ({b. \<exists>h. memory_get h s = Inr b} \<union> set (update_blobs H (\<lambda>h. memory_get h s) root changed deleted))"
  shows "\<exists>next stats s'. update_tree (memory_ops alloc) H root changed deleted s = (Inr (next, stats), s')
    \<and> fst (build_tree (memory_ops alloc) H (merge_prefix_entries es changed deleted) t) = Inr next
    \<and> tree_inv H (\<lambda>h. memory_get h s') next (leaf_groups (merge_prefix_entries es changed deleted))"
proof -
  let ?m = "merge_prefix_entries es changed deleted"
  have get: "get_op (memory_ops alloc) = memory_get" by (simp add: memory_ops_def)
  have paths: "\<forall>e \<in> set changed. path_ok (fe_path e) \<and> entry_typed e" "\<forall>p \<in> set deleted. path_ok p"
    using assms(7,8) by (simp_all add: path_ok_def)
  have build: "fst (build_tree (memory_ops alloc) H fs t) = Inr r \<longleftrightarrow> leaves_root H (leaf_groups fs) r"
    if "entries_ok fs" "\<forall>e \<in> set fs. entry_typed e" for fs r
    using built_root [where H = H, OF that assms(10)] memory.same_build_tree assms(2) unfolding memory.same_result_def by metis
  have ok: "entries_ok es" "leaf_groups es = leaf_groups (concat (leaf_groups es))"
    using assms(3) by (auto simp: tree_inv_def denotes_def)
  have cat: "concat (leaf_groups es) = es" by simp
  have short: "short leaf_bounds entry_record es"
    using assms(6) by (auto simp: short_def leaf_bounds_def entry_record_def leaf_record_len_def tree_limits MAX_LEAF_ENTRIES_def)
  have root: "leaves_root H (leaf_groups es) root" using build [OF ok(1)] assms(4,6) by blast
  obtain "next" stats s' gs' where u: "update_tree (memory_ops alloc) H root changed deleted s = (Inr (next, stats), s')"
      "tree_inv H (\<lambda>h. memory_get h s') next gs'" "concat gs' = ?m" "gs' = leaf_groups (concat gs') \<and> leaves_root H gs' next"
    using memory.update_stored [where H = H and alloc = alloc and gs = "leaf_groups es" and root = root,
        unfolded get cat, OF assms(1,3) paths assms(9,10,11)] short root by blast
  have "entries_ok ?m" "\<forall>e \<in> set ?m. entry_typed e"
    using merged_ok [OF ok(1) _ assms(9)] paths(1) merge_paths_from [OF assms(5)] assms(6) by blast+
  then show ?thesis using u build [of ?m "next"] by auto
qed

theorem update_tree_equals_rebuild_witness:
  "let e = FileEntry.make ''a'' ZERO_HASH 1 2; H = (\<lambda>b. ZERO_HASH) in
   \<exists>next stats s'. update_tree (memory_ops length) H empty_root [e] [''b''] memory_default = (Inr (next, stats), s')
     \<and> fst (build_tree (memory_ops length) H [e] memory_default) = Inr next"
proof -
  have "tree_inv (\<lambda>b. ZERO_HASH) (\<lambda>h. memory_get h memory_default) empty_root (leaf_groups [])"
    using empty_tree_inv by (simp add: leaf_groups_def)
  from update_tree_equals_rebuild [where H = "\<lambda>b. ZERO_HASH" and alloc = length, OF _ _ this _ _ _ _ _ _ _ first_update(6), of memory_default]
    first_update
  show ?thesis by (auto simp: memory_addressed_def memory_default_def ZERO_HASH_def tree_limits build_tree_def io_bind_run codec_simps entries_ok_def)
qed

end
