(* ===== verification/Tree_V2_Diff.thy ===== *)
theory Tree_V2_Diff
  imports Tree_V2_Update Diff
begin

text \<open>
  Recursive comparison of two Tree v2 roots (\<open>tree_v2.rs\<close>: \<open>align_range_windows\<close>, \<open>expand_one_level\<close>,
  \<open>compute_deltas_with_stats\<close>, \<open>compute_deltas\<close>). Subtrees with equal descriptors are skipped, the others
  are expanded level by level. The theorem says that the deltas are those of the two entry lists, so
  neither the skipping nor the windows lose or invent a change.
\<close>

section \<open>Operations\<close>

record DiffStats =
  nodes_visited :: u64
  nodes_skipped :: u64
  entries_materialized :: u64

record DiffResult =
  dr_deltas :: "FileDelta list"
  dr_stats :: DiffStats

definition diff_stats_default :: DiffStats where
  "diff_stats_default = \<lparr>nodes_visited = 0, nodes_skipped = 0, entries_materialized = 0\<rparr>"

fun expand_one_level ::
  "(bytes \<Rightarrow> FileHash) \<Rightarrow> lookup \<Rightarrow> RangeRef list \<Rightarrow> RangeRef list \<Rightarrow> TraversalBudget
   \<Rightarrow> ChunkError + RangeRef list \<times> TraversalBudget" where
  "expand_one_level H get [] out b = Inr (out, b)"
| "expand_one_level H get (rng # ranges) out b =
     (if rr_height rng = 0 then expand_one_level H get ranges (out @ [rng]) b
      else and_then (budget_node (rr_height rng) b) (\<lambda>b.
           and_then (load_node H get rng) (\<lambda>node.
             case node of
               Internal _ children \<Rightarrow> expand_one_level H get ranges (out @ children) b
             | Leaf _ \<Rightarrow> invalid ''Tree v2 internal descriptor names a leaf'')))"

text \<open>The inner loop of \<open>align_range_windows\<close>; \<open>ls\<close> and \<open>rs\<close> are the ranges since \<open>start_i\<close> and \<open>start_j\<close>. The
  result is the window and the ranges after it. It is only called on two lists that are not empty.\<close>

fun align_window ::
  "RangeRef list \<Rightarrow> RangeRef list \<Rightarrow> RangeRef list \<Rightarrow> RangeRef list
   \<Rightarrow> (RangeRef list \<times> RangeRef list) \<times> RangeRef list \<times> RangeRef list" where
  "align_window (f # fs) (t # ts) ls rs =
     (if rr_max_path f = rr_max_path t then ((ls @ [f], rs @ [t]), fs, ts)
      else if rr_max_path f < rr_max_path t then
        (if fs = [] then ((ls @ [f], rs @ t # ts), [], []) else align_window fs (t # ts) (ls @ [f]) rs)
      else (if ts = [] then ((ls @ f # fs, rs @ [t]), [], []) else align_window (f # fs) ts ls (rs @ [t])))"
| "align_window fs ts ls rs = ((ls, rs), fs, ts)"

lemma align_window_split:
  "align_window fs ts ls rs = ((l, r), fs', ts') \<Longrightarrow> l @ fs' = ls @ fs \<and> r @ ts' = rs @ ts"
  by (induction fs ts ls rs rule: align_window.induct) (auto split: if_splits)

lemma align_window_shrinks:
  "align_window fs ts ls rs = (w, fs', ts') \<Longrightarrow> fs \<noteq> [] \<Longrightarrow> ts \<noteq> [] \<Longrightarrow> length fs' < length fs \<and> length ts' < length ts"
  by (induction fs ts ls rs rule: align_window.induct) (auto split: if_splits)

function align_range_windows :: "RangeRef list \<Rightarrow> RangeRef list \<Rightarrow> (RangeRef list \<times> RangeRef list) list" where
  "align_range_windows [] [] = []"
| "align_range_windows [] (t # ts) = [([], t # ts)]"
| "align_range_windows (f # fs) [] = [(f # fs, [])]"
| "align_range_windows (f # fs) (t # ts) =
     (if rr_min_path f = rr_min_path t \<and> rr_max_path f = rr_max_path t
      then ([f], [t]) # align_range_windows fs ts
      else case align_window (f # fs) (t # ts) [] [] of
             (w, fs', ts') \<Rightarrow> w # align_range_windows fs' ts')"
  by pat_completeness auto
termination
  by (relation "measure (\<lambda>(fs, ts). length fs + length ts)") (auto simp del: align_window.simps dest!: align_window_shrinks [OF sym])

text \<open>The state of the comparison: the stack of tasks, the deltas found, the budget and the statistics.\<close>

type_synonym diff_state =
  "(RangeRef list \<times> RangeRef list) list \<times> FileDelta list \<times> TraversalBudget \<times> DiffStats"

definition same_range :: "RangeRef \<Rightarrow> RangeRef \<Rightarrow> bool" where
  "same_range l r = (rr_min_path l = rr_min_path r \<and> rr_max_path l = rr_max_path r \<and> rr_hash l = rr_hash r)"

fun diff_window ::
  "(bytes \<Rightarrow> FileHash) \<Rightarrow> lookup \<Rightarrow> RangeRef list \<times> RangeRef list \<Rightarrow> diff_state \<Rightarrow> ChunkError + diff_state" where
  "diff_window H get (left, right) (tasks, raw, b, stats) =
     (let stats = stats\<lparr>nodes_visited := u64_saturating_add (nodes_visited stats) (of_nat (length left + length right))\<rparr> in
      if length left = 1 \<and> length right = 1 \<and> same_range (hd left) (hd right)
      then Inr (tasks, raw, b, stats\<lparr>nodes_skipped := u64_saturating_add (nodes_skipped stats) 1\<rparr>)
      else if list_ex (\<lambda>r. rr_height r > 0) (left @ right) then
        and_then (expand_one_level H get left [] b) (\<lambda>(expanded_left, b).
        and_then (expand_one_level H get right [] b) (\<lambda>(expanded_right, b).
          Inr ((expanded_left, expanded_right) # tasks, raw, b, stats)))
      else
        and_then (load_leaf_span H get left b) (\<lambda>(from_entries, b).
        and_then (load_leaf_span H get right b) (\<lambda>(to_entries, b).
          Inr (tasks, diff_entries from_entries to_entries raw, b,
            stats\<lparr>entries_materialized :=
              u64_saturating_add (entries_materialized stats) (of_nat (length from_entries + length to_entries))\<rparr>))))"

fun diff_windows ::
  "(bytes \<Rightarrow> FileHash) \<Rightarrow> lookup \<Rightarrow> (RangeRef list \<times> RangeRef list) list \<Rightarrow> diff_state \<Rightarrow> ChunkError + diff_state" where
  "diff_windows H get [] st = Inr st"
| "diff_windows H get (w # ws) st = and_then (diff_window H get w st) (diff_windows H get ws)"

text \<open>Every task that is pushed has visited a node, which bounds the loop by the budget.\<close>

definition diff_measure :: "diff_state \<Rightarrow> nat" where
  "diff_measure st = (case st of (tasks, raw, b, stats) \<Rightarrow> 2 * (MAX_VISITED_NODES + 1 - tb_nodes b) + length tasks)"

lemma expand_visited:
  "expand_one_level H get rs out b = Inr (out', b') \<Longrightarrow> tb_nodes b \<le> MAX_VISITED_NODES \<Longrightarrow> tb_nodes b' \<le> MAX_VISITED_NODES"
proof (induction rs arbitrary: out b)
  case (Cons r rs)
  then show ?case by (fastforce simp: budget_node_Inr case_node_Inr split: if_splits)
qed simp

lemma expand_budget:
  "expand_one_level H get rs out b = Inr (out', b') \<Longrightarrow> tb_nodes b \<le> tb_nodes b' \<and>
     (list_ex (\<lambda>r. rr_height r > 0) rs \<longrightarrow> tb_nodes b < tb_nodes b' \<and> tb_nodes b' \<le> MAX_VISITED_NODES)"
proof (induction rs arbitrary: out b)
  case (Cons r rs)
  show ?case
  proof (cases "rr_height r = 0")
    case True
    then show ?thesis using Cons by simp
  next
    case False
    then obtain h cs where *: "tb_nodes b < MAX_VISITED_NODES"
        "expand_one_level H get rs (out @ cs) (b\<lparr>tb_nodes := tb_nodes b + 1\<rparr>) = Inr (out', b')"
      using Cons.prems by (auto simp: budget_node_Inr case_node_Inr)
    show ?thesis using Cons.IH [OF *(2)] *(1) expand_visited [OF *(2)] by simp
  qed
qed simp

lemma span_budget: "load_leaf_span H get ls b = Inr (es, b') \<Longrightarrow> tb_nodes b \<le> tb_nodes b'"
  by (auto simp: load_leaf_span_Inr read_all_Inr)

lemma diff_window_measure:
  assumes "diff_window H get w st = Inr st'"
  shows "diff_measure st' \<le> diff_measure st"
proof -
  obtain left right tasks raw b stats where w: "w = (left, right)" "st = (tasks, raw, b, stats)" by (metis prod.exhaust)
  show ?thesis
    using assms unfolding w
    by (auto simp: diff_measure_def Let_def and_then_Inr dest!: expand_budget span_budget split: if_splits)
qed

lemma diff_windows_measure: "diff_windows H get ws st = Inr st' \<Longrightarrow> diff_measure st' \<le> diff_measure st"
proof (induction ws arbitrary: st)
  case (Cons w ws)
  then obtain st1 where "diff_window H get w st = Inr st1" "diff_windows H get ws st1 = Inr st'" by auto
  then show ?case using Cons.IH diff_window_measure order_trans by blast
qed simp

function diff_loop :: "(bytes \<Rightarrow> FileHash) \<Rightarrow> lookup \<Rightarrow> diff_state \<Rightarrow> ChunkError + FileDelta list \<times> DiffStats" where
  "diff_loop H get ([], raw, b, stats) = Inr (raw, stats)"
| "diff_loop H get ((from_ranges, to_ranges) # tasks, raw, b, stats) =
     and_then (diff_windows H get (rev (align_range_windows from_ranges to_ranges)) (tasks, raw, b, stats)) (diff_loop H get)"
  by pat_completeness auto
termination
proof (relation "measure (\<lambda>(H, get, st). diff_measure st)")
  fix H get from_ranges to_ranges tasks raw b stats st
  assume "diff_windows H get (rev (align_range_windows from_ranges to_ranges)) (tasks, raw, b, stats) = Inr st"
  from diff_windows_measure [OF this]
  show "((H, get, st), H, get, (from_ranges, to_ranges) # tasks, raw, b, stats) \<in> measure (\<lambda>(H, get, st). diff_measure st)"
    by (simp add: diff_measure_def)
qed simp

definition compute_deltas_with_stats ::
  "(bytes \<Rightarrow> FileHash) \<Rightarrow> lookup \<Rightarrow> TreeV2Root \<Rightarrow> TreeV2Root \<Rightarrow> ChunkError + DiffResult" where
  "compute_deltas_with_stats H get from_root to_root =
     and_then (validate_root_shape from_root) (\<lambda>_.
     and_then (validate_root_shape to_root) (\<lambda>_.
       let stats = diff_stats_default\<lparr>nodes_visited := 1\<rparr> in
       if tree_hash H from_root = tree_hash H to_root
       then Inr \<lparr>dr_deltas = [], dr_stats = stats\<lparr>nodes_skipped := 1\<rparr>\<rparr>
       else and_then (diff_loop H get ([(root_children from_root, root_children to_root)], [], budget_default, stats))
         (\<lambda>(raw, stats). Inr \<lparr>dr_deltas = detect_renames (sort_key delta_path raw), dr_stats = stats\<rparr>)))"

definition compute_deltas ::
  "(bytes \<Rightarrow> FileHash) \<Rightarrow> lookup \<Rightarrow> TreeV2Root \<Rightarrow> TreeV2Root \<Rightarrow> ChunkError + FileDelta list" where
  "compute_deltas H get from_root to_root =
     and_then (compute_deltas_with_stats H get from_root to_root) (\<lambda>r. Inr (dr_deltas r))"

section \<open>The entries under a list of descriptors\<close>

text \<open>\<open>under rs n es\<close>: the descriptors \<open>rs\<close> stand for the entries \<open>es\<close>, with \<open>n\<close> nodes.\<close>

definition under :: "(bytes \<Rightarrow> FileHash) \<Rightarrow> lookup \<Rightarrow> RangeRef list \<Rightarrow> nat \<Rightarrow> FileEntry list \<Rightarrow> bool" where
  "under H get rs n es \<longleftrightarrow> (\<exists>ls vs ess. spans H get rs ls vs \<and> holds H get ls ess \<and> es = concat ess \<and> n = length vs)"

lemma under_Nil [simp]: "under H get [] n es \<longleftrightarrow> n = 0 \<and> es = []"
  by (auto simp: under_def)

lemma holds_appendE:
  assumes "holds H get (ls @ ms) ess"
  obtains gs hs where "ess = gs @ hs" "holds H get ls gs" "holds H get ms hs"
  using assms by (auto simp: holds_def list_all2_append1)

lemma under_appendE:
  assumes "under H get (rs @ ts) n es"
  obtains k m as bs where "n = k + m" "es = as @ bs" "under H get rs k as" "under H get ts m bs"
proof -
  obtain ls vs ess where u: "spans H get (rs @ ts) ls vs" "holds H get ls ess" "es = concat ess" "n = length vs"
    using assms by (auto simp: under_def)
  obtain l1 l2 v1 v2 where s: "ls = l1 @ l2" "vs = v1 @ v2" "spans H get rs l1 v1" "spans H get ts l2 v2"
    using spans_appendE [OF u(1)] by metis
  obtain gs hs where h: "ess = gs @ hs" "holds H get l1 gs" "holds H get l2 hs"
    using holds_appendE u(2) s(1) by metis
  show thesis by (rule that [of "length v1" "length v2" "concat gs" "concat hs"]) (use u s h in \<open>auto simp: under_def\<close>)
qed

lemma under_appendI:
  assumes "under H get rs k as" "under H get ts m bs"
  shows "under H get (rs @ ts) (k + m) (as @ bs)"
proof -
  obtain l1 v1 e1 where a: "spans H get rs l1 v1" "holds H get l1 e1" "as = concat e1" "k = length v1"
    using assms(1) by (auto simp: under_def)
  obtain l2 v2 e2 where b: "spans H get ts l2 v2" "holds H get l2 e2" "bs = concat e2" "m = length v2"
    using assms(2) by (auto simp: under_def)
  have "holds H get (l1 @ l2) (e1 @ e2)" using a(2) b(2) by (simp add: holds_def list_all2_appendI)
  then show ?thesis using spans_appendI [OF a(1) b(1)] a b unfolding under_def by fastforce
qed

lemma under_leaf: "rr_height r = 0 \<Longrightarrow> under H get [r] n es \<longleftrightarrow> n = 1 \<and> load_node H get r = Inr (Leaf es)"
  by (auto simp: under_def spans_Cons holds_Cons)

lemma under_node:
  assumes "rr_height r \<noteq> 0" "under H get [r] n es"
  obtains h cs m where "load_node H get r = Inr (Internal h cs)" "n = m + 1" "under H get cs m es"
  using assms by (auto simp: under_def spans_Cons) blast

lemma under_unique: "under H get rs n es \<Longrightarrow> under H get rs m fs \<Longrightarrow> n = m \<and> es = fs"
proof -
  have "holds H get ls e1 \<Longrightarrow> holds H get ls e2 \<Longrightarrow> e1 = e2" for ls e1 e2
    by (induction ls arbitrary: e1 e2) (auto simp: holds_Cons)
  then show "under H get rs n es \<Longrightarrow> under H get rs m fs \<Longrightarrow> n = m \<and> es = fs"
    unfolding under_def using spans_unique by metis
qed

text \<open>The paths of a descriptor are the first and the last path under it.\<close>

lemma under_bounds:
  assumes "spans H get rs ls vs" "holds H get ls ess" "rs \<noteq> []"
  shows "concat ess \<noteq> [] \<and> rr_min_path (hd rs) = fe_path (hd (concat ess)) \<and> rr_max_path (last rs) = fe_path (last (concat ess))"
  using assms
proof (induction arbitrary: ess rule: spans.induct)
  case (spans_leaf r rs ls vs)
  then obtain es ess' where e: "ess = es # ess'" "load_node H get r = Inr (Leaf es)" "holds H get ls ess'" by (auto simp: holds_Cons)
  then have "es \<noteq> []" "rr_min_path r = fe_path (hd es)" "rr_max_path r = fe_path (last es)" by (auto simp: load_node_Leaf)
  then show ?case using spans_leaf.IH [OF e(3)] e(1) spans_leaf.hyps(2) e(3) by (cases "rs = []") (auto simp: last_append)
next
  case (spans_node r h cs ls us rs ls' vs)
  obtain gs hs where g: "ess = gs @ hs" "holds H get ls gs" "holds H get ls' hs" using holds_appendE [OF spans_node.prems(1)] by metis
  have cs: "cs \<noteq> []" "rr_min_path r = rr_min_path (hd cs)" "rr_max_path r = rr_max_path (last cs)"
    using spans_node.hyps(2) by (auto simp: load_node_Internal encode_internal_Inr ranges_ok_def)
  note c = spans_node.IH(1) [OF g(2) cs(1)]
  show ?case using c cs spans_node.IH(2) [OF g(3)] g(1) spans_node.hyps(4) g(3)
    by (cases "rs = []") (auto simp: last_append)
qed simp

lemma under_range:
  assumes "under H get rs n es" "rs \<noteq> []"
  shows "es \<noteq> []" "rr_min_path (hd rs) = fe_path (hd es)" "rr_max_path (last rs) = fe_path (last es)"
  using assms under_bounds unfolding under_def by metis+

lemma load_node_same: "rr_hash l = rr_hash r \<Longrightarrow> load_node H get l = Inr x \<Longrightarrow> load_node H get r = Inr y \<Longrightarrow> x = y"
  by (auto simp: load_node_def validate_loaded_node_def split: if_splits)

text \<open>Equal hashes read the same bytes, so an equal descriptor stands for the same entries.\<close>

lemma same_hash_under:
  assumes "rr_hash l = rr_hash r" "under H get [l] n es" "under H get [r] m fs"
  shows "es = fs"
proof (cases "rr_height l = 0")
  case True
  then have l: "load_node H get l = Inr (Leaf es)" using assms(2) under_leaf by blast
  show ?thesis
  proof (cases "rr_height r = 0")
    case True
    then show ?thesis using l assms(3) load_node_same [OF assms(1) l] under_leaf by blast
  next
    case False
    then show ?thesis using under_node [OF False assms(3)] load_node_same [OF assms(1) l] by (metis V2Node.distinct(1))
  qed
next
  case False
  then obtain h cs k where l: "load_node H get l = Inr (Internal h cs)" "under H get cs k es" using under_node [OF False assms(2)] by metis
  show ?thesis
  proof (cases "rr_height r = 0")
    case True
    then show ?thesis using assms(3) load_node_same [OF assms(1) l(1)] under_leaf by blast
  next
    case False
    then obtain h' cs' k' where "load_node H get r = Inr (Internal h' cs')" "under H get cs' k' fs" using under_node [OF False assms(3)] by metis
    then show ?thesis using load_node_same [OF assms(1) l(1)] l(2) under_unique by blast
  qed
qed

lemma expand_run:
  assumes "under H get rs n es" "tb_nodes b + n \<le> MAX_VISITED_NODES"
  shows "\<exists>ts k m. expand_one_level H get rs out b = Inr (out @ ts, b\<lparr>tb_nodes := tb_nodes b + k\<rparr>) \<and> n = k + m \<and> under H get ts m es"
  using assms
proof (induction rs arbitrary: n es b out)
  case (Cons r rs)
  have "under H get ([r] @ rs) n es" using Cons.prems(1) by simp
  then obtain i j as bs where u: "n = i + j" "es = as @ bs" "under H get [r] i as" "under H get rs j bs" by (rule under_appendE)
  show ?case
  proof (cases "rr_height r = 0")
    case True
    obtain ts k m where IH: "expand_one_level H get rs (out @ [r]) b = Inr ((out @ [r]) @ ts, b\<lparr>tb_nodes := tb_nodes b + k\<rparr>)"
        "j = k + m" "under H get ts m bs"
      using Cons.IH [OF u(4), of b "out @ [r]"] Cons.prems(2) u(1) by auto
    have "under H get ([r] @ ts) (i + m) (as @ bs)" using under_appendI [OF u(3) IH(3)] .
    moreover have "expand_one_level H get (r # rs) out b = Inr (out @ [r] @ ts, b\<lparr>tb_nodes := tb_nodes b + k\<rparr>)" using True IH(1) by simp
    moreover have "n = k + (i + m)" using u(1) IH(2) by simp
    ultimately show ?thesis unfolding u(2) by blast
  next
    case False
    obtain h cs i' where c: "load_node H get r = Inr (Internal h cs)" "i = i' + 1" "under H get cs i' as" using under_node [OF False u(3)] .
    let ?b = "b\<lparr>tb_nodes := tb_nodes b + 1\<rparr>"
    have "rr_height r \<le> MAX_TREE_DEPTH" using c(1) by (intro range_ok_height) (simp add: load_node_Internal)
    then have bud: "budget_node (rr_height r) b = Inr ?b" using Cons.prems(2) u(1) c(2) by (simp add: budget_node_Inr)
    obtain ts k m where IH: "expand_one_level H get rs (out @ cs) ?b = Inr ((out @ cs) @ ts, ?b\<lparr>tb_nodes := tb_nodes ?b + k\<rparr>)"
        "j = k + m" "under H get ts m bs"
      using Cons.IH [OF u(4), of ?b "out @ cs"] Cons.prems(2) u(1) c(2) by auto
    have "under H get (cs @ ts) (i' + m) (as @ bs)" using under_appendI [OF c(3) IH(3)] .
    moreover have "expand_one_level H get (r # rs) out b = Inr (out @ cs @ ts, b\<lparr>tb_nodes := tb_nodes b + (1 + k)\<rparr>)"
      using False c(1) bud IH(1) by simp
    moreover have "n = (1 + k) + (i' + m)" using u(1) c(2) IH(2) by simp
    ultimately show ?thesis unfolding u(2) by blast
  qed
qed simp

lemma span_run:
  assumes "\<forall>r \<in> set rs. rr_height r = 0" "under H get rs n es" "entries_ok es"
    "tb_nodes b + n \<le> MAX_VISITED_NODES" "tb_entries b + length es \<le> MAX_LOADED_ENTRIES"
  shows "load_leaf_span H get rs b = Inr (es, \<lparr>tb_nodes = tb_nodes b + n, tb_entries = tb_entries b + length es\<rparr>)"
proof -
  obtain ls vs ess where u: "spans H get rs ls vs" "holds H get ls ess" "es = concat ess" "n = length vs"
    using assms(2) by (auto simp: under_def)
  have "ls = rs" "vs = rs" using spans_unique [OF spans_leaves [OF assms(1)] u(1)] by simp_all
  then show ?thesis using u assms(3-5) holds_length [OF u(2)] by (auto simp: load_leaf_span_Inr read_all_Inr)
qed

section \<open>Windows split the comparison\<close>

lemma diff_list_Nil [simp]: "diff_list es [] = map deleted_of es"
  by (cases es) simp_all

lemma diff_list_left: "\<forall>y \<in> set fs. \<forall>x \<in> set es. fe_path x < fe_path y \<Longrightarrow> diff_list (es @ es') fs = map deleted_of es @ diff_list es' fs"
proof (induction es)
  case (Cons e es)
  then show ?case by (cases fs) auto
qed simp

lemma diff_list_right: "\<forall>y \<in> set es. \<forall>x \<in> set fs. fe_path x < fe_path y \<Longrightarrow> diff_list es (fs @ fs') = map added_of fs @ diff_list es fs'"
proof (induction fs)
  case (Cons f fs)
  then show ?case by (cases es) auto
qed simp

lemma diff_list_append:
  "\<forall>x \<in> set as \<union> set bs. \<forall>y \<in> set as' \<union> set bs'. fe_path x < fe_path y \<Longrightarrow>
   diff_list (as @ as') (bs @ bs') = diff_list as bs @ diff_list as' bs'"
proof (induction as bs rule: diff_list.induct)
  case (1 ts)
  then show ?case by (simp add: diff_list_right)
next
  case (2 f fs)
  then show ?case using diff_list_left [of bs' "f # fs" as'] by simp
next
  case (3 f fs t ts)
  then show ?case by auto
qed
lemma align_window_end:
  "align_window fs ts ls rs = ((l, r), fs', ts') \<Longrightarrow> fs \<noteq> [] \<Longrightarrow> ts \<noteq> [] \<Longrightarrow>
   fs' = [] \<and> ts' = [] \<or> l \<noteq> [] \<and> r \<noteq> [] \<and> rr_max_path (last l) = rr_max_path (last r)"
  by (induction fs ts ls rs rule: align_window.induct) (auto split: if_splits)

text \<open>\<open>window_ok\<close>: a window with the number of nodes under it and the entries on its two sides.\<close>

type_synonym window_meaning = "nat \<times> FileEntry list \<times> FileEntry list"

fun window_ok :: "(bytes \<Rightarrow> FileHash) \<Rightarrow> lookup \<Rightarrow> RangeRef list \<times> RangeRef list \<Rightarrow> window_meaning \<Rightarrow> bool" where
  "window_ok H get (l, r) (n, es, fs) \<longleftrightarrow>
     (\<exists>k m. n = k + m \<and> under H get l k es \<and> under H get r m fs) \<and> entries_ok es \<and> entries_ok fs"

definition node_cost :: "window_meaning list \<Rightarrow> nat" where
  "node_cost ps = sum_list (map fst ps)"

definition entry_cost :: "window_meaning list \<Rightarrow> nat" where
  "entry_cost ps = sum_list (map (\<lambda>(n, es, fs). length es + length fs) ps)"

definition changes :: "window_meaning list \<Rightarrow> FileDelta list" where
  "changes ps = concat (map (\<lambda>(n, es, fs). diff_list es fs) ps)"

lemma meaning_simps [simp]:
  "node_cost [] = 0" "node_cost (p # ps) = fst p + node_cost ps" "node_cost (ps @ qs) = node_cost ps + node_cost qs" "node_cost (rev ps) = node_cost ps"
  "entry_cost [] = 0" "entry_cost ((n, es, fs) # ps) = length es + length fs + entry_cost ps" "entry_cost (ps @ qs) = entry_cost ps + entry_cost qs"
  "entry_cost (rev ps) = entry_cost ps"
  "changes [] = []" "changes ((n, es, fs) # ps) = diff_list es fs @ changes ps" "changes (ps @ qs) = changes ps @ changes qs"
  "mset (changes (rev ps)) = mset (changes ps)"
proof -
  show "mset (changes (rev ps)) = mset (changes ps)" by (induction ps) (auto simp: changes_def)
qed (simp_all add: node_cost_def entry_cost_def changes_def rev_map [symmetric] sum_list_rev)

lemma window_split:
  assumes "window_ok H get (l @ l', r @ r') (n, es, fs)"
    "l' = [] \<and> r' = [] \<or> l \<noteq> [] \<and> r \<noteq> [] \<and> rr_max_path (last l) = rr_max_path (last r)"
  obtains i j as bs as' bs' where "window_ok H get (l, r) (i, as, bs)" "window_ok H get (l', r') (j, as', bs')"
    "n = i + j" "es = as @ as'" "fs = bs @ bs'" "diff_list es fs = diff_list as bs @ diff_list as' bs'"
proof -
  obtain k m where u: "n = k + m" "under H get (l @ l') k es" "under H get (r @ r') m fs" and ok: "entries_ok es" "entries_ok fs"
    using assms(1) by auto
  obtain k1 k2 as as' where a: "k = k1 + k2" "es = as @ as'" "under H get l k1 as" "under H get l' k2 as'" using under_appendE [OF u(2)] .
  obtain m1 m2 bs bs' where b: "m = m1 + m2" "fs = bs @ bs'" "under H get r m1 bs" "under H get r' m2 bs'" using under_appendE [OF u(3)] .
  have oks: "entries_ok as" "entries_ok as'" "entries_ok bs" "entries_ok bs'" using ok a(2) b(2) by (auto simp: entries_ok_def sorted_entries_append)
  have "\<forall>x \<in> set as \<union> set bs. \<forall>y \<in> set as' \<union> set bs'. fe_path x < fe_path y"
  proof (cases "l' = [] \<and> r' = []")
    case True
    then show ?thesis using a(4) b(4) by simp
  next
    case False
    then have ends: "l \<noteq> []" "r \<noteq> []" "rr_max_path (last l) = rr_max_path (last r)" using assms(2) by auto
    have ne: "as \<noteq> []" "bs \<noteq> []" "fe_path (last as) = fe_path (last bs)"
      using under_range [OF a(3) ends(1)] under_range [OF b(3) ends(2)] ends(3) by auto
    have "fe_path x \<le> fe_path (last as)" if "x \<in> set as \<union> set bs" for x
      using that sorted_entries_last [of as x] sorted_entries_last [of bs x] oks ne(3) by (auto simp: entries_ok_def)
    moreover have "fe_path (last as) < fe_path y" if "y \<in> set as' \<union> set bs'" for y
    proof -
      have "\<forall>y \<in> set as'. fe_path (last as) < fe_path y" "\<forall>y \<in> set bs'. fe_path (last bs) < fe_path y"
        using ok a(2) b(2) last_in_set [OF ne(1)] last_in_set [OF ne(2)] by (simp_all add: entries_ok_def sorted_entries_append)
      then show ?thesis using that ne(3) by auto
    qed
    ultimately show ?thesis using le_less_trans by blast
  qed
  then have "diff_list es fs = diff_list as bs @ diff_list as' bs'" using diff_list_append a(2) b(2) by blast
  moreover have "window_ok H get (l, r) (k1 + m1, as, bs)" "window_ok H get (l', r') (k2 + m2, as', bs')" using a b oks by auto
  ultimately show thesis using that a b u(1) by simp
qed

lemma align_run:
  assumes "window_ok H get (fs, ts) (n, es, es')"
  shows "\<exists>ps. list_all2 (window_ok H get) (align_range_windows fs ts) ps \<and> node_cost ps = n
    \<and> entry_cost ps = length es + length es' \<and> changes ps = diff_list es es'"
  using assms
proof (induction fs ts arbitrary: n es es' rule: align_range_windows.induct)
  case 1
  then show ?case by (intro exI [of _ "[]"]) simp
next
  case (2 t ts)
  then show ?case by (intro exI [of _ "[(n, es, es')]"]) auto
next
  case (3 f fs)
  then show ?case by (intro exI [of _ "[(n, es, es')]"]) auto
next
  case (4 f fs t ts)
  obtain l r fs' ts' where w: "align_range_windows (f # fs) (t # ts) = (l, r) # align_range_windows fs' ts'"
      "f # fs = l @ fs'" "t # ts = r @ ts'" "fs' = [] \<and> ts' = [] \<or> l \<noteq> [] \<and> r \<noteq> [] \<and> rr_max_path (last l) = rr_max_path (last r)"
      "\<And>n es es'. window_ok H get (fs', ts') (n, es, es') \<Longrightarrow> \<exists>ps. list_all2 (window_ok H get) (align_range_windows fs' ts') ps
         \<and> node_cost ps = n \<and> entry_cost ps = length es + length es' \<and> changes ps = diff_list es es'"
  proof (cases "rr_min_path f = rr_min_path t \<and> rr_max_path f = rr_max_path t")
    case True
    show ?thesis by (rule that [of "[f]" "[t]" fs ts]) (use True 4(1) in auto)
  next
    case False
    obtain l r fs' ts' where a: "align_window (f # fs) (t # ts) [] [] = ((l, r), fs', ts')" by (metis prod.exhaust)
    show ?thesis
      by (rule that [of l r fs' ts'])
        (use False a align_window_split [OF a] align_window_end [OF a] 4(2) [OF False a [symmetric] refl] in \<open>auto simp del: align_window.simps\<close>)
  qed
  obtain i j as bs as' bs' where s: "window_ok H get (l, r) (i, as, bs)" "window_ok H get (fs', ts') (j, as', bs')"
      "n = i + j" "es = as @ as'" "es' = bs @ bs'" "diff_list es es' = diff_list as bs @ diff_list as' bs'"
    using window_split [OF _ w(4)] "4.prems" w(2,3) by metis
  obtain ps where "list_all2 (window_ok H get) (align_range_windows fs' ts') ps" "node_cost ps = j"
      "entry_cost ps = length as' + length bs'" "changes ps = diff_list as' bs'" using w(5) [OF s(2)] by blast
  then show ?case using s w(1) by (intro exI [of _ "(i, as, bs) # ps"]) simp
qed
section \<open>The comparison\<close>

lemma diff_list_same [simp]: "diff_list es es = []"
  by (induction es) auto

lemma expand_window:
  assumes "window_ok H get (l, r) (n, es, fs)" "tb_nodes b + n \<le> MAX_VISITED_NODES"
  obtains l' r' b1 b2 m where "expand_one_level H get l [] b = Inr (l', b1)" "expand_one_level H get r [] b1 = Inr (r', b2)"
    "window_ok H get (l', r') (m, es, fs)" "tb_nodes b2 + m = tb_nodes b + n" "tb_entries b2 = tb_entries b"
proof -
  obtain k j where u: "n = k + j" "under H get l k es" "under H get r j fs" "entries_ok es" "entries_ok fs" using assms(1) by auto
  obtain l' k1 k2 where l: "expand_one_level H get l [] b = Inr (l', b\<lparr>tb_nodes := tb_nodes b + k1\<rparr>)" "k = k1 + k2" "under H get l' k2 es"
    using expand_run [OF u(2), of b "[]"] assms(2) u(1) by auto
  let ?b = "b\<lparr>tb_nodes := tb_nodes b + k1\<rparr>"
  obtain r' j1 j2 where r: "expand_one_level H get r [] ?b = Inr (r', ?b\<lparr>tb_nodes := tb_nodes ?b + j1\<rparr>)" "j = j1 + j2" "under H get r' j2 fs"
    using expand_run [OF u(3), of ?b "[]"] assms(2) u(1) l(2) by auto
  show thesis by (rule that [OF l(1) r(1), of "k2 + j2"]) (use u l r in auto)
qed

lemma diff_window_run:
  assumes w: "window_ok H get w (n, es, fs)"
    and nodes: "tb_nodes b + n \<le> MAX_VISITED_NODES" and entries: "tb_entries b + length es + length fs \<le> MAX_LOADED_ENTRIES"
  shows "\<exists>new raw' b' stats' qs. diff_window H get w (tasks, raw, b, stats) = Inr (new @ tasks, raw', b', stats')
    \<and> list_all2 (window_ok H get) new qs \<and> tb_nodes b' + node_cost qs \<le> tb_nodes b + n
    \<and> tb_entries b' + entry_cost qs \<le> tb_entries b + length es + length fs
    \<and> mset raw' + mset (changes qs) = mset raw + mset (diff_list es fs)"
proof -
  obtain l r where lr: "w = (l, r)" by (cases w)
  let ?stats = "stats\<lparr>nodes_visited := u64_saturating_add (nodes_visited stats) (of_nat (length l + length r))\<rparr>"
  obtain k m where u: "n = k + m" "under H get l k es" "under H get r m fs" "entries_ok es" "entries_ok fs" using w lr by auto
  consider (skip) "length l = 1" "length r = 1" "same_range (hd l) (hd r)"
    | (expand) "\<not> (length l = 1 \<and> length r = 1 \<and> same_range (hd l) (hd r))" "list_ex (\<lambda>r. rr_height r > 0) (l @ r)"
    | (load) "\<not> (length l = 1 \<and> length r = 1 \<and> same_range (hd l) (hd r))" "\<not> list_ex (\<lambda>r. rr_height r > 0) (l @ r)" by blast
  then show ?thesis
  proof cases
    case skip
    obtain x y where xy: "l = [x]" "r = [y]" using skip(1,2) by (auto simp: length_Suc_conv)
    have "es = fs" using same_hash_under [of x y H get k es m fs] u(2,3) skip(3) xy by (simp add: same_range_def)
    moreover obtain stats' where "diff_window H get w (tasks, raw, b, stats) = Inr ([] @ tasks, raw, b, stats')"
      using skip lr by (simp add: Let_def)
    ultimately show ?thesis by fastforce
  next
    case expand
    obtain l' r' b1 b2 j where e: "expand_one_level H get l [] b = Inr (l', b1)" "expand_one_level H get r [] b1 = Inr (r', b2)"
        "window_ok H get (l', r') (j, es, fs)" "tb_nodes b2 + j = tb_nodes b + n" "tb_entries b2 = tb_entries b"
      using expand_window [OF w [unfolded lr] nodes] .
    have "diff_window H get w (tasks, raw, b, stats) = Inr ([(l', r')] @ tasks, raw, b2, ?stats)"
      unfolding lr diff_window.simps Let_def if_not_P [OF expand(1)] if_P [OF expand(2)] using e(1,2) by simp
    moreover have "list_all2 (window_ok H get) [(l', r')] [(j, es, fs)]" using e(3) by simp
    moreover have "tb_nodes b2 + node_cost [(j, es, fs)] \<le> tb_nodes b + n" "tb_entries b2 + entry_cost [(j, es, fs)] \<le> tb_entries b + length es + length fs"
      "mset raw + mset (changes [(j, es, fs)]) = mset raw + mset (diff_list es fs)" using e(4,5) by simp_all
    ultimately show ?thesis by blast
  next
    case load
    have h: "\<forall>x \<in> set l. rr_height x = 0" "\<forall>x \<in> set r. rr_height x = 0" using load(2) word_neq_0_conv by (fastforce simp: list_ex_iff)+
    let ?b1 = "\<lparr>tb_nodes = tb_nodes b + k, tb_entries = tb_entries b + length es\<rparr>"
    let ?b2 = "\<lparr>tb_nodes = tb_nodes b + n, tb_entries = tb_entries b + length es + length fs\<rparr>"
    have span: "load_leaf_span H get l b = Inr (es, ?b1)" "load_leaf_span H get r ?b1 = Inr (fs, ?b2)"
      using span_run [OF h(1) u(2,4), of b] span_run [OF h(2) u(3,5), of ?b1] nodes entries u(1) by (simp_all add: ac_simps)
    obtain stats' where "diff_window H get w (tasks, raw, b, stats) = Inr ([] @ tasks, diff_entries es fs raw, ?b2, stats')"
      unfolding lr diff_window.simps Let_def if_not_P [OF load(1)] if_not_P [OF load(2)] span and_then_simps prod.case by simp
    moreover have "mset (diff_entries es fs raw) + mset (changes []) = mset raw + mset (diff_list es fs)" by (simp add: diff_entries_eq)
    moreover have "list_all2 (window_ok H get) [] []" by simp
    moreover have "tb_nodes ?b2 + node_cost [] \<le> tb_nodes b + n" "tb_entries ?b2 + entry_cost [] \<le> tb_entries b + length es + length fs" by simp_all
    ultimately show ?thesis by blast
  qed
qed

lemma diff_windows_run:
  assumes "list_all2 (window_ok H get) ws ps" "list_all2 (window_ok H get) tasks qs"
    "tb_nodes b + node_cost ps + node_cost qs \<le> MAX_VISITED_NODES" "tb_entries b + entry_cost ps + entry_cost qs \<le> MAX_LOADED_ENTRIES"
  shows "\<exists>tasks' raw' b' stats' qs'. diff_windows H get ws (tasks, raw, b, stats) = Inr (tasks', raw', b', stats')
    \<and> list_all2 (window_ok H get) tasks' qs' \<and> tb_nodes b' + node_cost qs' \<le> MAX_VISITED_NODES
    \<and> tb_entries b' + entry_cost qs' \<le> MAX_LOADED_ENTRIES
    \<and> mset raw' + mset (changes qs') = mset raw + mset (changes ps) + mset (changes qs)"
  using assms
proof (induction ws arbitrary: ps tasks qs raw b stats)
  case Nil
  then have "diff_windows H get [] (tasks, raw, b, stats) = Inr (tasks, raw, b, stats) \<and> list_all2 (window_ok H get) tasks qs
    \<and> tb_nodes b + node_cost qs \<le> MAX_VISITED_NODES \<and> tb_entries b + entry_cost qs \<le> MAX_LOADED_ENTRIES
    \<and> mset raw + mset (changes qs) = mset raw + mset (changes ps) + mset (changes qs)" by simp
  then show ?case by blast
next
  case (Cons w ws)
  obtain n es fs ps' where ps: "ps = (n, es, fs) # ps'" "window_ok H get w (n, es, fs)" "list_all2 (window_ok H get) ws ps'"
    using Cons.prems(1) by (auto simp: list_all2_Cons1)
  obtain new raw1 b1 stats1 ns where w: "diff_window H get w (tasks, raw, b, stats) = Inr (new @ tasks, raw1, b1, stats1)"
      "list_all2 (window_ok H get) new ns" "tb_nodes b1 + node_cost ns \<le> tb_nodes b + n"
      "tb_entries b1 + entry_cost ns \<le> tb_entries b + length es + length fs"
      "mset raw1 + mset (changes ns) = mset raw + mset (diff_list es fs)"
    using diff_window_run [OF ps(2), of b tasks raw stats] Cons.prems(3,4) ps(1) by auto
  have tasks: "list_all2 (window_ok H get) (new @ tasks) (ns @ qs)" using w(2) Cons.prems(2) by (rule list_all2_appendI)
  have "tb_nodes b1 + node_cost ps' + node_cost (ns @ qs) \<le> MAX_VISITED_NODES"
    "tb_entries b1 + entry_cost ps' + entry_cost (ns @ qs) \<le> MAX_LOADED_ENTRIES"
    using Cons.prems(3,4) w(3,4) ps(1) by simp_all
  from Cons.IH [OF ps(3) tasks this, of raw1 stats1] obtain tasks' raw' b' stats' qs' where
      IH: "diff_windows H get ws (new @ tasks, raw1, b1, stats1) = Inr (tasks', raw', b', stats')"
      "list_all2 (window_ok H get) tasks' qs'" "tb_nodes b' + node_cost qs' \<le> MAX_VISITED_NODES" "tb_entries b' + entry_cost qs' \<le> MAX_LOADED_ENTRIES"
      "mset raw' + mset (changes qs') = mset raw1 + mset (changes ps') + mset (changes (ns @ qs))" by blast
  have "mset raw' + mset (changes qs') = mset raw + mset (changes ps) + mset (changes qs)"
    using IH(5) w(5) unfolding ps(1) by (simp add: ac_simps)
  moreover have "diff_windows H get (w # ws) (tasks, raw, b, stats) = Inr (tasks', raw', b', stats')" using w(1) IH(1) by simp
  ultimately show ?case using IH(2-4) by blast
qed

lemma diff_loop_run:
  assumes "list_all2 (window_ok H get) tasks qs" "tb_nodes b + node_cost qs \<le> MAX_VISITED_NODES" "tb_entries b + entry_cost qs \<le> MAX_LOADED_ENTRIES"
  shows "\<exists>raw' stats'. diff_loop H get (tasks, raw, b, stats) = Inr (raw', stats') \<and> mset raw' = mset raw + mset (changes qs)"
  using assms
proof (induction H get "(tasks, raw, b, stats)" arbitrary: tasks raw b stats qs rule: diff_loop.induct)
  case (2 H get from_ranges to_ranges tasks raw b stats)
  obtain n es fs qs' where q: "qs = (n, es, fs) # qs'" "window_ok H get (from_ranges, to_ranges) (n, es, fs)" "list_all2 (window_ok H get) tasks qs'"
    using "2.prems"(1) by (auto simp: list_all2_Cons1 simp del: window_ok.simps)
  obtain ps where p: "list_all2 (window_ok H get) (align_range_windows from_ranges to_ranges) ps" "node_cost ps = n"
      "entry_cost ps = length es + length fs" "changes ps = diff_list es fs" using align_run [OF q(2)] by blast
  have "list_all2 (window_ok H get) (rev (align_range_windows from_ranges to_ranges)) (rev ps)" using p(1) by (simp add: list_all2_rev)
  moreover have "tb_nodes b + node_cost (rev ps) + node_cost qs' \<le> MAX_VISITED_NODES" "tb_entries b + entry_cost (rev ps) + entry_cost qs' \<le> MAX_LOADED_ENTRIES"
    using "2.prems"(2,3) q(1) p(2,3) by simp_all
  ultimately obtain tasks' raw' b' stats' rs where w:
      "diff_windows H get (rev (align_range_windows from_ranges to_ranges)) (tasks, raw, b, stats) = Inr (tasks', raw', b', stats')"
      "list_all2 (window_ok H get) tasks' rs" "tb_nodes b' + node_cost rs \<le> MAX_VISITED_NODES" "tb_entries b' + entry_cost rs \<le> MAX_LOADED_ENTRIES"
      "mset raw' + mset (changes rs) = mset raw + mset (changes (rev ps)) + mset (changes qs')"
    using diff_windows_run [OF _ q(3)] by blast
  obtain raw'' stats'' where "diff_loop H get (tasks', raw', b', stats') = Inr (raw'', stats'')" "mset raw'' = mset raw' + mset (changes rs)"
    using "2.hyps" [OF w(1) w(2-4)] by blast
  then show ?case using w(1,5) p(4) q(1) by simp
qed simp

lemma diff_list_paths: "map delta_path (diff_list fs ts) = map fst (all_writes (diff_list fs ts))"
proof (induction fs ts rule: diff_list.induct)
  case (1 ts)
  show ?case by (induction ts) (auto simp: added_of_def)
next
  case (2 f fs)
  have "map delta_path (map deleted_of es) = map fst (all_writes (map deleted_of es))" for es by (induction es) (auto simp: deleted_of_def)
  from this [of "f # fs"] show ?case by simp
next
  case (3 f fs t ts)
  then show ?case by (auto simp: added_of_def deleted_of_def modified_of_def)
qed

lemma sort_changes:
  assumes "sorted_entries es" "sorted_entries fs" "mset raw = mset (diff_list es fs)"
  shows "sort_key delta_path raw = diff_list es fs"
proof -
  have s: "strict_by fst (all_writes (diff_list es fs))" using diff_list_sorted [OF assms(1,2)] .
  then have "distinct (map delta_path (diff_list es fs))" "sorted (map delta_path (diff_list es fs))"
    unfolding diff_list_paths using strict_sorted_iff by blast+
  moreover have "set raw = set (diff_list es fs)" using assms(3) by (rule mset_eq_setD)
  ultimately show ?thesis using assms(3) by (intro sort_key_inj_key_eq) (auto simp: distinct_map)
qed
lemma tree_inv_under: "tree_inv H get root gs \<Longrightarrow> \<exists>n. n \<le> 2 * length gs \<and> under H get (root_children root) n (concat gs)"
  by (auto simp: tree_inv_def denotes_def under_def)

lemma packed_length:
  assumes "tree_inv H get root gs"
  shows "length gs * 63 \<le> length (concat gs) + 63"
proof -
  have pk: "packed gs" using assms by (simp add: tree_inv_def)
  show ?thesis
  proof (cases gs rule: rev_cases)
    case (snoc hs g)
    then have "length hs * 63 \<le> length (concat hs)" using pk by (intro sum_lengths) (simp add: packed_def)
    then show ?thesis using snoc by simp
  qed simp
qed

lemma denoted_typed:
  assumes "under H get (root_children root) n es" "\<And>b. hash_ok (H b)"
  shows "\<forall>r \<in> set (root_children root). range_typed r"
proof
  fix r assume r: "r \<in> set (root_children root)"
  then have u: "under H get [r] n es" using assms(1) by (auto simp: root_children_def split: option.splits)
  have typed: "range_typed r" if "load_node H get r = Inr node" for node
  proof (cases node)
    case (Leaf fs)
    then have l: "fs \<noteq> []" "\<forall>e \<in> set fs. entry_typed e" "rr_min_path r = fe_path (hd fs)" "rr_max_path r = fe_path (last fs)" "\<exists>bs. H bs = rr_hash r"
      using that by (auto simp: load_node_Leaf)
    then show ?thesis using hd_in_set [OF l(1)] last_in_set [OF l(1)] assms(2) by (metis range_typed_def entry_typed_def)
  next
    case (Internal h cs)
    then have l: "cs \<noteq> []" "\<forall>c \<in> set cs. range_typed c" "rr_min_path r = rr_min_path (hd cs)" "rr_max_path r = rr_max_path (last cs)" "\<exists>bs. H bs = rr_hash r"
      using that by (auto simp: load_node_Internal encode_internal_Inr)
    then show ?thesis using hd_in_set [OF l(1)] last_in_set [OF l(1)] assms(2) by (metis range_typed_def)
  qed
  show "range_typed r"
  proof (cases "rr_height r = 0")
    case True
    then show ?thesis using typed u under_leaf by blast
  next
    case False
    then show ?thesis using typed under_node [OF False u] by metis
  qed
qed

lemma compute_deltas_run:
  assumes "tree_inv H get root_a gs" "tree_inv H get root_b hs" "length (concat gs) + length (concat hs) \<le> MAX_LOADED_ENTRIES"
    "tree_hash H root_a = tree_hash H root_b \<Longrightarrow> tree_hash_bytes root_a = tree_hash_bytes root_b" "\<And>b. hash_ok (H b)"
  shows "\<exists>stats. compute_deltas_with_stats H get root_a root_b =
    Inr \<lparr>dr_deltas = detect_renames (diff_entries (concat gs) (concat hs) []), dr_stats = stats\<rparr>"
proof -
  have sorted: "sorted_entries (concat gs)" "sorted_entries (concat hs)" and ok: "entries_ok (concat gs)" "entries_ok (concat hs)"
    and valid: "validate_root_shape root_a = Inr ()" "validate_root_shape root_b = Inr ()"
    using assms(1,2) by (auto simp: tree_inv_def denotes_def entries_ok_def)
  obtain n m where u: "n \<le> 2 * length gs" "under H get (root_children root_a) n (concat gs)"
      "m \<le> 2 * length hs" "under H get (root_children root_b) m (concat hs)"
    using tree_inv_under [OF assms(1)] tree_inv_under [OF assms(2)] by blast
  show ?thesis
  proof (cases "tree_hash H root_a = tree_hash H root_b")
    case True
    then have "root_a = root_b"
      using assms(4) valid denoted_typed [OF u(2) assms(5)] denoted_typed [OF u(4) assms(5)]
      by (intro tree_hash_bytes_inj) (simp_all add: root_children_def list_all_iff)
    then have "concat gs = concat hs" using under_unique u by blast
    then show ?thesis using True valid by (simp add: compute_deltas_with_stats_def Let_def diff_entries_eq detect_renames_def)
  next
    case False
    have w: "list_all2 (window_ok H get) [(root_children root_a, root_children root_b)] [(n + m, concat gs, concat hs)]" using u ok by auto
    have "n + m \<le> MAX_VISITED_NODES"
      using u(1,3) packed_length [OF assms(1)] packed_length [OF assms(2)] assms(3) by (simp add: MAX_VISITED_NODES_def MAX_LOADED_ENTRIES_def)
    then obtain raw stats where "diff_loop H get ([(root_children root_a, root_children root_b)], [], budget_default, diff_stats_default\<lparr>nodes_visited := 1\<rparr>) = Inr (raw, stats)"
        "mset raw = mset (diff_list (concat gs) (concat hs))"
      using diff_loop_run [OF w, of budget_default "[]" "diff_stats_default\<lparr>nodes_visited := 1\<rparr>"] assms(3) by (auto simp: budget_default_def)
    then show ?thesis using False valid sort_changes [OF sorted]
      by (simp add: compute_deltas_with_stats_def Let_def diff_entries_eq del: diff_loop.simps)
  qed
qed

section \<open>Property\<close>

text \<open>(C4) The recursive comparison of two stored trees succeeds and finds exactly the deltas of the two entry
  lists, with renames detected, and applying them to the old state gives the new state. Skipping equal
  subtrees, windows that drift apart and trees of different height change nothing. The two roots must
  not collide under the root hash, and the trees together must stay within the entry limit.\<close>

theorem compute_deltas_exact:
  assumes "tree_inv H get root_a gs" "tree_inv H get root_b hs" "length (concat gs) + length (concat hs) \<le> MAX_LOADED_ENTRIES"
    "tree_hash H root_a = tree_hash H root_b \<Longrightarrow> tree_hash_bytes root_a = tree_hash_bytes root_b" "\<And>b. hash_ok (H b)"
  shows "compute_deltas H get root_a root_b = Inr (detect_renames (diff_entries (concat gs) (concat hs) []))
    \<and> apply_deltas (detect_renames (diff_entries (concat gs) (concat hs) [])) (entry_map (concat gs)) = entry_map (concat hs)"
proof
  have sorted: "sorted_entries (concat gs)" "sorted_entries (concat hs)"
    using assms(1,2) by (auto simp: tree_inv_def denotes_def entries_ok_def)
  show "compute_deltas H get root_a root_b = Inr (detect_renames (diff_entries (concat gs) (concat hs) []))"
    using compute_deltas_run [where H = H, OF assms] by (auto simp: compute_deltas_def)
  show "apply_deltas (detect_renames (diff_entries (concat gs) (concat hs) [])) (entry_map (concat gs)) = entry_map (concat hs)"
    by (rule diff_renames_apply [OF sorted])
qed

theorem compute_deltas_exact_witness:
  "let e = FileEntry.make ''a'' ZERO_HASH 1 2; H = (\<lambda>b. replicate 32 (if length b = 17 then 0 else 1)) in
   \<exists>get root. compute_deltas H get empty_root root = Inr [Added ''a'' ZERO_HASH 2 1]"
proof -
  let ?e = "FileEntry.make ''a'' ZERO_HASH 1 2" and ?H = "\<lambda>b :: bytes. replicate 32 (if length b = 17 then 0 else 1) :: bytes"
  have typed: "\<forall>e \<in> set [?e]. entry_typed e" by (simp add: entry_typed_def FileEntry.defs ZERO_HASH_def as_bytes_def from_utf8_ok_ascii)
  obtain bs where bs: "encode_leaf [?e] = Inr bs"
    by (auto simp: encode_leaf_Inr leaf_record_len_def FileEntry.defs tree_limits entries_ok_def plain_paths)
  let ?get = "\<lambda>h. Inr bs :: ChunkError + bytes" and ?root = "leaf_root ?H [?e] bs"
  have d: "denotes ?H ?get ?root [leaf_ref ?H [?e] bs] [leaf_ref ?H [?e] bs] [[?e]]" using leaf_root_denotes [where get = ?get and H = ?H, OF bs _ typed] by simp
  then have inv: "tree_inv ?H ?get ?root [[?e]]"
    unfolding tree_inv_def using bs by (auto simp: leaf_refs_def leaf_blob_def packed_def)
  have "range_ok (leaf_ref ?H [?e] bs)" using leaf_ref_loads(2) [OF bs _ typed, of ?get ?H] by simp
  then have "tree_hash ?H ?root \<noteq> tree_hash ?H empty_root"
    by (auto simp: tree_hash_def tree_hash_bytes_def leaf_root_def empty_root_def encode_range_ref_Inr [THEN iffD2, OF conjI])
  then have "compute_deltas ?H ?get empty_root ?root = Inr (detect_renames (diff_entries [] [?e] []))"
    using compute_deltas_exact [where H = ?H, OF empty_tree_inv inv] by (simp add: tree_limits)
  moreover have "detect_renames (diff_entries [] [?e] []) = [Added ''a'' ZERO_HASH 2 1]" by code_simp
  ultimately show ?thesis unfolding Let_def by auto
qed

end
