(* ===== verification/Tree_V2_Reach.thy ===== *)
theory Tree_V2_Reach
  imports Tree_V2_Build
begin

text \<open>
  The reachability cursor of a Tree v2 (\<open>tree_v2.rs\<close>: \<open>V2ReachabilityCursor\<close>, \<open>reachable_hashes\<close>). The cursor
  walks the tree in slices of bounded work and collects the hashes of its chunks, the set that garbage
  collection keeps. A hash set that is only drained is modelled by the number of elements left, and an
  owner by whether it has capacity. A panic of the source is \<open>Panicked\<close> or \<open>None\<close>.
\<close>

section \<open>State\<close>

record V2ReachabilityCursor =
  rc_pending :: "RangeRef list"
  rc_expanding :: "RangeRef list option"
  rc_reachable :: "FileHash set"
  rc_descriptors :: "FileHash \<rightharpoonup> RangeRef"
  rc_budget :: TraversalBudget
  rc_completed :: u64
  rc_seeding_complete :: bool
  rc_retiring :: bool
  rc_retiring_pending :: "nat option"
  rc_retiring_descriptors :: "nat option"
  rc_retiring_hashes :: "nat option"
  rc_retirement_phase :: nat
  rc_pending_cap :: bool
  rc_descriptors_cap :: bool
  rc_reachable_cap :: bool

record V2ReachabilityProgress =
  rp_units :: nat
  rp_completed :: u64
  rp_remaining :: nat
  rp_reachable :: nat
  rp_done :: bool

definition cursor_new :: "TreeV2Root \<Rightarrow> ChunkError + V2ReachabilityCursor" where
  "cursor_new root = and_then (validate_root_shape root) (\<lambda>_. Inr
     \<lparr>rc_pending = [], rc_expanding = None, rc_reachable = {}, rc_descriptors = Map.empty, rc_budget = budget_default,
      rc_completed = 0, rc_seeding_complete = False, rc_retiring = False, rc_retiring_pending = None,
      rc_retiring_descriptors = None, rc_retiring_hashes = None, rc_retirement_phase = 0,
      rc_pending_cap = False, rc_descriptors_cap = False, rc_reachable_cap = False\<rparr>)"

definition seed_root_child :: "RangeRef \<Rightarrow> V2ReachabilityCursor \<Rightarrow> ChunkError + V2ReachabilityCursor" where
  "seed_root_child rng c =
     (if rc_retiring c \<or> rc_seeding_complete c then invalid ''Tree v2 reachability root seeding is complete''
      else Inr (c\<lparr>rc_pending := rng # rc_pending c, rc_pending_cap := True,
             rc_completed := u64_saturating_add (rc_completed c) 1\<rparr>))"

definition finish_seeding :: "V2ReachabilityCursor \<Rightarrow> V2ReachabilityCursor option" where
  "finish_seeding c = (if rc_retiring c then None else Some (c\<lparr>rc_seeding_complete := True\<rparr>))"

definition cursor_done :: "V2ReachabilityCursor \<Rightarrow> bool" where
  "cursor_done c = (\<not> rc_retiring c \<and> rc_seeding_complete c \<and> rc_pending c = [] \<and> rc_expanding c = None)"

definition reach_progress :: "nat \<Rightarrow> V2ReachabilityCursor \<Rightarrow> V2ReachabilityProgress" where
  "reach_progress units c =
     \<lparr>rp_units = units, rp_completed = rc_completed c,
      rp_remaining = length (rc_pending c) + (case rc_expanding c of None \<Rightarrow> 0 | Some children \<Rightarrow> length children),
      rp_reachable = card (rc_reachable c), rp_done = cursor_done c\<rparr>"

section \<open>Stepping\<close>

text \<open>The outcome of one turn of the loop in \<open>step\<close>. An error leaves the cursor with the descriptor popped and
  the budget as far as it was charged. The stack \<open>pending\<close> has its top first.\<close>

datatype ReachUnit = Idle | Advanced V2ReachabilityCursor | Failed ChunkError V2ReachabilityCursor | Panicked

definition reach_mark :: "RangeRef \<Rightarrow> V2ReachabilityCursor \<Rightarrow> V2ReachabilityCursor" where
  "reach_mark rng c = c\<lparr>rc_reachable := insert (rr_hash rng) (rc_reachable c), rc_reachable_cap := True,
     rc_descriptors := (rc_descriptors c)(rr_hash rng \<mapsto> rng), rc_descriptors_cap := True\<rparr>"

definition reach_visit :: "(bytes \<Rightarrow> FileHash) \<Rightarrow> lookup \<Rightarrow> RangeRef \<Rightarrow> V2ReachabilityCursor \<Rightarrow> ReachUnit" where
  "reach_visit H get rng c =
     (case budget_node (rr_height rng) (rc_budget c) of
        Inl e \<Rightarrow> Failed e c
      | Inr b \<Rightarrow>
          let c = c\<lparr>rc_budget := b\<rparr> in
          (case load_node H get rng of
             Inl e \<Rightarrow> Failed e c
           | Inr (Leaf entries) \<Rightarrow>
               (case budget_entries (length entries) b of
                  Inl e \<Rightarrow> Failed e c
                | Inr b \<Rightarrow> Advanced (reach_mark rng (c\<lparr>rc_budget := b\<rparr>)))
           | Inr (Internal _ children) \<Rightarrow>
               Advanced (reach_mark rng (if children \<noteq> [] then c\<lparr>rc_expanding := Some children\<rparr> else c))))"

definition reach_unit :: "(bytes \<Rightarrow> FileHash) \<Rightarrow> lookup \<Rightarrow> V2ReachabilityCursor \<Rightarrow> ReachUnit" where
  "reach_unit H get c =
     (case rc_expanding c of
        Some [] \<Rightarrow> Panicked
      | Some (child # children) \<Rightarrow>
          Advanced (c\<lparr>rc_pending := child # rc_pending c, rc_pending_cap := True,
            rc_completed := u64_saturating_add (rc_completed c) 1,
            rc_expanding := (if children = [] then None else Some children)\<rparr>)
      | None \<Rightarrow>
          (case rc_pending c of
             [] \<Rightarrow> Idle
           | rng # pending \<Rightarrow>
               let c = c\<lparr>rc_pending := pending, rc_completed := u64_saturating_add (rc_completed c) 1\<rparr> in
               (case rc_descriptors c (rr_hash rng) of
                  Some previous \<Rightarrow>
                    if previous \<noteq> rng then Failed (Deserialize ''Tree v2 repeated hash has a different child descriptor'') c
                    else Advanced c
                | None \<Rightarrow> reach_visit H get rng c)))"

text \<open>\<open>n\<close> is \<open>max_units - units\<close>.\<close>

fun reach_loop ::
  "(bytes \<Rightarrow> FileHash) \<Rightarrow> lookup \<Rightarrow> nat \<Rightarrow> nat \<Rightarrow> V2ReachabilityCursor \<Rightarrow> ((ChunkError + nat) \<times> V2ReachabilityCursor) option" where
  "reach_loop H get 0 units c = Some (Inr units, c)"
| "reach_loop H get (Suc n) units c =
     (case reach_unit H get c of
        Idle \<Rightarrow> Some (Inr units, c)
      | Advanced c \<Rightarrow> reach_loop H get n (units + 1) c
      | Failed e c \<Rightarrow> Some (Inl e, c)
      | Panicked \<Rightarrow> None)"

definition reach_step ::
  "(bytes \<Rightarrow> FileHash) \<Rightarrow> lookup \<Rightarrow> nat \<Rightarrow> V2ReachabilityCursor
   \<Rightarrow> ((ChunkError + V2ReachabilityProgress) \<times> V2ReachabilityCursor) option" where
  "reach_step H get max_units c =
     (if rc_retiring c then Some (invalid ''Tree v2 reachability is retiring'', c)
      else if max_units = 0 then Some (invalid ''Tree v2 reachability step budget must be positive'', c)
      else if \<not> rc_seeding_complete c then Some (invalid ''Tree v2 reachability root seeding is incomplete'', c)
      else map_option (\<lambda>(r, c). (and_then r (\<lambda>units. Inr (reach_progress units c)), c)) (reach_loop H get max_units 0 c))"

definition cursor_finish :: "V2ReachabilityCursor \<Rightarrow> ChunkError + FileHash set" where
  "cursor_finish c =
     (if rc_retiring c \<or> \<not> rc_seeding_complete c \<or> rc_pending c \<noteq> [] \<or> rc_expanding c \<noteq> None
      then invalid ''Tree v2 reachability validation is incomplete'' else Inr (rc_reachable c))"

definition take_reachable :: "V2ReachabilityCursor \<Rightarrow> ChunkError + FileHash set \<times> V2ReachabilityCursor" where
  "take_reachable c =
     (if rc_retiring c \<or> \<not> rc_seeding_complete c \<or> rc_pending c \<noteq> [] \<or> rc_expanding c \<noteq> None
      then invalid ''Tree v2 reachability validation is incomplete''
      else Inr (rc_reachable c, c\<lparr>rc_reachable := {}, rc_reachable_cap := False\<rparr>))"

text \<open>Each unit lowers this measure: it moves a child, drops a pending descriptor, or visits a node.\<close>

definition reach_measure :: "V2ReachabilityCursor \<Rightarrow> nat" where
  "reach_measure c = length (rc_pending c) + 2 * (case rc_expanding c of None \<Rightarrow> 0 | Some children \<Rightarrow> length children)
     + 2 * MAX_INTERNAL_CHILDREN * (MAX_VISITED_NODES + 1 - tb_nodes (rc_budget c))"

lemma reach_visit_measure:
  assumes "reach_visit H get r c = Advanced c'" "rc_expanding c = None"
  shows "reach_measure c' \<le> reach_measure c"
proof -
  obtain b where b: "budget_node (rr_height r) (rc_budget c) = Inr b" using assms(1) by (auto simp: reach_visit_def split: sum.splits)
  then have n: "tb_nodes (rc_budget c) < MAX_VISITED_NODES" "tb_nodes b = tb_nodes (rc_budget c) + 1" by (auto simp: budget_node_Inr)
  obtain node where node: "load_node H get r = Inr node" using assms(1) b by (auto simp: reach_visit_def Let_def split: sum.splits)
  show ?thesis
  proof (cases node)
    case (Leaf es)
    then show ?thesis using assms b n node
      by (auto simp: reach_visit_def reach_mark_def reach_measure_def budget_entries_Inr Let_def split: sum.splits)
  next
    case (Internal h cs)
    then have "length cs \<le> MAX_INTERNAL_CHILDREN" using node by (auto simp: load_node_Internal encode_internal_Inr)
    moreover have "MAX_VISITED_NODES + 1 - tb_nodes (rc_budget c) = Suc (MAX_VISITED_NODES + 1 - tb_nodes b)" using n by simp
    ultimately show ?thesis using assms b node Internal
      by (auto simp: reach_visit_def reach_mark_def reach_measure_def Let_def split: if_splits)
  qed
qed

lemma reach_unit_measure:
  assumes "reach_unit H get c = Advanced c'"
  shows "reach_measure c' < reach_measure c"
proof (cases "rc_expanding c")
  case None
  then obtain r pending where p: "rc_pending c = r # pending" using assms by (auto simp: reach_unit_def split: list.splits)
  let ?c = "c\<lparr>rc_pending := pending, rc_completed := u64_saturating_add (rc_completed c) 1\<rparr>"
  have "reach_measure ?c < reach_measure c" using p by (simp add: reach_measure_def)
  moreover have "c' = ?c \<or> reach_visit H get r ?c = Advanced c'"
    using assms None p by (auto simp: reach_unit_def Let_def split: option.splits if_splits)
  ultimately show ?thesis using reach_visit_measure [of H get r ?c c'] None by auto
next
  case (Some cs)
  then show ?thesis using assms by (auto simp: reach_unit_def reach_measure_def split: list.splits)
qed
lemma reach_loop_measure:
  "reach_loop H get n units c = Some (Inr u, c') \<Longrightarrow> reach_measure c' \<le> reach_measure c
     \<and> rc_retiring c' = rc_retiring c \<and> rc_seeding_complete c' = rc_seeding_complete c"
proof (induction n arbitrary: units c)
  case (Suc n)
  have keep: "rc_retiring c1 = rc_retiring c \<and> rc_seeding_complete c1 = rc_seeding_complete c" if "reach_unit H get c = Advanced c1" for c1
    using that by (auto simp: reach_unit_def reach_visit_def reach_mark_def Let_def split: option.splits list.splits if_splits sum.splits V2Node.splits)
  show ?case using Suc.prems Suc.IH keep reach_unit_measure [of H get c]
    by (fastforce split: ReachUnit.splits)
qed simp

lemma reach_step_decreases:
  assumes "reach_step H get n c = Some (Inr p, c')" "\<not> cursor_done c"
  shows "reach_measure c' < reach_measure c"
proof -
  have c: "\<not> rc_retiring c" "n \<noteq> 0" "rc_seeding_complete c" using assms(1) by (auto simp: reach_step_def split: if_splits)
  obtain u where u: "reach_loop H get n 0 c = Some (Inr u, c')" using assms(1) c by (auto simp: reach_step_def)
  obtain m where m: "n = Suc m" using c(2) by (cases n) auto
  have "rc_pending c \<noteq> [] \<or> rc_expanding c \<noteq> None" using assms(2) c by (auto simp: cursor_done_def)
  then have "reach_unit H get c \<noteq> Idle"
    by (auto simp: reach_unit_def reach_visit_def Let_def split: option.splits list.splits if_splits sum.splits V2Node.splits)
  then obtain c1 where "reach_unit H get c = Advanced c1" "reach_loop H get m 1 c1 = Some (Inr u, c')"
    using u m by (auto split: ReachUnit.splits)
  then show ?thesis using reach_unit_measure reach_loop_measure by fastforce
qed

definition USIZE_MAX :: nat where "USIZE_MAX = 2 ^ 64 - 1"

function reach_drain :: "(bytes \<Rightarrow> FileHash) \<Rightarrow> lookup \<Rightarrow> V2ReachabilityCursor \<Rightarrow> (ChunkError + FileHash set) option" where
  "reach_drain H get c =
     (if cursor_done c then Some (cursor_finish c)
      else case reach_step H get USIZE_MAX c of
             None \<Rightarrow> None
           | Some (Inl e, _) \<Rightarrow> Some (Inl e)
           | Some (Inr _, c) \<Rightarrow> reach_drain H get c)"
  by pat_completeness auto
termination by (relation "measure (\<lambda>(H, get, c). reach_measure c)") (auto dest: reach_step_decreases)

declare reach_drain.simps [simp del]

definition reachable_hashes :: "(bytes \<Rightarrow> FileHash) \<Rightarrow> lookup \<Rightarrow> TreeV2Root \<Rightarrow> (ChunkError + FileHash set) option" where
  "reachable_hashes H get root =
     (case and_then (cursor_new root) (\<lambda>c. case tr_child root of None \<Rightarrow> Inr c | Some rng \<Rightarrow> seed_root_child rng c) of
        Inl e \<Rightarrow> Some (Inl e)
      | Inr c \<Rightarrow> (case finish_seeding c of None \<Rightarrow> None | Some c \<Rightarrow> reach_drain H get c))"

section \<open>Retirement\<close>

text \<open>\<open>retire_one\<close>: one phase per owner. A phase takes the elements over into an iterator, unless the owner has
  no capacity, and then releases one element or the exhausted iterator per call.\<close>

datatype OwnerStep = NoOwner | Released nat | Exhausted

definition owner_step :: "nat option \<Rightarrow> bool \<Rightarrow> nat \<Rightarrow> OwnerStep" where
  "owner_step retiring capacity n =
     (if retiring = None \<and> \<not> capacity then NoOwner
      else case (case retiring of None \<Rightarrow> n | Some m \<Rightarrow> m) of 0 \<Rightarrow> Exhausted | Suc m \<Rightarrow> Released m)"

definition take_pending :: "V2ReachabilityCursor \<Rightarrow> V2ReachabilityCursor" where
  "take_pending c = (if rc_retiring_pending c = None then c\<lparr>rc_pending := [], rc_pending_cap := False\<rparr> else c)"

definition take_descriptors :: "V2ReachabilityCursor \<Rightarrow> V2ReachabilityCursor" where
  "take_descriptors c = (if rc_retiring_descriptors c = None then c\<lparr>rc_descriptors := Map.empty, rc_descriptors_cap := False\<rparr> else c)"

definition take_hashes :: "V2ReachabilityCursor \<Rightarrow> V2ReachabilityCursor" where
  "take_hashes c = (if rc_retiring_hashes c = None then c\<lparr>rc_reachable := {}, rc_reachable_cap := False\<rparr> else c)"

function retire_loop :: "V2ReachabilityCursor \<Rightarrow> (bool \<times> V2ReachabilityCursor) option" where
  "retire_loop c =
     (if rc_retirement_phase c = 0 then
        (case rc_expanding c of
           Some (child # children) \<Rightarrow> Some (True, c\<lparr>rc_expanding := Some children\<rparr>)
         | Some [] \<Rightarrow> Some (True, c\<lparr>rc_expanding := None, rc_retirement_phase := 1\<rparr>)
         | None \<Rightarrow> retire_loop (c\<lparr>rc_retirement_phase := 1\<rparr>))
      else if rc_retirement_phase c = 1 then
        (case owner_step (rc_retiring_pending c) (rc_pending_cap c) (length (rc_pending c)) of
           NoOwner \<Rightarrow> retire_loop (c\<lparr>rc_retirement_phase := 2\<rparr>)
         | Released n \<Rightarrow> Some (True, (take_pending c)\<lparr>rc_retiring_pending := Some n\<rparr>)
         | Exhausted \<Rightarrow> Some (True, (take_pending c)\<lparr>rc_retiring_pending := None, rc_retirement_phase := 2\<rparr>))
      else if rc_retirement_phase c = 2 then
        (case owner_step (rc_retiring_descriptors c) (rc_descriptors_cap c) (card (dom (rc_descriptors c))) of
           NoOwner \<Rightarrow> retire_loop (c\<lparr>rc_retirement_phase := 3\<rparr>)
         | Released n \<Rightarrow> Some (True, (take_descriptors c)\<lparr>rc_retiring_descriptors := Some n\<rparr>)
         | Exhausted \<Rightarrow> Some (True, (take_descriptors c)\<lparr>rc_retiring_descriptors := None, rc_retirement_phase := 3\<rparr>))
      else if rc_retirement_phase c = 3 then
        (case owner_step (rc_retiring_hashes c) (rc_reachable_cap c) (card (rc_reachable c)) of
           NoOwner \<Rightarrow> retire_loop (c\<lparr>rc_retirement_phase := 4\<rparr>)
         | Released n \<Rightarrow> Some (True, (take_hashes c)\<lparr>rc_retiring_hashes := Some n\<rparr>)
         | Exhausted \<Rightarrow> Some (True, (take_hashes c)\<lparr>rc_retiring_hashes := None, rc_retirement_phase := 4\<rparr>))
      else if rc_retirement_phase c = 4 then Some (False, c)
      else None)"
  by pat_completeness auto
termination by (relation "measure (\<lambda>c. 4 - rc_retirement_phase c)") auto

declare retire_loop.simps [simp del]

definition retire_one :: "V2ReachabilityCursor \<Rightarrow> (bool \<times> V2ReachabilityCursor) option" where
  "retire_one c = retire_loop (c\<lparr>rc_retiring := True\<rparr>)"

section \<open>The nodes of a tree\<close>

definition nodes_ok :: "(bytes \<Rightarrow> FileHash) \<Rightarrow> lookup \<Rightarrow> RangeRef set \<Rightarrow> bool" where
  "nodes_ok H get V \<longleftrightarrow> (\<forall>v \<in> V. rr_height v \<le> MAX_TREE_DEPTH
     \<and> ((\<exists>es. load_node H get v = Inr (Leaf es)) \<or> (\<exists>h cs. load_node H get v = Inr (Internal h cs) \<and> set cs \<subseteq> V)))"

lemma load_node_descriptor:
  assumes "rr_hash v = rr_hash w" "load_node H get v = Inr x" "load_node H get w = Inr y"
  shows "v = w"
proof -
  have "x = y" using assms by (auto simp: load_node_def validate_loaded_node_def split: if_splits)
  then have "rr_min_path v = rr_min_path w \<and> rr_max_path v = rr_max_path w \<and> rr_file_count v = rr_file_count w
      \<and> rr_height v = rr_height w \<and> unat (rr_serialized_bytes v) = unat (rr_serialized_bytes w)"
    using assms by (cases y) (auto simp: load_node_Leaf load_node_Internal)
  then show ?thesis using assms(1) by (auto simp: word_unat_eq_iff intro: RangeRef.equality)
qed

lemma nodes_ok_hash: "nodes_ok H get V \<Longrightarrow> v \<in> V \<Longrightarrow> w \<in> V \<Longrightarrow> rr_hash v = rr_hash w \<Longrightarrow> v = w"
  unfolding nodes_ok_def using load_node_descriptor by blast

lemma spans_nodes:
  assumes "spans H get rs ls vs"
  shows "set rs \<subseteq> set vs" "set ls = {v \<in> set vs. rr_height v = 0}"
  using assms by (induction rule: spans.induct) auto

lemma spans_children:
  assumes "spans H get rs ls vs" "set vs \<subseteq> S" "v \<in> set vs" "rr_height v \<noteq> 0"
  shows "\<exists>h cs. load_node H get v = Inr (Internal h cs) \<and> set cs \<subseteq> S"
  using assms
proof (induction rule: spans.induct)
  case (spans_node r h cs ls us rs ls' vs)
  have "set cs \<subseteq> S" using spans_nodes(1) [OF spans_node.hyps(3)] spans_node.prems(1) by auto
  then show ?case using spans_node by auto
qed auto

lemma internal_height: "load_node H get r = Inr (Internal h cs) \<Longrightarrow> rr_height r \<noteq> 0"
  by (auto simp: load_node_Internal MAX_TREE_DEPTH_def word_less_nat_alt unat_word_ariths word_unat_eq_iff)

lemma denotes_nodes:
  assumes "denotes H get root ls vs ess"
  shows "nodes_ok H get (set vs)"
  unfolding nodes_ok_def
proof (intro ballI conjI)
  have d: "spans H get (root_children root) ls vs" "holds H get ls ess" "\<forall>r \<in> set (root_children root). range_ok r"
    using assms root_children_ok by (auto simp: denotes_def)
  fix v assume v: "v \<in> set vs"
  show "rr_height v \<le> MAX_TREE_DEPTH" using spans_heights [OF d(1)] d(3) range_ok_height v by blast
  show "(\<exists>es. load_node H get v = Inr (Leaf es)) \<or> (\<exists>h cs. load_node H get v = Inr (Internal h cs) \<and> set cs \<subseteq> set vs)"
    
    using spans_nodes(2) [OF d(1)] spans_children [OF d(1) order_refl v] holds_leaf [OF d(2), of v] v by blast
qed

lemma spans_least:
  assumes "spans H get rs ls vs" "set rs \<subseteq> S" "\<And>v h cs. v \<in> S \<Longrightarrow> load_node H get v = Inr (Internal h cs) \<Longrightarrow> set cs \<subseteq> S"
  shows "set vs \<subseteq> S"
  using assms
proof (induction rule: spans.induct)
  case (spans_node r h cs ls us rs ls' vs)
  have "set cs \<subseteq> S" using spans_node.prems(2) [OF _ spans_node.hyps(2)] spans_node.prems(1) by simp
  then have "set us \<subseteq> S" using spans_node.IH(1) spans_node.prems(2) by simp
  moreover have "set vs \<subseteq> S" using spans_node.IH(2) spans_node.prems by simp
  ultimately show ?case using spans_node.prems(1) by simp
qed simp_all

section \<open>The cursor visits the nodes\<close>

definition leaf_total :: "RangeRef set \<Rightarrow> nat" where
  "leaf_total S = (\<Sum>r \<in> {r \<in> S. rr_height r = 0}. unat (rr_file_count r))"

lemma leaf_total_insert: "finite S \<Longrightarrow> r \<notin> S \<Longrightarrow> leaf_total (insert r S) = leaf_total S + (if rr_height r = 0 then unat (rr_file_count r) else 0)"
proof -
  assume "finite S" "r \<notin> S"
  moreover have "{x \<in> insert r S. rr_height x = 0} = (if rr_height r = 0 then insert r {x \<in> S. rr_height x = 0} else {x \<in> S. rr_height x = 0})" by auto
  ultimately show ?thesis by (simp add: leaf_total_def)
qed

lemma leaf_total_mono: "finite T \<Longrightarrow> S \<subseteq> T \<Longrightarrow> leaf_total S \<le> leaf_total T"
  unfolding leaf_total_def by (intro sum_mono2) auto

lemma sum_set_le: "(\<Sum>x \<in> set xs. f x) \<le> sum_list (map f xs :: nat list)"
proof (induction xs)
  case (Cons x xs)
  then show ?case by (cases "x \<in> set xs") (auto simp: insert_absorb trans_le_add2)
qed simp

text \<open>\<open>work c\<close>: the descriptors the cursor still has to look at.\<close>

definition work :: "V2ReachabilityCursor \<Rightarrow> RangeRef set" where
  "work c = set (rc_pending c) \<union> (case rc_expanding c of None \<Rightarrow> {} | Some cs \<Rightarrow> set cs)"

text \<open>\<open>covers rs D W\<close>: with \<open>D\<close> visited and \<open>W\<close> to do, no node under \<open>rs\<close> is forgotten.\<close>

definition covers :: "(bytes \<Rightarrow> FileHash) \<Rightarrow> lookup \<Rightarrow> RangeRef list \<Rightarrow> RangeRef set \<Rightarrow> RangeRef set \<Rightarrow> bool" where
  "covers H get rs D W \<longleftrightarrow> set rs \<subseteq> D \<union> W \<and> (\<forall>r \<in> D. \<forall>h cs. load_node H get r = Inr (Internal h cs) \<longrightarrow> set cs \<subseteq> D \<union> W)"

lemma covers_more: "covers H get rs D W \<Longrightarrow> W \<subseteq> D \<union> W' \<Longrightarrow> covers H get rs D W'"
  unfolding covers_def by blast

lemma covers_visit:
  "covers H get rs D W \<Longrightarrow> W \<subseteq> insert r W' \<Longrightarrow> (\<And>h cs. load_node H get r = Inr (Internal h cs) \<Longrightarrow> set cs \<subseteq> W') \<Longrightarrow>
   covers H get rs (insert r D) W'"
  unfolding covers_def by blast

lemma covers_done:
  assumes "covers H get rs D {}" "spans H get rs ls vs"
  shows "set vs \<subseteq> D"
proof (rule spans_least [OF assms(2)])
  show "set rs \<subseteq> D" using assms(1) by (simp add: covers_def)
  show "set cs \<subseteq> D" if "v \<in> D" "load_node H get v = Inr (Internal h cs)" for v h cs
    using that assms(1) unfolding covers_def by (metis sup_bot_right)
qed

definition reach_inv :: "(bytes \<Rightarrow> FileHash) \<Rightarrow> lookup \<Rightarrow> RangeRef list \<Rightarrow> RangeRef set \<Rightarrow> V2ReachabilityCursor \<Rightarrow> bool" where
  "reach_inv H get rs V c \<longleftrightarrow> \<not> rc_retiring c \<and> rc_seeding_complete c \<and> rc_expanding c \<noteq> Some []
     \<and> work c \<subseteq> V \<and> ran (rc_descriptors c) \<subseteq> V \<and> (\<forall>h r. rc_descriptors c h = Some r \<longrightarrow> rr_hash r = h)
     \<and> rc_reachable c = dom (rc_descriptors c) \<and> covers H get rs (ran (rc_descriptors c)) (work c)
     \<and> tb_nodes (rc_budget c) = card (ran (rc_descriptors c)) \<and> tb_entries (rc_budget c) = leaf_total (ran (rc_descriptors c))"

lemma reach_visit_run:
  assumes inv: "reach_inv H get rs V c" and V: "nodes_ok H get V" "finite V" "card V \<le> MAX_VISITED_NODES" "leaf_total V \<le> MAX_LOADED_ENTRIES"
    and c: "rc_expanding c = None" "rc_pending c = r # pending" "rc_descriptors c (rr_hash r) = None"
    and c1: "c1 = c\<lparr>rc_pending := pending, rc_completed := n\<rparr>"
  shows "\<exists>c'. reach_visit H get r c1 = Advanced c' \<and> reach_inv H get rs V c'"
proof -
  let ?D = "ran (rc_descriptors c)"
  have w: "work c = insert r (set pending)" using c(1,2) by (simp add: work_def)
  have r: "r \<in> V" "set pending \<subseteq> V" and cov: "covers H get rs ?D (insert r (set pending))" using inv w by (auto simp: reach_inv_def)
  have D: "?D \<subseteq> V" "r \<notin> ?D" using inv c(3) by (auto simp: reach_inv_def ran_def)
  then have fin: "finite ?D" using V(2) finite_subset by blast
  have ins: "card (insert r ?D) = card ?D + 1" "leaf_total (insert r ?D) = leaf_total ?D + (if rr_height r = 0 then unat (rr_file_count r) else 0)"
    using fin D(2) leaf_total_insert by simp_all
  have le: "card (insert r ?D) \<le> MAX_VISITED_NODES" "leaf_total (insert r ?D) \<le> MAX_LOADED_ENTRIES"
    using card_mono [OF V(2), of "insert r ?D"] leaf_total_mono [OF V(2), of "insert r ?D"] D(1) r(1) V(3,4) by simp_all
  have bud: "tb_nodes (rc_budget c) = card ?D" "tb_entries (rc_budget c) = leaf_total ?D" using inv by (simp_all add: reach_inv_def)
  let ?b = "(rc_budget c)\<lparr>tb_nodes := tb_nodes (rc_budget c) + 1\<rparr>"
  have b: "budget_node (rr_height r) (rc_budget c1) = Inr ?b"
    using V(1) r(1) le(1) ins(1) bud(1) by (auto simp: budget_node_Inr c1 nodes_ok_def)
  have ran: "ran ((rc_descriptors c)(rr_hash r \<mapsto> r)) = insert r ?D" using c(3) by (simp add: ran_map_upd)
  have base: "\<not> rc_retiring c" "rc_seeding_complete c" "\<forall>h r. rc_descriptors c h = Some r \<longrightarrow> rr_hash r = h" "rc_reachable c = dom (rc_descriptors c)"
    using inv by (simp_all add: reach_inv_def)
  from V(1) r(1) consider (leaf) es where "load_node H get r = Inr (Leaf es)"
    | (node) h cs where "load_node H get r = Inr (Internal h cs)" "set cs \<subseteq> V" unfolding nodes_ok_def by blast
  then show ?thesis
  proof cases
    case (leaf es)
    have h: "rr_height r = 0" "unat (rr_file_count r) = length es" using leaf leaf_count [OF leaf] by (auto simp: load_node_Leaf)
    let ?b' = "?b\<lparr>tb_entries := tb_entries (rc_budget c) + length es\<rparr>"
    have "budget_entries (length es) ?b = Inr ?b'" using le(2) ins(2) h bud(2) by (simp add: budget_entries_Inr)
    then have "reach_visit H get r c1 = Advanced (reach_mark r (c1\<lparr>rc_budget := ?b'\<rparr>))"
      using b leaf by (simp add: reach_visit_def Let_def)
    moreover have "covers H get rs (insert r ?D) (set pending)" by (rule covers_visit [OF cov]) (use leaf in auto)
    then have "reach_inv H get rs V (reach_mark r (c1\<lparr>rc_budget := ?b'\<rparr>))"
      using base c(1) ran ins h r D(1) bud unfolding reach_inv_def c1 reach_mark_def work_def by simp
    ultimately show ?thesis by blast
  next
    case (node h cs)
    have h: "rr_height r \<noteq> 0" "cs \<noteq> []" using internal_height [OF node(1)] node(1) by (auto simp: load_node_Internal encode_internal_Inr)
    let ?c = "reach_mark r (c1\<lparr>rc_budget := ?b, rc_expanding := Some cs\<rparr>)"
    have "reach_visit H get r c1 = Advanced ?c" using b node(1) h(2) by (simp add: reach_visit_def Let_def)
    moreover have "covers H get rs (insert r ?D) (set pending \<union> set cs)" by (rule covers_visit [OF cov]) (use node(1) in auto)
    then have "reach_inv H get rs V ?c"
      using base ran ins h r D(1) node(2) bud unfolding reach_inv_def c1 reach_mark_def work_def by simp
    ultimately show ?thesis by blast
  qed
qed

lemma reach_unit_run:
  assumes inv: "reach_inv H get rs V c" and V: "nodes_ok H get V" "finite V" "card V \<le> MAX_VISITED_NODES" "leaf_total V \<le> MAX_LOADED_ENTRIES"
  shows "reach_unit H get c = Idle \<and> rc_pending c = [] \<and> rc_expanding c = None \<or> (\<exists>c'. reach_unit H get c = Advanced c' \<and> reach_inv H get rs V c')"
proof (cases "rc_expanding c")
  case (Some cs)
  then obtain x xs where cs: "cs = x # xs" using inv by (cases cs) (auto simp: reach_inv_def)
  let ?c = "c\<lparr>rc_pending := x # rc_pending c, rc_pending_cap := True, rc_completed := u64_saturating_add (rc_completed c) 1,
      rc_expanding := (if xs = [] then None else Some xs)\<rparr>"
  have "work ?c = work c" using Some cs by (auto simp: work_def)
  then have "reach_inv H get rs V ?c" using inv Some cs by (simp add: reach_inv_def)
  then show ?thesis using Some cs by (simp add: reach_unit_def)
next
  case None
  show ?thesis
  proof (cases "rc_pending c")
    case Nil
    then show ?thesis using None by (simp add: reach_unit_def)
  next
    case (Cons r pending)
    let ?c = "c\<lparr>rc_pending := pending, rc_completed := u64_saturating_add (rc_completed c) 1\<rparr>"
    show ?thesis
    proof (cases "rc_descriptors c (rr_hash r)")
      case desc: None
      then show ?thesis using reach_visit_run [OF inv V None Cons desc refl] None Cons by (simp add: reach_unit_def Let_def)
    next
      case (Some v)
      have "v \<in> V" "r \<in> V" "rr_hash v = rr_hash r" "v \<in> ran (rc_descriptors c)"
        using inv Some Cons None by (auto simp: reach_inv_def work_def ran_def)
      then have v: "v = r" "r \<in> ran (rc_descriptors c)" using nodes_ok_hash [OF V(1)] by blast+
      have w: "work c = insert r (set pending)" "work ?c = set pending" using Cons None by (simp_all add: work_def)
      have "covers H get rs (ran (rc_descriptors c)) (work ?c)"
        by (rule covers_more [of _ _ _ _ "work c"]) (use inv w v(2) in \<open>auto simp: reach_inv_def\<close>)
      then have "reach_inv H get rs V ?c" using inv w by (simp add: reach_inv_def)
      then show ?thesis using None Cons Some v(1) by (simp add: reach_unit_def Let_def)
    qed
  qed
qed
lemma reach_loop_run:
  assumes "reach_inv H get rs V c" "nodes_ok H get V" "finite V" "card V \<le> MAX_VISITED_NODES" "leaf_total V \<le> MAX_LOADED_ENTRIES"
  shows "\<exists>u c'. reach_loop H get n units c = Some (Inr u, c') \<and> reach_inv H get rs V c'"
  using assms(1)
proof (induction n arbitrary: units c)
  case (Suc n)
  from reach_unit_run [OF Suc.prems assms(2-5)] show ?case
  proof (elim disjE exE conjE)
    assume "reach_unit H get c = Idle"
    then show ?thesis using Suc.prems by simp
  next
    fix c' assume "reach_unit H get c = Advanced c'" "reach_inv H get rs V c'"
    then show ?thesis using Suc.IH by simp
  qed
qed simp

lemma done_reachable:
  assumes "reach_inv H get rs (set vs) c" "cursor_done c" "spans H get rs ls vs"
  shows "cursor_finish c = Inr (rr_hash ` set vs)"
proof -
  have w: "work c = {}" and fin: "cursor_finish c = Inr (rc_reachable c)" using assms(2) by (auto simp: cursor_done_def work_def cursor_finish_def)
  have inv: "ran (rc_descriptors c) \<subseteq> set vs" "\<forall>h r. rc_descriptors c h = Some r \<longrightarrow> rr_hash r = h"
      "rc_reachable c = dom (rc_descriptors c)" "covers H get rs (ran (rc_descriptors c)) {}"
    using assms(1) w by (simp_all add: reach_inv_def)
  have "ran (rc_descriptors c) = set vs" using covers_done [OF inv(4) assms(3)] inv(1) by blast
  moreover have "dom (rc_descriptors c) = rr_hash ` ran (rc_descriptors c)" using inv(2) by (force simp: ran_def dom_def)
  ultimately show ?thesis using fin inv(3) by simp
qed

lemma reach_drain_run:
  assumes "reach_inv H get rs (set vs) c" "nodes_ok H get (set vs)" "card (set vs) \<le> MAX_VISITED_NODES"
    "leaf_total (set vs) \<le> MAX_LOADED_ENTRIES" "spans H get rs ls vs"
  shows "reach_drain H get c = Some (Inr (rr_hash ` set vs))"
  using assms(1)
proof (induction c rule: measure_induct_rule [where f = reach_measure])
  case (less c)
  show ?case
  proof (cases "cursor_done c")
    case True
    then show ?thesis using done_reachable [OF less.prems True assms(5)] by (simp add: reach_drain.simps)
  next
    case False
    obtain u c' where l: "reach_loop H get USIZE_MAX 0 c = Some (Inr u, c')" "reach_inv H get rs (set vs) c'"
      using reach_loop_run [OF less.prems assms(2) _ assms(3,4)] by blast
    have step: "reach_step H get USIZE_MAX c = Some (Inr (reach_progress u c'), c')"
      using less.prems l(1) by (simp add: reach_step_def reach_inv_def USIZE_MAX_def)
    show ?thesis using less.IH [OF reach_step_decreases [OF step False] l(2)] step False by (simp add: reach_drain.simps [of H get c])
  qed
qed

section \<open>Slices\<close>

text \<open>A walk in slices of any sizes: the cursor that \<open>reachable_hashes\<close> starts from, and a sequence of calls of \<open>step\<close>.\<close>

definition start_walk :: "TreeV2Root \<Rightarrow> (ChunkError + V2ReachabilityCursor) option" where
  "start_walk root =
     (case and_then (cursor_new root) (\<lambda>c. case tr_child root of None \<Rightarrow> Inr c | Some rng \<Rightarrow> seed_root_child rng c) of
        Inl e \<Rightarrow> Some (Inl e)
      | Inr c \<Rightarrow> map_option Inr (finish_seeding c))"

fun walk_slices ::
  "(bytes \<Rightarrow> FileHash) \<Rightarrow> lookup \<Rightarrow> nat list \<Rightarrow> V2ReachabilityCursor \<Rightarrow> (ChunkError + V2ReachabilityCursor) option" where
  "walk_slices H get [] c = Some (Inr c)"
| "walk_slices H get (n # ns) c =
     (case reach_step H get n c of
        None \<Rightarrow> None
      | Some (Inl e, _) \<Rightarrow> Some (Inl e)
      | Some (Inr _, c) \<Rightarrow> walk_slices H get ns c)"

text \<open>No walk takes more units than this.\<close>

definition WALK_UNITS :: nat where
  "WALK_UNITS = 1 + 2 * MAX_INTERNAL_CHILDREN * (MAX_VISITED_NODES + 1)"

lemma reach_loop_progress:
  assumes "reach_loop H get n units c = Some (Inr u, c')" "reach_inv H get rs V c"
    "nodes_ok H get V" "finite V" "card V \<le> MAX_VISITED_NODES" "leaf_total V \<le> MAX_LOADED_ENTRIES"
  shows "cursor_done c' \<or> reach_measure c' + n \<le> reach_measure c"
  using assms(1,2)
proof (induction n arbitrary: units c)
  case (Suc n)
  from reach_unit_run [OF Suc.prems(2) assms(3-6)] show ?case
  proof (elim disjE exE conjE)
    assume "reach_unit H get c = Idle" "rc_pending c = []" "rc_expanding c = None"
    then show ?thesis using Suc.prems by (simp add: cursor_done_def reach_inv_def)
  next
    fix c1 assume c1: "reach_unit H get c = Advanced c1" "reach_inv H get rs V c1"
    then have "reach_loop H get n (units + 1) c1 = Some (Inr u, c')" using Suc.prems(1) by simp
    from Suc.IH [OF this c1(2)] show ?thesis using reach_unit_measure [OF c1(1)] by linarith
  qed
qed simp

lemma reach_loop_done: "cursor_done c \<Longrightarrow> reach_loop H get n units c = Some (Inr units, c)"
  by (cases n) (simp_all add: cursor_done_def reach_unit_def)

lemma walk_slices_run:
  assumes "reach_inv H get rs V c" "nodes_ok H get V" "finite V" "card V \<le> MAX_VISITED_NODES" "leaf_total V \<le> MAX_LOADED_ENTRIES"
    "\<forall>n \<in> set ns. 0 < n"
  shows "\<exists>c'. walk_slices H get ns c = Some (Inr c') \<and> reach_inv H get rs V c' \<and> (cursor_done c' \<or> reach_measure c' + sum_list ns \<le> reach_measure c)"
  using assms(1,6)
proof (induction ns arbitrary: c)
  case (Cons n ns)
  obtain u c1 where l: "reach_loop H get n 0 c = Some (Inr u, c1)" "reach_inv H get rs V c1"
    using reach_loop_run [OF Cons.prems(1) assms(2-5)] by blast
  have step: "reach_step H get n c = Some (Inr (reach_progress u c1), c1)"
    using Cons.prems l(1) by (simp add: reach_step_def reach_inv_def)
  obtain c' where c': "walk_slices H get ns c1 = Some (Inr c')" "reach_inv H get rs V c'" "cursor_done c' \<or> reach_measure c' + sum_list ns \<le> reach_measure c1"
    using Cons.IH [OF l(2)] Cons.prems(2) by auto
  have "cursor_done c'" if "cursor_done c1"
    using that c'(1) Cons.prems(2)
  proof (induction ns arbitrary: c1)
    case (Cons m ms)
    then show ?case using reach_loop_done [OF Cons.prems(1)] by (simp add: reach_step_def cursor_done_def)
  qed simp
  then show ?case using c' step reach_loop_progress [OF l(1) Cons.prems(1) assms(2-5)] by auto
qed simp

lemma start_walk_run:
  assumes "denotes H get root ls vs ess" "length vs \<le> MAX_VISITED_NODES"
  shows "\<exists>c. start_walk root = Some (Inr c) \<and> reach_inv H get (root_children root) (set vs) c \<and> reach_measure c \<le> WALK_UNITS
    \<and> card (set vs) \<le> MAX_VISITED_NODES \<and> leaf_total (set vs) \<le> MAX_LOADED_ENTRIES"
proof -
  have d: "spans H get (root_children root) ls vs" "holds H get ls ess" "validate_root_shape root = Inr ()"
      "length (concat ess) \<le> MAX_LOADED_ENTRIES" using assms(1) by (auto simp: denotes_def entries_ok_def)
  have leaves: "set ls = {v \<in> set vs. rr_height v = 0}" "set (root_children root) \<subseteq> set vs" using spans_nodes [OF d(1)] by auto
  have "leaf_total (set vs) \<le> MAX_LOADED_ENTRIES"
    unfolding leaf_total_def leaves(1) [symmetric] using sum_set_le [of "\<lambda>r. unat (rr_file_count r)" ls] holds_counts [OF d(2)] d(4) by simp
  moreover have "card (set vs) \<le> MAX_VISITED_NODES" using card_length [of vs] assms(2) by simp
  moreover have "\<exists>c. start_walk root = Some (Inr c) \<and> reach_inv H get (root_children root) (set vs) c \<and> reach_measure c \<le> WALK_UNITS"
    using d(3) leaves(2)
    by (cases "tr_child root")
      (auto simp: start_walk_def cursor_new_def seed_root_child_def finish_seeding_def reach_inv_def work_def covers_def root_children_def
        budget_default_def leaf_total_def reach_measure_def WALK_UNITS_def)
  ultimately show ?thesis by blast
qed

lemma reachable_hashes_start:
  "reachable_hashes H get root =
     (case start_walk root of None \<Rightarrow> None | Some (Inl e) \<Rightarrow> Some (Inl e) | Some (Inr c) \<Rightarrow> reach_drain H get c)"
  by (cases "and_then (cursor_new root) (\<lambda>c. case tr_child root of None \<Rightarrow> Inr c | Some rng \<Rightarrow> seed_root_child rng c)")
    (simp_all only: reachable_hashes_def start_walk_def finish_seeding_def sum.case, simp_all)

lemma reachable_nodes:
  assumes "denotes H get root ls vs ess" "length vs \<le> MAX_VISITED_NODES"
  shows "reachable_hashes H get root = Some (Inr (rr_hash ` set vs))"
proof -
  obtain c where c: "start_walk root = Some (Inr c)" "reach_inv H get (root_children root) (set vs) c"
      "card (set vs) \<le> MAX_VISITED_NODES" "leaf_total (set vs) \<le> MAX_LOADED_ENTRIES"
    using start_walk_run [OF assms] by blast
  have "spans H get (root_children root) ls vs" using assms(1) by (simp add: denotes_def)
  from reach_drain_run [OF c(2) denotes_nodes [OF assms(1)] c(3,4) this] show ?thesis
    by (simp add: reachable_hashes_start c(1))
qed

section \<open>Retirement drains every owner\<close>

definition owner_left :: "nat option \<Rightarrow> bool \<Rightarrow> nat \<Rightarrow> nat" where
  "owner_left retiring cap n = (case retiring of Some m \<Rightarrow> m + 1 | None \<Rightarrow> if cap then n + 1 else 0)"

lemma owner_step_left:
  "owner_step r cap n = NoOwner \<Longrightarrow> owner_left r cap n = 0"
  "owner_step r cap n = Released m \<Longrightarrow> owner_left r cap n = m + 2"
  "owner_step r cap n = Exhausted \<Longrightarrow> owner_left r cap n = 1"
  by (auto simp: owner_step_def owner_left_def split: if_splits option.splits nat.splits)

lemma owner_left_simps [simp]: "owner_left (Some m) cap n = m + 1" "owner_left None False n = 0"
  by (simp_all add: owner_left_def)

definition retire_left :: "V2ReachabilityCursor \<Rightarrow> nat" where
  "retire_left c =
     (if rc_retirement_phase c = 0 then (case rc_expanding c of None \<Rightarrow> 0 | Some cs \<Rightarrow> length cs + 1) else 0)
     + (if rc_retirement_phase c \<le> 1 then owner_left (rc_retiring_pending c) (rc_pending_cap c) (length (rc_pending c)) else 0)
     + (if rc_retirement_phase c \<le> 2 then owner_left (rc_retiring_descriptors c) (rc_descriptors_cap c) (card (dom (rc_descriptors c))) else 0)
     + (if rc_retirement_phase c \<le> 3 then owner_left (rc_retiring_hashes c) (rc_reachable_cap c) (card (rc_reachable c)) else 0)"

definition retires :: "V2ReachabilityCursor \<Rightarrow> bool" where
  "retires c \<longleftrightarrow> (\<exists>c'. retire_loop c = Some (0 < retire_left c, c') \<and> retire_left c' = retire_left c - 1
     \<and> rc_retirement_phase c' \<le> 4 \<and> rc_retiring c' = rc_retiring c)"

text \<open>A phase without an owner hands over to the next one; otherwise it releases one element or the owner.\<close>

lemma retires_next:
  "retires c' \<Longrightarrow> retire_loop c = retire_loop c' \<Longrightarrow> retire_left c' = retire_left c \<Longrightarrow> rc_retiring c' = rc_retiring c \<Longrightarrow> retires c"
  by (simp add: retires_def)

lemma retires_one:
  "retire_loop c = Some (True, c') \<Longrightarrow> retire_left c = Suc (retire_left c') \<Longrightarrow> rc_retirement_phase c' \<le> 4 \<Longrightarrow>
   rc_retiring c' = rc_retiring c \<Longrightarrow> retires c"
  by (simp add: retires_def)

lemmas take_defs = take_pending_def take_descriptors_def take_hashes_def

lemma retires_4: "rc_retirement_phase c = 4 \<Longrightarrow> retires c"
  by (simp add: retires_def retire_loop.simps [of c] retire_left_def)

lemma retires_3:
  assumes "rc_retirement_phase c = 3"
  shows "retires c"
proof (cases "owner_step (rc_retiring_hashes c) (rc_reachable_cap c) (card (rc_reachable c))")
  case NoOwner
  show ?thesis by (rule retires_next [OF retires_4, of "c\<lparr>rc_retirement_phase := 4\<rparr>"])
    (use assms NoOwner owner_step_left(1) [OF NoOwner] in \<open>simp_all add: retire_loop.simps [of c] retire_left_def\<close>)
next
  case (Released m)
  show ?thesis by (rule retires_one [of _ "(take_hashes c)\<lparr>rc_retiring_hashes := Some m\<rparr>"])
    (use assms Released owner_step_left(2) [OF Released] in \<open>simp_all add: retire_loop.simps [of c] retire_left_def take_defs\<close>)
next
  case Exhausted
  show ?thesis by (rule retires_one [of _ "(take_hashes c)\<lparr>rc_retiring_hashes := None, rc_retirement_phase := 4\<rparr>"])
    (use assms Exhausted owner_step_left(3) [OF Exhausted] in \<open>simp_all add: retire_loop.simps [of c] retire_left_def take_defs\<close>)
qed

lemma retires_2:
  assumes "rc_retirement_phase c = 2"
  shows "retires c"
proof (cases "owner_step (rc_retiring_descriptors c) (rc_descriptors_cap c) (card (dom (rc_descriptors c)))")
  case NoOwner
  show ?thesis by (rule retires_next [OF retires_3, of "c\<lparr>rc_retirement_phase := 3\<rparr>"])
    (use assms NoOwner owner_step_left(1) [OF NoOwner] in \<open>simp_all add: retire_loop.simps [of c] retire_left_def\<close>)
next
  case (Released m)
  show ?thesis by (rule retires_one [of _ "(take_descriptors c)\<lparr>rc_retiring_descriptors := Some m\<rparr>"])
    (use assms Released owner_step_left(2) [OF Released] in \<open>simp_all add: retire_loop.simps [of c] retire_left_def take_defs\<close>)
next
  case Exhausted
  show ?thesis by (rule retires_one [of _ "(take_descriptors c)\<lparr>rc_retiring_descriptors := None, rc_retirement_phase := 3\<rparr>"])
    (use assms Exhausted owner_step_left(3) [OF Exhausted] in \<open>simp_all add: retire_loop.simps [of c] retire_left_def take_defs\<close>)
qed

lemma retires_1:
  assumes "rc_retirement_phase c = 1"
  shows "retires c"
proof (cases "owner_step (rc_retiring_pending c) (rc_pending_cap c) (length (rc_pending c))")
  case NoOwner
  show ?thesis by (rule retires_next [OF retires_2, of "c\<lparr>rc_retirement_phase := 2\<rparr>"])
    (use assms NoOwner owner_step_left(1) [OF NoOwner] in \<open>simp_all add: retire_loop.simps [of c] retire_left_def\<close>)
next
  case (Released m)
  show ?thesis by (rule retires_one [of _ "(take_pending c)\<lparr>rc_retiring_pending := Some m\<rparr>"])
    (use assms Released owner_step_left(2) [OF Released] in \<open>simp_all add: retire_loop.simps [of c] retire_left_def take_defs\<close>)
next
  case Exhausted
  show ?thesis by (rule retires_one [of _ "(take_pending c)\<lparr>rc_retiring_pending := None, rc_retirement_phase := 2\<rparr>"])
    (use assms Exhausted owner_step_left(3) [OF Exhausted] in \<open>simp_all add: retire_loop.simps [of c] retire_left_def take_defs\<close>)
qed

lemma retires_0:
  assumes "rc_retirement_phase c = 0"
  shows "retires c"
proof (cases "rc_expanding c")
  case None
  show ?thesis by (rule retires_next [OF retires_1, of "c\<lparr>rc_retirement_phase := 1\<rparr>"])
    (use assms None in \<open>simp_all add: retire_loop.simps [of c] retire_left_def\<close>)
next
  case (Some cs)
  show ?thesis
  proof (cases cs)
    case Nil
    show ?thesis by (rule retires_one [of _ "c\<lparr>rc_expanding := None, rc_retirement_phase := 1\<rparr>"])
      (use assms Some Nil in \<open>simp_all add: retire_loop.simps [of c] retire_left_def\<close>)
  next
    case (Cons x xs)
    show ?thesis by (rule retires_one [of _ "c\<lparr>rc_expanding := Some xs\<rparr>"])
      (use assms Some Cons in \<open>simp_all add: retire_loop.simps [of c] retire_left_def\<close>)
  qed
qed

lemma retires_all:
  assumes "rc_retirement_phase c \<le> 4"
  shows "retires c"
proof -
  have "rc_retirement_phase c = 0 \<or> rc_retirement_phase c = 1 \<or> rc_retirement_phase c = 2 \<or> rc_retirement_phase c = 3 \<or> rc_retirement_phase c = 4"
    using assms by linarith
  then show ?thesis using retires_0 retires_1 retires_2 retires_3 retires_4 by blast
qed

section \<open>Properties\<close>

lemma load_node_agree: "get' (rr_hash r) = get (rr_hash r) \<Longrightarrow> load_node H get' r = load_node H get r"
  by (simp add: load_node_def)

lemma denotes_agree:
  assumes "denotes H get root ls vs ess" "\<And>v. v \<in> set vs \<Longrightarrow> get' (rr_hash v) = get (rr_hash v)"
  shows "denotes H get' root ls vs ess"
proof -
  have d: "spans H get (root_children root) ls vs" "holds H get ls ess" using assms(1) by (simp_all add: denotes_def)
  have load: "load_node H get' v = load_node H get v" if "v \<in> set vs" for v using assms(2) [OF that] by (rule load_node_agree)
  have "spans H get' rs ls' vs'" if "spans H get rs ls' vs'" "set vs' \<subseteq> set vs" for rs ls' vs'
    using that
  proof (induction rule: spans.induct)
    case (spans_leaf r rs ls vs')
    then show ?case by (intro spans.spans_leaf) simp_all
  next
    case (spans_node r h cs ls us rs ls' vs')
    then have "load_node H get' r = Inr (Internal h cs)" using load [of r] by simp
    then show ?case using spans_node by (intro spans.spans_node) simp_all
  qed (rule spans.spans_Nil)
  moreover have "set ls \<subseteq> set vs" using spans_nodes(2) [OF d(1)] by blast
  then have "holds H get' ls ess" using d(2) load unfolding holds_def by (auto elim!: list.rel_mono_strong)
  ultimately show ?thesis using assms(1) d(1) by (simp add: denotes_def)
qed

lemma denotes_loads_nodes: "denotes H get root ls vs ess \<Longrightarrow> v \<in> set vs \<Longrightarrow> \<exists>b. get (rr_hash v) = Inr b"
  using denotes_nodes [of H get root ls vs ess] unfolding nodes_ok_def by (fastforce simp: load_node_Leaf load_node_Internal)

text \<open>(C5) The reachable set of a tree is exactly the set of chunks that reading the tree needs. For a tree that
  loads, the walk ends without an error or a panic; a store that keeps these chunks, whatever else it drops,
  still loads the same entries, and a store that has lost any one of them cannot load the tree.\<close>

theorem reachable_hashes_exact:
  assumes "load_all_entries H get root = Inr es"
  shows "\<exists>R. reachable_hashes H get root = Some (Inr R)
    \<and> (\<forall>get'. (\<forall>h \<in> R. get' h = get h) \<longrightarrow> load_all_entries H get' root = Inr es)
    \<and> (\<forall>h \<in> R. \<forall>e fs. load_all_entries H (get(h := Inl e)) root \<noteq> Inr fs)"
proof -
  obtain ls vs ess where d: "denotes H get root ls vs ess" "es = concat ess" "length vs + length ls \<le> MAX_VISITED_NODES"
    using assms by (auto simp: load_all_entries_Inr)
  have "load_all_entries H get' root = Inr es" if "\<forall>h \<in> rr_hash ` set vs. get' h = get h" for get'
    unfolding load_all_entries_Inr using denotes_agree [OF d(1)] that d(2,3) by (metis imageI)
  moreover have False if h: "h \<in> rr_hash ` set vs" and l: "load_all_entries H (get(h := Inl e)) root = Inr fs" for h e fs
  proof -
    obtain ls' vs' ess' where d': "denotes H (get(h := Inl e)) root ls' vs' ess'" using l by (auto simp: load_all_entries_Inr)
    have "grows (get(h := Inl e)) get" by (simp add: grows_def)
    then have "denotes H get root ls' vs' ess'" using d' by (rule denotes_mono)
    then have "vs' = vs" using d(1) spans_unique unfolding denotes_def by blast
    then obtain v where "v \<in> set vs'" "rr_hash v = h" using h by auto
    then show False using denotes_loads_nodes [OF d'] by fastforce
  qed
  moreover have "reachable_hashes H get root = Some (Inr (rr_hash ` set vs))" using reachable_nodes [OF d(1)] d(3) by simp
  ultimately show ?thesis by blast
qed

theorem reachable_hashes_exact_witness:
  "let e = FileEntry.make ''a'' ZERO_HASH 1 2 in
   \<exists>get root R. reachable_hashes (\<lambda>b. ZERO_HASH) get root = Some (Inr R) \<and> load_all_entries (\<lambda>b. ZERO_HASH) get root = Inr [e]"
proof -
  let ?e = "FileEntry.make ''a'' ZERO_HASH 1 2"
  have typed: "\<forall>e \<in> set [?e]. entry_typed e" by (simp add: entry_typed_def FileEntry.defs ZERO_HASH_def as_bytes_def from_utf8_ok_ascii)
  obtain bs where bs: "encode_leaf [?e] = Inr bs"
    by (auto simp: encode_leaf_Inr leaf_record_len_def FileEntry.defs tree_limits entries_ok_def plain_paths)
  have "load_all_entries (\<lambda>b. ZERO_HASH) (\<lambda>h. Inr bs) (leaf_root (\<lambda>b. ZERO_HASH) [?e] bs) = Inr [?e]"
    using leaf_root_loads [OF bs _ typed, of "\<lambda>h. Inr bs" "\<lambda>b. ZERO_HASH"] by simp
  from reachable_hashes_exact [OF this] this show ?thesis unfolding Let_def by blast
qed

text \<open>(C6) The walk may be cut into slices of any positive sizes. On a tree that loads no slice reports an error or
  panics; while the walk is not done \<open>finish\<close> refuses and only chunks of the tree are marked; once it is
  done \<open>finish\<close> gives exactly the reachable set; and it is done when the slices add up to \<open>WALK_UNITS\<close> units.\<close>

theorem sliced_walk_exact:
  assumes "load_all_entries H get root = Inr es" "\<forall>n \<in> set ns. 0 < n"
  shows "\<exists>R c c'. reachable_hashes H get root = Some (Inr R) \<and> start_walk root = Some (Inr c) \<and> walk_slices H get ns c = Some (Inr c')
    \<and> rc_reachable c' \<subseteq> R
    \<and> (if cursor_done c' then cursor_finish c' = Inr R else \<forall>S. cursor_finish c' \<noteq> Inr S)
    \<and> (WALK_UNITS \<le> sum_list ns \<longrightarrow> cursor_done c')"
proof -
  obtain ls vs ess where d: "denotes H get root ls vs ess" "length vs \<le> MAX_VISITED_NODES"
    using assms(1) by (auto simp: load_all_entries_Inr)
  have sp: "spans H get (root_children root) ls vs" using d(1) by (simp add: denotes_def)
  obtain c where c: "start_walk root = Some (Inr c)" "reach_inv H get (root_children root) (set vs) c" "reach_measure c \<le> WALK_UNITS"
      "card (set vs) \<le> MAX_VISITED_NODES" "leaf_total (set vs) \<le> MAX_LOADED_ENTRIES"
    using start_walk_run [OF d] by blast
  obtain c' where c': "walk_slices H get ns c = Some (Inr c')" "reach_inv H get (root_children root) (set vs) c'"
      "cursor_done c' \<or> reach_measure c' + sum_list ns \<le> reach_measure c"
    using walk_slices_run [OF c(2) denotes_nodes [OF d(1)] _ c(4,5) assms(2)] by blast
  have "rc_reachable c' \<subseteq> rr_hash ` set vs" using c'(2) unfolding reach_inv_def by (force simp: ran_def)
  moreover have "0 < reach_measure c' \<or> cursor_done c'"
    using c'(2) by (cases "rc_expanding c'") (auto simp: reach_measure_def cursor_done_def reach_inv_def)
  then have "WALK_UNITS \<le> sum_list ns \<Longrightarrow> cursor_done c'" using c'(3) c(3) by linarith
  moreover have "cursor_finish c' \<noteq> Inr S" if "\<not> cursor_done c'" for S
    using that c'(2) by (auto simp: cursor_finish_def cursor_done_def reach_inv_def)
  moreover have "cursor_finish c' = Inr (rr_hash ` set vs)" if "cursor_done c'" by (rule done_reachable [OF c'(2) that sp])
  ultimately show ?thesis using reachable_nodes [OF d] c(1) c'(1) by (intro exI [of _ "rr_hash ` set vs"] exI [of _ c] exI [of _ c']) simp
qed

theorem sliced_walk_exact_witness:
  "let e = FileEntry.make ''a'' ZERO_HASH 1 2 in
   \<exists>get root c c'. load_all_entries (\<lambda>b. ZERO_HASH) get root = Inr [e] \<and> start_walk root = Some (Inr c)
     \<and> walk_slices (\<lambda>b. ZERO_HASH) get [1, WALK_UNITS] c = Some (Inr c') \<and> cursor_done c' \<and> cursor_finish c' = Inr {ZERO_HASH}"
proof -
  let ?e = "FileEntry.make ''a'' ZERO_HASH 1 2" and ?H = "\<lambda>b :: bytes. ZERO_HASH"
  have typed: "\<forall>e \<in> set [?e]. entry_typed e" by (simp add: entry_typed_def FileEntry.defs ZERO_HASH_def as_bytes_def from_utf8_ok_ascii)
  obtain bs where bs: "encode_leaf [?e] = Inr bs"
    by (auto simp: encode_leaf_Inr leaf_record_len_def FileEntry.defs tree_limits entries_ok_def plain_paths)
  let ?root = "leaf_root ?H [?e] bs" and ?get = "\<lambda>h :: FileHash. (Inr bs :: ChunkError + bytes)"
  have load: "load_all_entries ?H ?get ?root = Inr [?e]" using leaf_root_loads [OF bs _ typed, of ?get ?H] by simp
  then obtain ls vs ess where d: "denotes ?H ?get ?root ls vs ess" "length vs \<le> MAX_VISITED_NODES" by (auto simp: load_all_entries_Inr)
  then have "set (root_children ?root) \<subseteq> set vs" using spans_nodes [of ?H ?get "root_children ?root"] by (auto simp: denotes_def)
  then have "vs \<noteq> []" by (auto simp: root_children_def leaf_root_def)
  have hash: "rr_hash v = ZERO_HASH" if "v \<in> set vs" for v
    using denotes_nodes [OF d(1)] that unfolding nodes_ok_def load_node_Leaf load_node_Internal by auto
  have "reachable_hashes ?H ?get ?root = Some (Inr {ZERO_HASH})"
    using reachable_nodes [OF d] hash \<open>vs \<noteq> []\<close> by (cases vs) auto
  moreover have "\<forall>n \<in> set [1, WALK_UNITS]. 0 < n" by (simp add: WALK_UNITS_def)
  ultimately show ?thesis using sliced_walk_exact [OF load, of "[1, WALK_UNITS]"] load unfolding Let_def by fastforce
qed

text \<open>(C7) Retirement ends: each call releases one element or one owner, the calls that return true are exactly
  as many as there are elements and owners left, no call panics, and the cursor never steps again.\<close>

theorem retire_one_drains:
  assumes "rc_retirement_phase c \<le> 4"
  shows "\<exists>c'. retire_one c = Some (0 < retire_left c, c') \<and> retire_left c' = retire_left c - 1 \<and> rc_retirement_phase c' \<le> 4
    \<and> (\<forall>H get n. reach_step H get n c' = Some (invalid ''Tree v2 reachability is retiring'', c'))"
proof -
  have "retire_left (c\<lparr>rc_retiring := True\<rparr>) = retire_left c" by (simp add: retire_left_def)
  then show ?thesis using retires_all [of "c\<lparr>rc_retiring := True\<rparr>"] assms by (auto simp: retires_def retire_one_def reach_step_def)
qed

theorem retire_one_drains_witness:
  "case cursor_new \<lparr>tr_version = TREE_VERSION, tr_total_files = 0, tr_child = None\<rparr> of
     Inl e \<Rightarrow> False
   | Inr c \<Rightarrow> (\<exists>c'. retire_one (c\<lparr>rc_pending := [leaf_ref (\<lambda>b. ZERO_HASH) [] []], rc_pending_cap := True\<rparr>) = Some (True, c') \<and> retire_left c' = 1)"
proof -
  obtain c where c: "cursor_new \<lparr>tr_version = TREE_VERSION, tr_total_files = 0, tr_child = None\<rparr> = Inr c"
      "rc_retirement_phase c = 0" "rc_expanding c = None" "rc_retiring_pending c = None" "rc_retiring_descriptors c = None"
      "rc_retiring_hashes c = None" "\<not> rc_descriptors_cap c" "\<not> rc_reachable_cap c"
    by (auto simp: cursor_new_def validate_root_shape_def)
  let ?c = "c\<lparr>rc_pending := [leaf_ref (\<lambda>b. ZERO_HASH) [] []], rc_pending_cap := True\<rparr>"
  have "retire_left ?c = 2" using c by (simp add: retire_left_def owner_left_def)
  with retire_one_drains [of ?c] c show ?thesis by auto
qed

end
