(* ===== verification/Text_Merge.thy ===== *)
theory Text_Merge
  imports Entries Utf8
begin

text \<open>
  Conflict classification and the three-way text merge (\<open>conflict.rs\<close>). The line diff is the crate \<open>similar\<close>:
  it is the parameter \<open>diff\<close>, a function from two texts to the operations and the slices of the new
  text. \<open>diff_law\<close> states what its documentation says of them: both texts are cut into slices after a line
  feed, a CRLF or a lone carriage return, and the operations cover the slices in order. \<open>None\<close> is the
  panic of a slice that is out of range, which the law excludes. The loop counts the lines of the base
  with \<open>str::lines\<close>, which does not end a line at a lone carriage return, so the results on merged lines
  are for bases without one.
\<close>

section \<open>Classification\<close>

datatype SyncAction = NoChange | FastForward | LocalOnly | Conflict FileHash FileHash FileHash

definition classify_sync :: "FileHash \<Rightarrow> FileHash \<Rightarrow> FileHash \<Rightarrow> SyncAction" where
  "classify_sync base local remote =
     (if local = remote then NoChange
      else if local = base then FastForward
      else if remote = base then LocalOnly
      else Conflict base local remote)"

datatype FileResolution =
    TextMerged FileHash
  | ConflictCopied FileHash FileHash string
  | AutoRenamed FileHash FileHash string
  | Skipped

section \<open>Lines\<close>

abbreviation NL :: char where "NL \<equiv> CHR 0x0A"
abbreviation CR :: char where "CR \<equiv> CHR 0x0D"

text \<open>\<open>str::split_inclusive('\n')\<close>.\<close>

fun split_inclusive :: "string \<Rightarrow> string \<Rightarrow> string list" where
  "split_inclusive cur [] = (if cur = [] then [] else [cur])"
| "split_inclusive cur (c # cs) = (if c = NL then (cur @ [c]) # split_inclusive [] cs else split_inclusive (cur @ [c]) cs)"

definition ends_with :: "string \<Rightarrow> char \<Rightarrow> bool" where
  "ends_with s c = (s \<noteq> [] \<and> last s = c)"

definition strip_line :: "string \<Rightarrow> string" where
  "strip_line line =
     (if ends_with line NL then (let line = butlast line in if ends_with line CR then butlast line else line) else line)"

definition str_lines :: "string \<Rightarrow> string list" where
  "str_lines s = map strip_line (split_inclusive [] s)"

definition trim_end_newlines :: "string \<Rightarrow> string" where
  "trim_end_newlines s = rev (dropWhile (\<lambda>c. c = NL) (rev s))"

fun join_newline :: "string list \<Rightarrow> string" where
  "join_newline [] = []"
| "join_newline [l] = l"
| "join_newline (l # ls) = l @ NL # join_newline ls"

section \<open>Changes\<close>

datatype DiffOp =
    Equal nat nat nat
  | Delete nat nat nat
  | Insert nat nat nat
  | Replace nat nat nat nat

record TextDiff =
  td_ops :: "DiffOp list"
  td_new_slices :: "string list"

record ChangeRange =
  cr_start :: nat
  cr_end :: nat

fun changed_range :: "DiffOp \<Rightarrow> ChangeRange list" where
  "changed_range (Equal old_index new_index len) = []"
| "changed_range (Delete old_index old_len new_index) = [\<lparr>cr_start = old_index, cr_end = old_index + old_len\<rparr>]"
| "changed_range (Replace old_index old_len new_index new_len) = [\<lparr>cr_start = old_index, cr_end = old_index + old_len\<rparr>]"
| "changed_range (Insert old_index new_index new_len) = [\<lparr>cr_start = old_index, cr_end = old_index\<rparr>]"

definition collect_changed_ranges :: "TextDiff \<Rightarrow> ChangeRange list" where
  "collect_changed_ranges d = concat (map changed_range (td_ops d))"

definition range_end :: "ChangeRange \<Rightarrow> nat" where
  "range_end r = (if cr_start r = cr_end r then cr_end r + 1 else cr_end r)"

definition ranges_overlap :: "ChangeRange list \<Rightarrow> ChangeRange list \<Rightarrow> bool" where
  "ranges_overlap as bs = list_ex (\<lambda>a. list_ex (\<lambda>b. cr_start a < range_end b \<and> cr_start b < range_end a) bs) as"

record MergeOp =
  mo_old_len :: nat
  mo_new_lines :: "string list"

definition new_lines_at :: "TextDiff \<Rightarrow> nat \<Rightarrow> nat \<Rightarrow> string list option" where
  "new_lines_at d new_index new_len =
     (if new_index + new_len \<le> length (td_new_slices d)
      then Some (map trim_end_newlines (take new_len (drop new_index (td_new_slices d)))) else None)"

fun add_op :: "TextDiff \<Rightarrow> DiffOp \<Rightarrow> (nat \<rightharpoonup> MergeOp) \<Rightarrow> (nat \<rightharpoonup> MergeOp) option" where
  "add_op d (Equal old_index new_index len) ops = Some ops"
| "add_op d (Delete old_index old_len new_index) ops = Some (ops(old_index \<mapsto> \<lparr>mo_old_len = old_len, mo_new_lines = []\<rparr>))"
| "add_op d (Replace old_index old_len new_index new_len) ops =
     map_option (\<lambda>ls. ops(old_index \<mapsto> \<lparr>mo_old_len = old_len, mo_new_lines = ls\<rparr>)) (new_lines_at d new_index new_len)"
| "add_op d (Insert old_index new_index new_len) ops =
     map_option (\<lambda>ls. ops(old_index \<mapsto> \<lparr>mo_old_len = 0, mo_new_lines = ls\<rparr>)) (new_lines_at d new_index new_len)"

fun add_ops :: "TextDiff \<Rightarrow> DiffOp list \<Rightarrow> (nat \<rightharpoonup> MergeOp) \<Rightarrow> (nat \<rightharpoonup> MergeOp) option" where
  "add_ops d [] ops = Some ops"
| "add_ops d (x # xs) ops = (case add_op d x ops of None \<Rightarrow> None | Some ops \<Rightarrow> add_ops d xs ops)"

definition collect_ops :: "TextDiff \<Rightarrow> (nat \<rightharpoonup> MergeOp) option" where
  "collect_ops d = add_ops d (td_ops d) Map.empty"

section \<open>The merge\<close>

text \<open>The loop over the base lines; \<open>None\<close> is the early return.\<close>

function merge_loop :: "string list \<Rightarrow> (nat \<rightharpoonup> MergeOp) \<Rightarrow> (nat \<rightharpoonup> MergeOp) \<Rightarrow> nat \<Rightarrow> string list \<Rightarrow> string list option" where
  "merge_loop base_lines local_ops remote_ops i result =
     (if i < length base_lines then
        (case (local_ops i, remote_ops i) of
           (Some op, None) \<Rightarrow> merge_loop base_lines local_ops remote_ops (i + max (mo_old_len op) 1) (result @ mo_new_lines op)
         | (None, Some op) \<Rightarrow> merge_loop base_lines local_ops remote_ops (i + max (mo_old_len op) 1) (result @ mo_new_lines op)
         | (None, None) \<Rightarrow> merge_loop base_lines local_ops remote_ops (i + 1) (result @ [base_lines ! i])
         | (Some _, Some _) \<Rightarrow> None)
      else Some result)"
  by pat_completeness auto
termination by (relation "measure (\<lambda>(ls, l, r, i, res). length ls - i)") auto

declare merge_loop.simps [simp del]

definition trailing :: "(nat \<rightharpoonup> MergeOp) \<Rightarrow> nat \<Rightarrow> string list" where
  "trailing ops n = (case ops n of Some op \<Rightarrow> mo_new_lines op | None \<Rightarrow> [])"

definition apply_non_overlapping_changes :: "string \<Rightarrow> (nat \<rightharpoonup> MergeOp) \<Rightarrow> (nat \<rightharpoonup> MergeOp) \<Rightarrow> string option" where
  "apply_non_overlapping_changes base local_ops remote_ops =
     (let base_lines = str_lines base in
      map_option (\<lambda>result.
          let merged = join_newline (result @ trailing local_ops (length base_lines) @ trailing remote_ops (length base_lines))
          in if ends_with base NL then merged @ [NL] else merged)
        (merge_loop base_lines local_ops remote_ops 0 []))"

datatype TextMergeResult = Merged bytes | Overlap

definition three_way_text_merge :: "(string \<Rightarrow> string \<Rightarrow> TextDiff) \<Rightarrow> bytes \<Rightarrow> bytes \<Rightarrow> bytes \<Rightarrow> TextMergeResult option" where
  "three_way_text_merge diff base local remote =
     (let base_str = of_bytes (from_utf8_lossy base);
          diff_local = diff base_str (of_bytes (from_utf8_lossy local));
          diff_remote = diff base_str (of_bytes (from_utf8_lossy remote))
      in if ranges_overlap (collect_changed_ranges diff_local) (collect_changed_ranges diff_remote) then Some Overlap
         else case (collect_ops diff_local, collect_ops diff_remote) of
                (Some local_ops, Some remote_ops) \<Rightarrow>
                  (case apply_non_overlapping_changes base_str local_ops remote_ops of
                     Some content \<Rightarrow> Some (Merged (as_bytes content))
                   | None \<Rightarrow> Some Overlap)
              | _ \<Rightarrow> None)"

section \<open>Symmetry\<close>

lemma merge_loop_swap: "merge_loop ls l r i res = merge_loop ls r l i res"
proof (induction ls l r i res rule: merge_loop.induct)
  case (1 ls l r i res)
  show ?case
  proof (cases "i < length ls")
    case True
    then show ?thesis using 1 by (cases "l i"; cases "r i") (simp_all add: merge_loop.simps [of ls l r i res] merge_loop.simps [of ls r l i res])
  qed (simp add: merge_loop.simps)
qed

lemma ranges_overlap_swap: "ranges_overlap as bs = ranges_overlap bs as"
  unfolding ranges_overlap_def list_ex_iff by blast

lemma add_ops_range:
  "add_ops d xs ops = Some ops' \<Longrightarrow> ops' k = Some op \<Longrightarrow> ops k = Some op \<or> (\<exists>r \<in> set (concat (map changed_range xs)). cr_start r = k \<and> cr_end r = k + mo_old_len op)"
proof (induction xs arbitrary: ops)
  case (Cons x xs)
  then obtain ops1 where o: "add_op d x ops = Some ops1" "add_ops d xs ops1 = Some ops'" by (auto split: option.splits)
  from Cons.IH [OF o(2) Cons.prems(2)] show ?case using o(1) by (cases x) (auto split: if_splits)
qed simp

lemma both_trailing_overlap:
  assumes "collect_ops d = Some l" "collect_ops e = Some r" "l k = Some x" "r k = Some y"
  shows "ranges_overlap (collect_changed_ranges d) (collect_changed_ranges e)"
proof -
  obtain a where "a \<in> set (collect_changed_ranges d)" "cr_start a = k" "k < range_end a"
    using add_ops_range [OF assms(1) [unfolded collect_ops_def] assms(3)] by (fastforce simp: collect_changed_ranges_def range_end_def)
  moreover obtain b where "b \<in> set (collect_changed_ranges e)" "cr_start b = k" "k < range_end b"
    using add_ops_range [OF assms(2) [unfolded collect_ops_def] assms(4)] by (fastforce simp: collect_changed_ranges_def range_end_def)
  ultimately show ?thesis unfolding ranges_overlap_def list_ex_iff by metis
qed

text \<open>(C21) The text merge does not depend on which device it runs on: swapping the two sides gives the same
  result, merged bytes or overlap, whatever the line diff returns.\<close>

theorem text_merge_symmetric:
  "three_way_text_merge diff base local remote = three_way_text_merge diff base remote local"
proof -
  let ?b = "of_bytes (from_utf8_lossy base)"
  let ?d = "diff ?b (of_bytes (from_utf8_lossy local))" and ?e = "diff ?b (of_bytes (from_utf8_lossy remote))"
  have swap: "apply_non_overlapping_changes ?b l r = apply_non_overlapping_changes ?b r l"
    if "collect_ops ?d = Some l" "collect_ops ?e = Some r" "\<not> ranges_overlap (collect_changed_ranges ?d) (collect_changed_ranges ?e)" for l r
  proof -
    have "l n = None \<or> r n = None" for n using both_trailing_overlap [OF that(1,2)] that(3) by (cases "l n"; cases "r n") auto
    then have "trailing l n @ trailing r n = trailing r n @ trailing l n" for n by (metis append_Nil append_Nil2 option.simps(4) trailing_def)
    then show ?thesis by (simp add: apply_non_overlapping_changes_def merge_loop_swap [of _ l r])
  qed
  then have "apply_non_overlapping_changes ?b (the (collect_ops ?d)) (the (collect_ops ?e)) =
      apply_non_overlapping_changes ?b (the (collect_ops ?e)) (the (collect_ops ?d))"
    if "\<not> ranges_overlap (collect_changed_ranges ?d) (collect_changed_ranges ?e)" "collect_ops ?d \<noteq> None" "collect_ops ?e \<noteq> None"
    using swap [of "the (collect_ops ?d)" "the (collect_ops ?e)"] that by simp
  then show ?thesis unfolding three_way_text_merge_def Let_def ranges_overlap_swap [of "collect_changed_ranges ?e"]
    by (cases "collect_ops ?d"; cases "collect_ops ?e") simp_all
qed


section \<open>What the line diff promises\<close>

text \<open>\<open>ops_ok olds news i j ops\<close>: from line \<open>i\<close> of the old and line \<open>j\<close> of the new text on, the operations cover
  both texts in order and equal stretches are equal. A block of changed lines is one operation, so a change
  is followed by an equal stretch or by the end.\<close>

fun ops_ok :: "string list \<Rightarrow> string list \<Rightarrow> nat \<Rightarrow> nat \<Rightarrow> DiffOp list \<Rightarrow> bool" where
  "ops_ok olds news i j [] = (i = length olds \<and> j = length news)"
| "ops_ok olds news i j (Equal a b n # ops) = (a = i \<and> b = j \<and> 0 < n \<and> i + n \<le> length olds \<and> j + n \<le> length news
     \<and> take n (drop i olds) = take n (drop j news) \<and> ops_ok olds news (i + n) (j + n) ops)"
| "ops_ok olds news i j (Delete a n b # ops) = (a = i \<and> b = j \<and> 0 < n \<and> i + n \<le> length olds
     \<and> (ops = [] \<or> changed_range (hd ops) = []) \<and> ops_ok olds news (i + n) j ops)"
| "ops_ok olds news i j (Insert a b n # ops) = (a = i \<and> b = j \<and> 0 < n \<and> j + n \<le> length news
     \<and> (ops = [] \<or> changed_range (hd ops) = []) \<and> ops_ok olds news i (j + n) ops)"
| "ops_ok olds news i j (Replace a n b m # ops) = (a = i \<and> b = j \<and> 0 < n \<and> 0 < m \<and> i + n \<le> length olds \<and> j + m \<le> length news
     \<and> (ops = [] \<or> changed_range (hd ops) = []) \<and> ops_ok olds news (i + n) (j + m) ops)"

text \<open>The slices the diff compares: a line feed, a carriage return with its line feed, or a carriage return on its
  own ends a slice.\<close>

fun line_slices :: "string \<Rightarrow> string \<Rightarrow> string list" where
  "line_slices cur [] = (if cur = [] then [] else [cur])"
| "line_slices cur (c # cs) =
     (if c = NL \<or> c = CR \<and> (cs = [] \<or> hd cs \<noteq> NL) then (cur @ [c]) # line_slices [] cs else line_slices (cur @ [c]) cs)"

definition diff_law :: "string \<Rightarrow> string \<Rightarrow> TextDiff \<Rightarrow> bool" where
  "diff_law old new d \<longleftrightarrow> td_new_slices d = line_slices [] new
     \<and> ops_ok (line_slices [] old) (line_slices [] new) 0 0 (td_ops d)"

text \<open>Where every carriage return stands before a line feed the slices are the lines \<open>str::lines\<close> counts.\<close>

fun no_lone_cr :: "string \<Rightarrow> bool" where
  "no_lone_cr [] = True"
| "no_lone_cr (c # cs) = ((c = CR \<longrightarrow> cs \<noteq> [] \<and> hd cs = NL) \<and> no_lone_cr cs)"

lemma line_slices_lines: "no_lone_cr s \<Longrightarrow> line_slices cur s = split_inclusive cur s"
  by (induction s arbitrary: cur) auto

lemma no_lone_cr_free: "CR \<notin> set s \<Longrightarrow> no_lone_cr s"
  by (induction s) auto

text \<open>Lines inserted between two lines of the base.\<close>

fun inserts_inside :: "nat \<Rightarrow> DiffOp \<Rightarrow> bool" where
  "inserts_inside n (Insert a b m) = (a < n)"
| "inserts_inside n _ = False"


section \<open>Line by line\<close>

text \<open>\<open>line_out\<close>: what a side leaves in the place of base line \<open>i\<close>: its new lines at the start of a change, nothing
  inside a change, and the line itself elsewhere.\<close>

definition inside :: "(nat \<rightharpoonup> MergeOp) \<Rightarrow> nat \<Rightarrow> bool" where
  "inside m i \<longleftrightarrow> (\<exists>k < i. \<exists>op. m k = Some op \<and> i < k + mo_old_len op)"

definition line_out :: "string list \<Rightarrow> (nat \<rightharpoonup> MergeOp) \<Rightarrow> nat \<Rightarrow> string list" where
  "line_out base m i = (case m i of Some op \<Rightarrow> mo_new_lines op | None \<Rightarrow> if inside m i then [] else [base ! i])"

definition side_changes :: "(nat \<rightharpoonup> MergeOp) \<Rightarrow> nat \<Rightarrow> bool" where
  "side_changes m i \<longleftrightarrow> m i \<noteq> None \<or> inside m i"

text \<open>\<open>blocks n m\<close>: the changes of one side to the \<open>n\<close> base lines are disjoint blocks of at least one line.\<close>

definition blocks :: "nat \<Rightarrow> (nat \<rightharpoonup> MergeOp) \<Rightarrow> bool" where
  "blocks n m \<longleftrightarrow> (\<forall>k op. m k = Some op \<longrightarrow> k < n \<longrightarrow> 0 < mo_old_len op \<and> k + mo_old_len op \<le> n
     \<and> (\<forall>j. k < j \<longrightarrow> j < k + mo_old_len op \<longrightarrow> m j = None))"

lemma upt_block: "i + n \<le> (l :: nat) \<Longrightarrow> [i..<l] = [i..<i + n] @ [i + n..<l]"
  using upt_add_eq_append [of i "i + n" "l - (i + n)"] by simp

lemma block_out:
  assumes "m i = Some op" "0 < mo_old_len op" "\<forall>j. i < j \<longrightarrow> j < i + mo_old_len op \<longrightarrow> m j = None"
  shows "concat (map (line_out base m) [i..<i + mo_old_len op]) = mo_new_lines op"
proof -
  have "inside m j" if "i < j" "j < i + mo_old_len op" for j using that assms(1) by (auto simp: inside_def)
  then have "line_out base m j = []" if "j \<in> set [Suc i..<i + mo_old_len op]" for j using that assms(3) by (auto simp: line_out_def)
  then have "concat (map (line_out base m) [Suc i..<i + mo_old_len op]) = []" by simp
  moreover have "[i..<i + mo_old_len op] = i # [Suc i..<i + mo_old_len op]" using assms(2) by (simp add: upt_conv_Cons)
  ultimately show ?thesis using assms(1) by (simp add: line_out_def)
qed

lemma not_inside_end:
  assumes "m i = Some op" "\<forall>j. i < j \<longrightarrow> j < i + mo_old_len op \<longrightarrow> m j = None" "\<not> inside m i"
  shows "\<not> inside m (i + mo_old_len op)"
proof
  assume "inside m (i + mo_old_len op)"
  then obtain k o' where k: "k < i + mo_old_len op" "m k = Some o'" "i + mo_old_len op < k + mo_old_len o'" by (auto simp: inside_def)
  then have "k = i \<or> k < i" using assms(2) by (metis linorder_neqE_nat option.distinct(1))
  then show False using k assms(1,3) by (auto simp: inside_def)
qed

lemma not_inside_other:
  "(\<And>k op. m k = Some op \<Longrightarrow> k + mo_old_len op \<le> i \<or> i + n \<le> k) \<Longrightarrow> 0 < n \<Longrightarrow> \<not> inside m (i + n)"
  by (fastforce simp: inside_def)

lemma merge_loop_blocks:
  assumes "blocks (length base) l" "blocks (length base) r"
    "\<And>k op k' op'. l k = Some op \<Longrightarrow> r k' = Some op' \<Longrightarrow> k + mo_old_len op \<le> k' \<or> k' + mo_old_len op' \<le> k"
    "\<And>k. l k = None \<or> r k = None"
    "i \<le> length base" "\<not> inside l i" "\<not> inside r i"
  shows "merge_loop base l r i res =
    Some (res @ concat (map (\<lambda>j. if side_changes l j then line_out base l j else line_out base r j) [i..<length base]))"
  using assms(5-7)
proof (induction "length base - i" arbitrary: i res rule: less_induct)
  case less
  let ?f = "\<lambda>j. if side_changes l j then line_out base l j else line_out base r j" and ?n = "length base"
  show ?case
  proof (cases "i < ?n")
    case False
    then show ?thesis using less.prems(1) by (subst merge_loop.simps) simp
  next
    case True
    have step: "merge_loop base l r (i + k) (res @ x) = Some ((res @ x) @ concat (map ?f [i + k..<?n]))"
      if "0 < k" "i + k \<le> ?n" "\<not> inside l (i + k)" "\<not> inside r (i + k)" for k x
      using less.hyps [of "i + k" "res @ x"] that True by simp
    consider (none) "l i = None" "r i = None" | (l) op where "l i = Some op" "r i = None" | (r) op where "l i = None" "r i = Some op"
      using assms(4) [of i] by (cases "l i"; cases "r i") auto
    then show ?thesis
    proof cases
      case none
      have "\<not> inside l (i + 1)" "\<not> inside r (i + 1)" using none less.prems(2,3) by (auto simp: inside_def less_Suc_eq)
      moreover have "?f i = [base ! i]" using none less.prems(2,3) by (simp add: side_changes_def line_out_def)
      ultimately show ?thesis using none True step [of 1 "[base ! i]"] by (simp add: merge_loop.simps [of base l r i] upt_conv_Cons)
    next
      case (l op)
      let ?k = "mo_old_len op"
      have b: "0 < ?k" "i + ?k \<le> ?n" "\<forall>j. i < j \<longrightarrow> j < i + ?k \<longrightarrow> l j = None" using assms(1) l True by (auto simp: blocks_def)
      have in_l: "\<not> inside l (i + ?k)" by (rule not_inside_end [OF l(1) b(3) less.prems(2)])
      have in_r: "\<not> inside r (i + ?k)" by (rule not_inside_other) (use assms(3) [OF l(1)] b(1) in auto)
      have "?f j = line_out base l j" if "j \<in> set [i..<i + ?k]" for j using that l(1) by (cases "j = i") (auto simp: side_changes_def inside_def)
      then have eq: "map ?f [i..<i + ?k] = map (line_out base l) [i..<i + ?k]" by (intro map_cong refl) blast
      have "concat (map ?f [i..<i + ?k]) = mo_new_lines op" unfolding eq by (rule block_out [OF l(1) b(1,3)])
      moreover have mx: "max ?k (Suc 0) = ?k" using b(1) by simp
      ultimately show ?thesis using l True b step [OF b(1,2) in_l in_r, of "mo_new_lines op"]
        by (simp add: merge_loop.simps [of base l r i] upt_block [OF b(2)] mx)
    next
      case (r op)
      let ?k = "mo_old_len op"
      have b: "0 < ?k" "i + ?k \<le> ?n" "\<forall>j. i < j \<longrightarrow> j < i + ?k \<longrightarrow> r j = None" using assms(2) r True by (auto simp: blocks_def)
      have in_r: "\<not> inside r (i + ?k)" by (rule not_inside_end [OF r(2) b(3) less.prems(3)])
      have in_l: "\<not> inside l (i + ?k)" by (rule not_inside_other) (use assms(3) [OF _ r(2)] b(1) in auto)
      have "\<not> side_changes l j" if "j \<in> set [i..<i + ?k]" for j
      proof
        assume "side_changes l j"
        then obtain k o' where k: "l k = Some o'" "k = j \<or> k < j \<and> j < k + mo_old_len o'" by (auto simp: side_changes_def inside_def)
        then have "j < k + mo_old_len o'" using that assms(1) b(2) unfolding blocks_def by fastforce
        then show False using assms(3) [OF k(1) r(2)] k(2) that less.prems(2) k(1) r(1) by (auto simp: inside_def)
      qed
      then have eq: "map ?f [i..<i + ?k] = map (line_out base r) [i..<i + ?k]" by (intro map_cong refl) simp
      have "concat (map ?f [i..<i + ?k]) = mo_new_lines op" unfolding eq by (rule block_out [OF r(2) b(1,3)])
      moreover have mx: "max ?k (Suc 0) = ?k" using b(1) by simp
      ultimately show ?thesis using r True b step [OF b(1,2) in_l in_r, of "mo_new_lines op"]
        by (simp add: merge_loop.simps [of base l r i] upt_block [OF b(2)] mx)
    qed
  qed
qed
section \<open>From operations to blocks\<close>

text \<open>\<open>plain_line\<close>: a slice of the diff and a line of the base show the same text, which is the case for every line
  that does not end with a carriage return.\<close>

definition plain_line :: "string \<Rightarrow> bool" where
  "plain_line s \<longleftrightarrow> strip_line s = trim_end_newlines s"

lemma split_inclusive_line:
  "x \<in> set (split_inclusive cur t) \<Longrightarrow> NL \<notin> set cur \<Longrightarrow> NL \<notin> set (butlast x) \<and> set x \<subseteq> set cur \<union> set t"
proof (induction t arbitrary: cur)
  case Nil
  then show ?case by (auto split: if_splits dest: in_set_butlastD)
next
  case (Cons c t)
  show ?case
  proof (cases "c = NL")
    case True
    then show ?thesis using Cons.prems Cons.IH [of "[]"] by auto
  next
    case False
    then show ?thesis using Cons.prems Cons.IH [of "cur @ [c]"] by auto
  qed
qed

lemma last_not: "c \<notin> set x \<Longrightarrow> \<not> ends_with x c"
  by (metis ends_with_def last_in_set)

lemma trim_end_newlines_last:
  assumes "NL \<notin> set (butlast x)"
  shows "trim_end_newlines x = (if ends_with x NL then butlast x else x)"
  using assms last_not [OF assms]
  by (cases x rule: rev_cases) (auto simp: trim_end_newlines_def ends_with_def dropWhile_eq_self_iff hd_rev rev_swap)

lemma cr_free_plain: "CR \<notin> set t \<Longrightarrow> \<forall>x \<in> set (split_inclusive [] t). plain_line x"
proof
  fix x assume t: "CR \<notin> set t" and x: "x \<in> set (split_inclusive [] t)"
  have x': "NL \<notin> set (butlast x)" "CR \<notin> set x" using split_inclusive_line [OF x] t by auto
  then have "\<not> ends_with (butlast x) CR" by (intro last_not) (blast dest: in_set_butlastD)
  then show "plain_line x" by (simp add: plain_line_def strip_line_def trim_end_newlines_last [OF x'(1)])
qed

lemma equal_lines:
  assumes "take n (drop i olds) = take n (drop j news)" "i + n \<le> length olds" "j + n \<le> length news" "\<forall>s \<in> set olds. plain_line s"
  shows "map ((!) (map strip_line olds)) [i..<i + n] = map trim_end_newlines (take n (drop j news))"
proof -
  have "map ((!) (map strip_line olds)) [i..<i + n] = map strip_line (take n (drop i olds))"
    using assms(2) by (intro nth_equalityI) (auto simp: nth_append)
  also have "\<dots> = map trim_end_newlines (take n (drop i olds))"
    using assms(4) by (auto simp: plain_line_def dest!: in_set_takeD in_set_dropD)
  finally show ?thesis using assms(1) by simp
qed

definition closed_before :: "(nat \<rightharpoonup> MergeOp) \<Rightarrow> nat \<Rightarrow> bool" where
  "closed_before m i \<longleftrightarrow> (\<forall>k op. m k = Some op \<longrightarrow> k < i \<and> 0 < mo_old_len op \<and> k + mo_old_len op \<le> i
     \<and> (\<forall>j. k < j \<longrightarrow> j < k + mo_old_len op \<longrightarrow> m j = None))"

lemma closed_add:
  assumes "closed_before m i" "0 < n"
  shows "closed_before (m(i \<mapsto> \<lparr>mo_old_len = n, mo_new_lines = ls\<rparr>)) (i + n)"
  unfolding closed_before_def
proof (intro allI impI)
  let ?m = "m(i \<mapsto> \<lparr>mo_old_len = n, mo_new_lines = ls\<rparr>)"
  fix k op assume k: "?m k = Some op"
  show "k < i + n \<and> 0 < mo_old_len op \<and> k + mo_old_len op \<le> i + n \<and> (\<forall>j. k < j \<longrightarrow> j < k + mo_old_len op \<longrightarrow> ?m j = None)"
  proof (cases "k = i")
    case True
    have "m j = None" if "i < j" for j using assms(1) that unfolding closed_before_def by (metis less_asym' not_None_eq)
    then show ?thesis using True k assms(2) by auto
  next
    case False
    then show ?thesis using k assms(1) unfolding closed_before_def by (fastforce split: if_splits)
  qed
qed

text \<open>The operations from old line \<open>i\<close> and new line \<open>j\<close> on give blocks, and what they leave in the place of the base
  lines is the rest of the new text.\<close>

lemma join_block:
  assumes "i + n \<le> l" "concat (map f [i..<i + n]) = map g (take k (drop j news))" "concat (map f [i + n..<l]) @ t = map g (drop (j + k) news)"
  shows "concat (map f [i..<l]) @ t = map g (drop j news)"
proof -
  have "drop j news = take k (drop j news) @ drop (j + k) news" by (metis append_take_drop_id drop_drop add.commute)
  then have "map g (drop j news) = map g (take k (drop j news)) @ map g (drop (j + k) news)" by (metis map_append)
  then show ?thesis using assms(2,3) by (simp add: upt_block [OF assms(1)])
qed

lemma add_ops_blocks:
  assumes "ops_ok olds news i j ops" "td_new_slices d = news" "\<forall>x \<in> set ops. \<not> inserts_inside (length olds) x"
    "closed_before m i" "i \<le> length olds" "\<forall>s \<in> set olds. plain_line s"
  shows "\<exists>m'. add_ops d ops m = Some m' \<and> (\<forall>k < i. m' k = m k) \<and> blocks (length olds) m'
    \<and> (\<forall>k op. m' k = Some op \<longrightarrow> k \<le> length olds)
    \<and> concat (map (line_out (map strip_line olds) m') [i..<length olds]) @ trailing m' (length olds) = map trim_end_newlines (drop j news)"
  using assms
proof (induction ops arbitrary: i j m)
  case Nil
  then have "m (length olds) = None" unfolding closed_before_def by (metis less_irrefl not_None_eq ops_ok.simps(1))
  then have "add_ops d [] m = Some m \<and> (\<forall>k < i. m k = m k) \<and> blocks (length olds) m \<and> (\<forall>k op. m k = Some op \<longrightarrow> k \<le> length olds)
    \<and> concat (map (line_out (map strip_line olds) m) [i..<length olds]) @ trailing m (length olds) = map trim_end_newlines (drop j news)"
    using Nil by (auto simp: blocks_def closed_before_def trailing_def dest: less_imp_le)
  then show ?case by blast
next
  case (Cons x ops)
  let ?n = "length olds" and ?out = "line_out (map strip_line olds)"
  have ins: "\<forall>x \<in> set ops. \<not> inserts_inside ?n x" using Cons.prems(3) by simp
  have block: ?case if a: "add_op d x m = Some (m(i \<mapsto> \<lparr>mo_old_len = n, mo_new_lines = map trim_end_newlines (take k (drop j news))\<rparr>))"
      and x: "0 < n" "i + n \<le> ?n" "ops_ok olds news (i + n) (j + k) ops" for n k
  proof -
    let ?op = "\<lparr>mo_old_len = n, mo_new_lines = map trim_end_newlines (take k (drop j news))\<rparr>"
    obtain m' where m': "add_ops d ops (m(i \<mapsto> ?op)) = Some m'" "\<forall>k < i + n. m' k = (m(i \<mapsto> ?op)) k" "blocks ?n m'" "\<forall>k op. m' k = Some op \<longrightarrow> k \<le> ?n"
        "concat (map (?out m') [i + n..<?n]) @ trailing m' ?n = map trim_end_newlines (drop (j + k) news)"
      using Cons.IH [OF x(3) Cons.prems(2) ins closed_add [OF Cons.prems(4) x(1)] x(2) Cons.prems(6)] by blast
    have "m' i = Some ?op" using m'(2) x(1) by simp
    moreover have "\<forall>l. i < l \<longrightarrow> l < i + mo_old_len ?op \<longrightarrow> m' l = None" using m'(3) calculation x by (auto simp: blocks_def)
    ultimately have "concat (map (?out m') [i..<i + n]) = map trim_end_newlines (take k (drop j news))" using block_out [of m' i ?op] x(1) by simp
    then have "concat (map (?out m') [i..<?n]) @ trailing m' ?n = map trim_end_newlines (drop j news)"
      using join_block [OF x(2) _ m'(5)] by blast
    then show ?thesis using m' a by (intro exI [of _ m']) simp
  qed
  show ?case
  proof (cases x)
    case (Equal a b n)
    then have x: "0 < n" "i + n \<le> ?n" "j + n \<le> length news" "take n (drop i olds) = take n (drop j news)" "ops_ok olds news (i + n) (j + n) ops"
      using Cons.prems(1) by auto
    have cl: "closed_before m (i + n)" using Cons.prems(4) unfolding closed_before_def by fastforce
    obtain m' where m': "add_ops d ops m = Some m'" "\<forall>k < i + n. m' k = m k" "blocks ?n m'" "\<forall>k op. m' k = Some op \<longrightarrow> k \<le> ?n"
        "concat (map (?out m') [i + n..<?n]) @ trailing m' ?n = map trim_end_newlines (drop (j + n) news)"
      using Cons.IH [OF x(5) Cons.prems(2) ins cl x(2) Cons.prems(6)] by blast
    have "?out m' k = [map strip_line olds ! k]" if "k \<in> set [i..<i + n]" for k
    proof -
      have "m' k = None" using that m'(2) Cons.prems(4) unfolding closed_before_def by (metis atLeastLessThan_iff not_None_eq set_upt linorder_not_less)
      moreover have "\<not> inside m' k" using that m'(2) Cons.prems(4) unfolding closed_before_def inside_def by fastforce
      ultimately show ?thesis by (simp add: line_out_def)
    qed
    then have "concat (map (?out m') [i..<i + n]) = map ((!) (map strip_line olds)) [i..<i + n]" by (induction n) auto
    then have "concat (map (?out m') [i..<?n]) @ trailing m' ?n = map trim_end_newlines (drop j news)"
      using join_block [OF x(2) _ m'(5)] equal_lines [OF x(4,2,3) Cons.prems(6)] by metis
    then show ?thesis using m'(1-4) Equal by (intro exI [of _ m']) simp
  next
    case (Delete a n b)
    then show ?thesis using block [of n 0] Cons.prems(1) by simp
  next
    case (Replace a n b k)
    then show ?thesis using block [of n k] Cons.prems(1,2) by (simp add: new_lines_at_def)
  next
    case (Insert a b n)
    then have x: "i = ?n" "j + n \<le> length news" "ops = [] \<or> changed_range (hd ops) = []" "ops_ok olds news i (j + n) ops" "a = i" "b = j"
      using Cons.prems(1,3,5) by auto
    then have "ops = []" by (cases ops; cases "hd ops") auto
    define m2 where "m2 = m(i \<mapsto> \<lparr>mo_old_len = 0, mo_new_lines = map trim_end_newlines (drop j news)\<rparr>)"
    have "add_ops d (x # ops) m = Some m2" using x \<open>ops = []\<close> Insert Cons.prems(2) by (simp add: new_lines_at_def m2_def)
    moreover have "\<forall>k < i. m2 k = m k" by (simp add: m2_def)
    moreover have "blocks ?n m2" using Cons.prems(4) x(1) unfolding blocks_def closed_before_def m2_def by fastforce
    moreover have "\<forall>k op. m2 k = Some op \<longrightarrow> k \<le> ?n"
      using Cons.prems(4) x(1) unfolding closed_before_def m2_def by (metis fun_upd_other less_imp_le order_refl)
    moreover have "concat (map (?out m2) [i..<?n]) @ trailing m2 ?n = map trim_end_newlines (drop j news)" using x(1) by (simp add: trailing_def m2_def)
    ultimately show ?thesis by blast
  qed
qed

lemma collect_ops_blocks:
  assumes "diff_law old new d" "n = length (str_lines old)" "\<forall>x \<in> set (td_ops d). \<not> inserts_inside n x" "CR \<notin> set old"
  shows "\<exists>m. collect_ops d = Some m \<and> blocks n m
    \<and> concat (map (line_out (str_lines old) m) [0..<n]) @ trailing m n = map trim_end_newlines (line_slices [] new)"
proof -
  have ok: "ops_ok (split_inclusive [] old) (line_slices [] new) 0 0 (td_ops d)" "td_new_slices d = line_slices [] new"
    using assms(1) line_slices_lines [OF no_lone_cr_free [OF assms(4)]] by (simp_all add: diff_law_def)
  have n: "n = length (split_inclusive [] old)" by (simp add: assms(2) str_lines_def)
  have "closed_before Map.empty 0" by (simp add: closed_before_def)
  from add_ops_blocks [OF ok assms(3) [unfolded n] this _ cr_free_plain [OF assms(4)]]
  show ?thesis unfolding n collect_ops_def str_lines_def by auto
qed

lemma no_overlap_disjoint:
  assumes "\<not> ranges_overlap (collect_changed_ranges d) (collect_changed_ranges e)" "collect_ops d = Some l" "collect_ops e = Some r"
    "l k = Some op" "r k' = Some op'"
  shows "k + mo_old_len op \<le> k' \<or> k' + mo_old_len op' \<le> k"
proof -
  obtain a where a: "a \<in> set (collect_changed_ranges d)" "cr_start a = k" "cr_end a = k + mo_old_len op"
    using add_ops_range [OF assms(2) [unfolded collect_ops_def] assms(4)] by (auto simp: collect_changed_ranges_def)
  obtain b where b: "b \<in> set (collect_changed_ranges e)" "cr_start b = k'" "cr_end b = k' + mo_old_len op'"
    using add_ops_range [OF assms(3) [unfolded collect_ops_def] assms(5)] by (auto simp: collect_changed_ranges_def)
  have "\<not> (cr_start a < range_end b \<and> cr_start b < range_end a)" using assms(1) a(1) b(1) unfolding ranges_overlap_def list_ex_iff by blast
  then show ?thesis using a b by (auto simp: range_end_def split: if_splits)
qed

section \<open>Insertions\<close>

text \<open>The loop advances by at least one line, so an insertion in front of a base line acts as the replacement of that
  line. \<open>stretched\<close> is that reading of a side's changes.\<close>

definition stretched :: "(nat \<rightharpoonup> MergeOp) \<Rightarrow> (nat \<rightharpoonup> MergeOp)" where
  "stretched m k = map_option (\<lambda>op. op\<lparr>mo_old_len := max (mo_old_len op) 1\<rparr>) (m k)"

lemma stretched_upd: "stretched (m(k \<mapsto> op)) = (stretched m)(k \<mapsto> op\<lparr>mo_old_len := max (mo_old_len op) 1\<rparr>)"
  by (auto simp: stretched_def)

lemma trailing_stretched [simp]: "trailing (stretched m) n = trailing m n"
  by (simp add: trailing_def stretched_def split: option.splits)

lemma merge_loop_stretched: "merge_loop base l r i res = merge_loop base (stretched l) (stretched r) i res"
proof (induction base l r i res rule: merge_loop.induct)
  case (1 base l r i res)
  have at: "stretched m i = (case m i of None \<Rightarrow> None | Some op \<Rightarrow> Some (op\<lparr>mo_old_len := max (mo_old_len op) 1\<rparr>))" for m
    by (simp add: stretched_def split: option.splits)
  show ?case
    unfolding merge_loop.simps [of base l r i res] merge_loop.simps [of base "stretched l" "stretched r" i res] at
    using 1 by (cases "l i"; cases "r i") simp_all
qed

text \<open>\<open>settled\<close>: the changes seen so far end at line \<open>i\<close>, except for an insertion at \<open>i\<close> which no further change follows.\<close>

definition calm :: "DiffOp list \<Rightarrow> bool" where
  "calm ops \<longleftrightarrow> ops = [] \<or> changed_range (hd ops) = []"

definition settled :: "(nat \<rightharpoonup> MergeOp) \<Rightarrow> nat \<Rightarrow> DiffOp list \<Rightarrow> bool" where
  "settled m i ops \<longleftrightarrow> (\<forall>k op. m k = Some op \<longrightarrow>
     k < i \<and> 0 < mo_old_len op \<and> k + mo_old_len op \<le> i \<and> (\<forall>j. k < j \<longrightarrow> j < k + mo_old_len op \<longrightarrow> m j = None)
     \<or> k = i \<and> mo_old_len op = 1 \<and> calm ops)"

lemma settled_block:
  assumes "settled m i (x # ops)" "\<not> calm (x # ops)" "0 < mo_old_len op"
  shows "settled (m(i \<mapsto> op)) (i + mo_old_len op) ops"
  unfolding settled_def
proof (intro allI impI)
  fix k o' assume k: "(m(i \<mapsto> op)) k = Some o'"
  have above: "m j = None" if "i \<le> j" for j using assms(1,2) that unfolding settled_def by (metis linorder_not_less not_None_eq)
  show "k < i + mo_old_len op \<and> 0 < mo_old_len o' \<and> k + mo_old_len o' \<le> i + mo_old_len op
      \<and> (\<forall>j. k < j \<longrightarrow> j < k + mo_old_len o' \<longrightarrow> (m(i \<mapsto> op)) j = None) \<or> k = i + mo_old_len op \<and> mo_old_len o' = 1 \<and> calm ops"
  proof (cases "k = i")
    case True
    then show ?thesis using k assms(3) above by auto
  next
    case False
    then have "m k = Some o'" using k by simp
    then have "k < i \<and> 0 < mo_old_len o' \<and> k + mo_old_len o' \<le> i \<and> (\<forall>j. k < j \<longrightarrow> j < k + mo_old_len o' \<longrightarrow> m j = None)"
      using assms(1,2) False unfolding settled_def by blast
    then show ?thesis by auto
  qed
qed

lemma settled_insert:
  assumes "settled m i (x # ops)" "\<not> calm (x # ops)" "calm ops" "mo_old_len op = 1"
  shows "settled (m(i \<mapsto> op)) i ops"
  unfolding settled_def
proof (intro allI impI)
  fix k o' assume k: "(m(i \<mapsto> op)) k = Some o'"
  show "k < i \<and> 0 < mo_old_len o' \<and> k + mo_old_len o' \<le> i \<and> (\<forall>j. k < j \<longrightarrow> j < k + mo_old_len o' \<longrightarrow> (m(i \<mapsto> op)) j = None)
      \<or> k = i \<and> mo_old_len o' = 1 \<and> calm ops"
  proof (cases "k = i")
    case True
    then show ?thesis using k assms(3,4) by simp
  next
    case False
    then have "m k = Some o'" using k by simp
    then have "k < i \<and> 0 < mo_old_len o' \<and> k + mo_old_len o' \<le> i \<and> (\<forall>j. k < j \<longrightarrow> j < k + mo_old_len o' \<longrightarrow> m j = None)"
      using assms(1,2) False unfolding settled_def by blast
    then show ?thesis by auto
  qed
qed

lemma settled_equal:
  assumes "settled m i ops" "0 < n"
  shows "settled m (i + n) ops'"
  unfolding settled_def
proof (intro allI impI)
  fix k op assume "m k = Some op"
  then consider "k < i \<and> 0 < mo_old_len op \<and> k + mo_old_len op \<le> i \<and> (\<forall>j. k < j \<longrightarrow> j < k + mo_old_len op \<longrightarrow> m j = None)"
    | "k = i" "mo_old_len op = 1" using assms(1) unfolding settled_def by blast
  then show "k < i + n \<and> 0 < mo_old_len op \<and> k + mo_old_len op \<le> i + n \<and> (\<forall>j. k < j \<longrightarrow> j < k + mo_old_len op \<longrightarrow> m j = None)
      \<or> k = i + n \<and> mo_old_len op = 1 \<and> calm ops'"
    by cases (use assms(2) in auto)
qed

text \<open>What the diff of a side leaves in its map: stretched blocks, and at every change of a base line the new lines of
  that operation. The line an insertion stands before is the next one of the new text.\<close>

definition recorded :: "string list \<Rightarrow> string list \<Rightarrow> (nat \<rightharpoonup> MergeOp) \<Rightarrow> DiffOp \<Rightarrow> bool" where
  "recorded olds news m x \<longleftrightarrow> (case x of
      Insert a b n \<Rightarrow> m a = Some \<lparr>mo_old_len = 0, mo_new_lines = map trim_end_newlines (take n (drop b news))\<rparr>
        \<and> (a < length olds \<longrightarrow> b + n < length news \<and> news ! (b + n) = olds ! a)
    | Replace a n b k \<Rightarrow> m a = Some \<lparr>mo_old_len = n, mo_new_lines = map trim_end_newlines (take k (drop b news))\<rparr>
    | _ \<Rightarrow> True)"

lemma equal_head:
  assumes "ops_ok olds news i j ops" "calm ops" "i < length olds"
  shows "j < length news \<and> news ! j = olds ! i"
proof -
  obtain n where n: "0 < n" "i + n \<le> length olds" "j + n \<le> length news" "take n (drop i olds) = take n (drop j news)"
  proof (cases ops)
    case Nil
    then show ?thesis using assms(1,3) by simp
  next
    case (Cons x xs)
    then show ?thesis using assms(1,2) that by (cases x) (simp_all add: calm_def, blast)
  qed
  have "news ! j = take n (drop j news) ! 0" using n(1,3) by simp
  also have "\<dots> = take n (drop i olds) ! 0" by (simp only: n(4))
  also have "\<dots> = olds ! i" using n(1,2) by simp
  finally show ?thesis using n(1,3) by simp
qed

lemma add_ops_recorded:
  assumes "ops_ok olds news i j ops" "td_new_slices d = news" "settled (stretched m) i ops" "i \<le> length olds"
  shows "\<exists>m'. add_ops d ops m = Some m' \<and> (\<forall>k. k < i \<or> k = i \<and> calm ops \<longrightarrow> m' k = m k)
    \<and> blocks (length olds) (stretched m') \<and> (\<forall>x \<in> set ops. recorded olds news m' x)"
  using assms
proof (induction ops arbitrary: i j m)
  case Nil
  then have "blocks (length olds) (stretched m)" unfolding blocks_def settled_def by (fastforce simp: calm_def)
  then show ?case by simp
next
  case (Cons x ops)
  let ?n = "length olds"
  have block: ?case if a: "add_op d x m = Some (m(i \<mapsto> op))" "\<not> calm (x # ops)" "0 < mo_old_len op" "i + mo_old_len op \<le> ?n"
      "ops_ok olds news (i + mo_old_len op) (j + k) ops" "\<And>m'. m' i = Some op \<Longrightarrow> recorded olds news m' x" for op k
  proof -
    have "op\<lparr>mo_old_len := max (mo_old_len op) 1\<rparr> = op" using a(3) by (simp add: max_def)
    then have "settled (stretched (m(i \<mapsto> op))) (i + mo_old_len op) ops"
      using settled_block [OF Cons.prems(3) a(2,3)] by (simp add: stretched_upd)
    from Cons.IH [OF a(5) Cons.prems(2) this a(4)] obtain m' where m': "add_ops d ops (m(i \<mapsto> op)) = Some m'"
        "\<forall>k. k < i + mo_old_len op \<or> k = i + mo_old_len op \<and> calm ops \<longrightarrow> m' k = (m(i \<mapsto> op)) k"
        "blocks ?n (stretched m')" "\<forall>x \<in> set ops. recorded olds news m' x" by blast
    have "m' i = Some op" using m'(2) a(3) by simp
    then show ?thesis using m' a by (intro exI [of _ m']) simp
  qed
  show ?case
  proof (cases x)
    case (Equal a b n)
    then have x: "0 < n" "i + n \<le> ?n" "ops_ok olds news (i + n) (j + n) ops" using Cons.prems(1) by auto
    from Cons.IH [OF x(3) Cons.prems(2) settled_equal [OF Cons.prems(3) x(1)] x(2)] show ?thesis
      using x(1) Equal by (fastforce simp: recorded_def)
  next
    case (Delete a n b)
    then show ?thesis using block [of "\<lparr>mo_old_len = n, mo_new_lines = []\<rparr>" 0] Cons.prems(1) by (simp add: calm_def recorded_def)
  next
    case (Replace a n b k)
    then show ?thesis
      using block [of "\<lparr>mo_old_len = n, mo_new_lines = map trim_end_newlines (take k (drop j news))\<rparr>" k] Cons.prems(1,2)
      by (simp add: calm_def recorded_def new_lines_at_def)
  next
    case (Insert a b n)
    let ?op = "\<lparr>mo_old_len = 0, mo_new_lines = map trim_end_newlines (take n (drop j news))\<rparr>"
    have x: "j + n \<le> length news" "calm ops" "ops_ok olds news i (j + n) ops" "a = i" "b = j" "\<not> calm (x # ops)"
      using Cons.prems(1) Insert by (auto simp: calm_def)
    have add: "add_op d x m = Some (m(i \<mapsto> ?op))" using x Insert Cons.prems(2) by (simp add: new_lines_at_def)
    have "settled (stretched (m(i \<mapsto> ?op))) i ops"
      unfolding stretched_upd by (rule settled_insert [OF Cons.prems(3) x(6,2)]) simp
    from Cons.IH [OF x(3) Cons.prems(2) this Cons.prems(4)] obtain m' where m': "add_ops d ops (m(i \<mapsto> ?op)) = Some m'"
        "\<forall>k. k < i \<or> k = i \<and> calm ops \<longrightarrow> m' k = (m(i \<mapsto> ?op)) k" "blocks ?n (stretched m')" "\<forall>x \<in> set ops. recorded olds news m' x" by blast
    have "m' i = Some ?op" using m'(2) x(2) by simp
    then have "recorded olds news m' x" using equal_head [OF x(3,2)] x(4,5) Insert by (simp add: recorded_def)
    then show ?thesis using m' add x(6) by (intro exI [of _ m']) simp
  qed
qed

lemma collect_ops_recorded:
  assumes "diff_law old new d" "no_lone_cr old"
  shows "\<exists>m. collect_ops d = Some m \<and> blocks (length (str_lines old)) (stretched m)
    \<and> (\<forall>x \<in> set (td_ops d). recorded (line_slices [] old) (line_slices [] new) m x)"
proof -
  have ok: "ops_ok (line_slices [] old) (line_slices [] new) 0 0 (td_ops d)" "td_new_slices d = line_slices [] new"
    using assms(1) by (simp_all add: diff_law_def)
  have "settled (stretched Map.empty) 0 (td_ops d)" by (simp add: settled_def stretched_def)
  from add_ops_recorded [OF ok this] show ?thesis
    using line_slices_lines [OF assms(2), of "[]"] by (simp add: collect_ops_def str_lines_def) blast
qed

lemma stretched_disjoint:
  assumes "\<not> ranges_overlap (collect_changed_ranges d) (collect_changed_ranges e)" "collect_ops d = Some l" "collect_ops e = Some r"
    "stretched l k = Some op" "stretched r k' = Some op'"
  shows "k + mo_old_len op \<le> k' \<or> k' + mo_old_len op' \<le> k"
proof -
  obtain o1 o2 where o: "l k = Some o1" "r k' = Some o2" "mo_old_len op = max (mo_old_len o1) 1" "mo_old_len op' = max (mo_old_len o2) 1"
    using assms(4,5) by (auto simp: stretched_def)
  obtain a where a: "a \<in> set (collect_changed_ranges d)" "cr_start a = k" "cr_end a = k + mo_old_len o1"
    using add_ops_range [OF assms(2) [unfolded collect_ops_def] o(1)] by (auto simp: collect_changed_ranges_def)
  obtain b where b: "b \<in> set (collect_changed_ranges e)" "cr_start b = k'" "cr_end b = k' + mo_old_len o2"
    using add_ops_range [OF assms(3) [unfolded collect_ops_def] o(2)] by (auto simp: collect_changed_ranges_def)
  have "\<not> (cr_start a < range_end b \<and> cr_start b < range_end a)" using assms(1) a(1) b(1) unfolding ranges_overlap_def list_ex_iff by blast
  then show ?thesis using a b o(3,4) by (auto simp: range_end_def max_def split: if_splits)
qed

text \<open>The merge of any two texts whose changes do not overlap, line by line.\<close>

definition merged_line :: "string list \<Rightarrow> (nat \<rightharpoonup> MergeOp) \<Rightarrow> (nat \<rightharpoonup> MergeOp) \<Rightarrow> nat \<Rightarrow> string list" where
  "merged_line base l r i =
     (if side_changes (stretched l) i then line_out base (stretched l) i else line_out base (stretched r) i)"

definition merged_text :: "string \<Rightarrow> string list \<Rightarrow> string" where
  "merged_text b ls = join_newline ls @ (if ends_with b NL then [NL] else [])"

lemma text_merge_any:
  assumes base: "from_utf8_ok base" "b = of_bytes base" "n = length (str_lines b)" "no_lone_cr b"
    and sides: "\<And>s. s \<in> {local, remote} \<Longrightarrow> from_utf8_ok s \<and> diff_law b (of_bytes s) (diff b (of_bytes s))"
    and no: "\<not> ranges_overlap (collect_changed_ranges (diff b (of_bytes local))) (collect_changed_ranges (diff b (of_bytes remote)))"
    and l: "collect_ops (diff b (of_bytes local)) = Some l" and r: "collect_ops (diff b (of_bytes remote)) = Some r"
  shows "three_way_text_merge diff base local remote =
      Some (Merged (as_bytes (merged_text b (concat (map (merged_line (str_lines b) l r) [0..<n]) @ trailing l n @ trailing r n))))"
proof -
  let ?base = "str_lines b"
  note s = sides [of local, simplified] sides [of remote, simplified]
  have bl: "blocks n (stretched l)" using collect_ops_recorded [OF conjunct2 [OF s(1)] base(4)] l base(3) by auto
  have br: "blocks n (stretched r)" using collect_ops_recorded [OF conjunct2 [OF s(2)] base(4)] r base(3) by auto
  have one: "stretched l k = None \<or> stretched r k = None" for k
    using both_trailing_overlap [OF l r] no by (cases "l k"; cases "r k") (auto simp: stretched_def)
  note dis = stretched_disjoint [OF no l r]
  have "merge_loop ?base (stretched l) (stretched r) 0 [] = Some ([] @ concat (map (\<lambda>j. if side_changes (stretched l) j
      then line_out ?base (stretched l) j else line_out ?base (stretched r) j) [0..<length ?base]))"
    by (rule merge_loop_blocks) (use bl br base(3) dis one in \<open>auto simp: inside_def\<close>)
  then have "merge_loop ?base l r 0 [] = Some (concat (map (merged_line ?base l r) [0..<n]))"
    using merge_loop_stretched [of ?base l r 0 "[]"] by (simp add: merged_line_def [abs_def] base(3))
  then have "apply_non_overlapping_changes b l r =
      Some (merged_text b (concat (map (merged_line ?base l r) [0..<n]) @ trailing l n @ trailing r n))"
    unfolding apply_non_overlapping_changes_def Let_def base(3) by (simp add: merged_text_def)
  moreover have "from_utf8_lossy base = base" "from_utf8_lossy local = local" "from_utf8_lossy remote = remote"
    using base(1) s by (simp_all add: from_utf8_lossy_valid)
  ultimately show ?thesis using no l r unfolding three_way_text_merge_def Let_def by (simp add: base(2) [symmetric])
qed

section \<open>Properties\<close>

text \<open>A line that both sides change is an overlap.\<close>

lemma one_side_changes:
  assumes "blocks n l" "blocks n r" "i < n"
    "\<And>k op k' op'. l k = Some op \<Longrightarrow> r k' = Some op' \<Longrightarrow> k + mo_old_len op \<le> k' \<or> k' + mo_old_len op' \<le> k"
  shows "\<not> (side_changes l i \<and> side_changes r i)"
proof
  assume "side_changes l i \<and> side_changes r i"
  moreover have "\<exists>k op. m k = Some op \<and> k \<le> i \<and> i < k + mo_old_len op" if "blocks n m" "side_changes m i" for m
    using that assms(3) by (fastforce simp: blocks_def side_changes_def inside_def)
  ultimately obtain k op k' op' where "l k = Some op" "k \<le> i" "i < k + mo_old_len op" "r k' = Some op'" "k' \<le> i" "i < k' + mo_old_len op'"
    using assms(1,2) by meson
  then show False using assms(4) by fastforce
qed

text \<open>(C20) A text merge without overlap takes every base line from the side that changed it. When no side inserts
  lines between two base lines and the base has no carriage return, the merge succeeds. With the
  operations \<open>l\<close> and \<open>r\<close> collected from the two diffs, its lines are, for each base line, what the changing side
  left in its place (the base line itself if no side changed it), followed by the lines appended at the
  end. No base line is changed by both sides, and each side's own text is made up of its operations in
  the same way, so no change of either side is lost.\<close>

theorem text_merge_linewise:
  assumes base: "from_utf8_ok base" "b = of_bytes base" "n = length (str_lines b)" "CR \<notin> set b"
    and sides: "\<And>s. s \<in> {local, remote} \<Longrightarrow> from_utf8_ok s \<and> diff_law b (of_bytes s) (diff b (of_bytes s))
      \<and> (\<forall>x \<in> set (td_ops (diff b (of_bytes s))). \<not> inserts_inside n x)"
    and "\<not> ranges_overlap (collect_changed_ranges (diff b (of_bytes local))) (collect_changed_ranges (diff b (of_bytes remote)))"
  shows "\<exists>l r. collect_ops (diff b (of_bytes local)) = Some l \<and> collect_ops (diff b (of_bytes remote)) = Some r
    \<and> three_way_text_merge diff base local remote =
      Some (Merged (as_bytes (merged_text b
        (concat (map (\<lambda>i. if side_changes l i then line_out (str_lines b) l i else line_out (str_lines b) r i) [0..<n])
          @ trailing l n @ trailing r n))))
    \<and> (\<forall>i < n. \<not> (side_changes l i \<and> side_changes r i))
    \<and> concat (map (line_out (str_lines b) l) [0..<n]) @ trailing l n = map trim_end_newlines (line_slices [] (of_bytes local))
    \<and> concat (map (line_out (str_lines b) r) [0..<n]) @ trailing r n = map trim_end_newlines (line_slices [] (of_bytes remote))"
proof -
  let ?d = "diff b (of_bytes local)" and ?e = "diff b (of_bytes remote)" and ?base = "str_lines b"
  note s = sides [of local, simplified] sides [of remote, simplified]
  obtain l where l: "collect_ops ?d = Some l" "blocks n l" "concat (map (line_out ?base l) [0..<n]) @ trailing l n = map trim_end_newlines (line_slices [] (of_bytes local))"
    using collect_ops_blocks [OF conjunct1 [OF conjunct2 [OF s(1)]] base(3) conjunct2 [OF conjunct2 [OF s(1)]] base(4)] by blast
  obtain r where r: "collect_ops ?e = Some r" "blocks n r" "concat (map (line_out ?base r) [0..<n]) @ trailing r n = map trim_end_newlines (line_slices [] (of_bytes remote))"
    using collect_ops_blocks [OF conjunct1 [OF conjunct2 [OF s(2)]] base(3) conjunct2 [OF conjunct2 [OF s(2)]] base(4)] by blast
  note dis = no_overlap_disjoint [OF assms(6) l(1) r(1)]
  have one: "l k = None \<or> r k = None" for k using both_trailing_overlap [OF l(1) r(1)] assms(6) by (cases "l k"; cases "r k") auto
  have "merge_loop ?base l r 0 [] = Some ([] @ concat (map (\<lambda>j. if side_changes l j then line_out ?base l j else line_out ?base r j) [0..<length ?base]))"
    by (rule merge_loop_blocks) (use l(2) r(2) base(3) dis one in \<open>auto simp: inside_def\<close>)
  then have "apply_non_overlapping_changes b l r = Some (merged_text b (concat (map (\<lambda>i. if side_changes l i then line_out ?base l i else line_out ?base r i) [0..<n])
      @ trailing l n @ trailing r n))"
    unfolding apply_non_overlapping_changes_def Let_def base(3) by (simp add: merged_text_def)
  moreover have "from_utf8_lossy base = base" "from_utf8_lossy local = local" "from_utf8_lossy remote = remote"
    using base(1) s by (simp_all add: from_utf8_lossy_valid)
  ultimately have "three_way_text_merge diff base local remote = Some (Merged (as_bytes (merged_text b (concat (map (\<lambda>i. if side_changes l i then line_out ?base l i else line_out ?base r i) [0..<n])
      @ trailing l n @ trailing r n))))"
    using assms(6) l(1) r(1) unfolding three_way_text_merge_def Let_def by (simp add: base(2) [symmetric])
  moreover have "\<forall>i < n. \<not> (side_changes l i \<and> side_changes r i)" using one_side_changes [OF l(2) r(2) _ dis] by blast
  ultimately show ?thesis using l(1,3) r(1,3) by blast
qed

text \<open>Concrete diffs for the witnesses.\<close>

definition diff_table :: "(string \<times> DiffOp list) list \<Rightarrow> string \<Rightarrow> string \<Rightarrow> TextDiff" where
  "diff_table t old new = \<lparr>td_ops = (case map_of t new of Some ops \<Rightarrow> ops | None \<Rightarrow> []), td_new_slices = line_slices [] new\<rparr>"

lemma ascii_text: "\<forall>c \<in> set s. unat (of_char c :: byte) < 128 \<Longrightarrow> from_utf8_ok (as_bytes s)"
  by (intro from_utf8_ok_ascii) (simp add: as_bytes_def)

lemma inside_upto: "inside m i \<longleftrightarrow> list_ex (\<lambda>k. case m k of Some op \<Rightarrow> i < k + mo_old_len op | None \<Rightarrow> False) [0..<i]"
  by (auto simp: inside_def list_ex_iff split: option.splits)

theorem text_merge_linewise_witness:
  "let base = [CHR ''a'', NL, CHR ''b'', NL]; local = [CHR ''x'', NL, CHR ''b'', NL]; remote = base @ [CHR ''c'', NL];
       diff = diff_table [(local, [Replace 0 1 0 1, Equal 1 1 1]), (remote, [Equal 0 0 2, Insert 2 2 1])] in
   diff_law base local (diff base local) \<and> diff_law base remote (diff base remote)
   \<and> three_way_text_merge diff (as_bytes base) (as_bytes local) (as_bytes remote) =
       Some (Merged (as_bytes [CHR ''x'', NL, CHR ''b'', NL, CHR ''c'', NL]))"
proof -
  let ?base = "[CHR ''a'', NL, CHR ''b'', NL]" and ?local = "[CHR ''x'', NL, CHR ''b'', NL]" and ?remote = "[CHR ''a'', NL, CHR ''b'', NL, CHR ''c'', NL]"
  let ?diff = "diff_table [(?local, [Replace 0 1 0 1, Equal 1 1 1]), (?remote, [Equal 0 0 2, Insert 2 2 1])]"
  have utf: "from_utf8_ok (as_bytes ?base)" "from_utf8_ok (as_bytes ?local)" "from_utf8_ok (as_bytes ?remote)" by (simp_all add: ascii_text)
  have cr: "CR \<notin> set ?base" by simp
  have law: "diff_law ?base ?local (?diff ?base ?local)" "diff_law ?base ?remote (?diff ?base ?remote)"
    by (simp_all add: diff_law_def diff_table_def)
  have sides: "from_utf8_ok s \<and> diff_law ?base (of_bytes s) (?diff ?base (of_bytes s)) \<and> (\<forall>x \<in> set (td_ops (?diff ?base (of_bytes s))). \<not> inserts_inside 2 x)"
    if "s \<in> {as_bytes ?local, as_bytes ?remote}" for s
    using that utf law by (auto simp: diff_table_def)
  have no: "\<not> ranges_overlap (collect_changed_ranges (?diff ?base (of_bytes (as_bytes ?local)))) (collect_changed_ranges (?diff ?base (of_bytes (as_bytes ?remote))))"
    by (simp add: ranges_overlap_def collect_changed_ranges_def diff_table_def range_end_def)
  have n: "2 = length (str_lines ?base)" and b: "?base = of_bytes (as_bytes ?base)" by (simp_all add: str_lines_def)
  have lines: "str_lines ?base = [''a'', ''b'']" by (simp add: str_lines_def strip_line_def ends_with_def)
  have upt: "[0..<2::nat] = [0, 1]" by code_simp
  from text_merge_linewise [where diff = ?diff, OF utf(1) b n cr sides no] show ?thesis
    using law
    by (auto simp: diff_table_def collect_ops_def new_lines_at_def trim_end_newlines_def lines upt side_changes_def inside_upto line_out_def trailing_def
        merged_text_def ends_with_def)
qed
lemma upt_at: "k < n \<Longrightarrow> [0..<n] = [0..<k] @ k # [Suc k..<n]"
  using upt_add_eq_append [of 0 k "n - k"] by (simp add: upt_conv_Cons)

lemma merged_line_local: "l k = Some op \<Longrightarrow> merged_line base l r k = mo_new_lines op"
  by (simp add: merged_line_def side_changes_def line_out_def stretched_def)

text \<open>(C22) An insertion in front of a base line removes that line. For any three texts whose changes do not overlap
  and any insertion of one side before base line \<open>k\<close>: that side still has line \<open>k\<close>, right after the inserted
  lines, but the merged text has in the place of line \<open>k\<close> the inserted lines only, since the loop advances
  past a base line even when the operation replaces none.\<close>

theorem text_merge_drops_line:
  assumes base: "from_utf8_ok base" "b = of_bytes base" "n = length (str_lines b)" "no_lone_cr b"
    and sides: "\<And>s. s \<in> {local, remote} \<Longrightarrow> from_utf8_ok s \<and> diff_law b (of_bytes s) (diff b (of_bytes s))"
    and no: "\<not> ranges_overlap (collect_changed_ranges (diff b (of_bytes local))) (collect_changed_ranges (diff b (of_bytes remote)))"
    and ins: "Insert k j m \<in> set (td_ops (diff b (of_bytes local)))" "k < n"
  shows "\<exists>l r. collect_ops (diff b (of_bytes local)) = Some l \<and> collect_ops (diff b (of_bytes remote)) = Some r
    \<and> line_slices [] (of_bytes local) ! (j + m) = line_slices [] b ! k
    \<and> three_way_text_merge diff base local remote = Some (Merged (as_bytes (merged_text b
        (concat (map (merged_line (str_lines b) l r) [0..<k])
         @ map trim_end_newlines (take m (drop j (line_slices [] (of_bytes local))))
         @ concat (map (merged_line (str_lines b) l r) [Suc k..<n]) @ trailing l n @ trailing r n))))"
proof -
  obtain l where l: "collect_ops (diff b (of_bytes local)) = Some l"
      "recorded (line_slices [] b) (line_slices [] (of_bytes local)) l (Insert k j m)"
    using collect_ops_recorded [OF conjunct2 [OF sides] base(4), of local] ins(1) by auto
  obtain r where r: "collect_ops (diff b (of_bytes remote)) = Some r"
    using collect_ops_recorded [OF conjunct2 [OF sides] base(4), of remote] by auto
  have n: "n = length (line_slices [] b)" using line_slices_lines [OF base(4), of "[]"] base(3) by (simp add: str_lines_def)
  have "merged_line (str_lines b) l r k = map trim_end_newlines (take m (drop j (line_slices [] (of_bytes local))))"
    using l(2) by (simp add: recorded_def merged_line_local)
  moreover have "line_slices [] (of_bytes local) ! (j + m) = line_slices [] b ! k" using l(2) ins(2) n by (simp add: recorded_def)
  ultimately show ?thesis
    using text_merge_any [where diff = diff, OF base sides no l(1) r] l(1) r by (simp add: upt_at [OF ins(2)])
qed

theorem text_merge_drops_line_witness:
  "let base = [CHR ''a'', NL, CHR ''b'', NL]; local = [CHR ''a'', NL, CHR ''x'', NL, CHR ''b'', NL]; remote = base @ [CHR ''c'', NL];
       diff = diff_table [(local, [Equal 0 0 1, Insert 1 1 1, Equal 1 2 1]), (remote, [Equal 0 0 2, Insert 2 2 1])] in
   diff_law base local (diff base local) \<and> diff_law base remote (diff base remote)
   \<and> three_way_text_merge diff (as_bytes base) (as_bytes local) (as_bytes remote) =
       Some (Merged (as_bytes [CHR ''a'', NL, CHR ''x'', NL, CHR ''c'', NL]))"
proof -
  let ?base = "[CHR ''a'', NL, CHR ''b'', NL]" and ?local = "[CHR ''a'', NL, CHR ''x'', NL, CHR ''b'', NL]" and ?remote = "[CHR ''a'', NL, CHR ''b'', NL, CHR ''c'', NL]"
  let ?diff = "diff_table [(?local, [Equal 0 0 1, Insert 1 1 1, Equal 1 2 1]), (?remote, [Equal 0 0 2, Insert 2 2 1])]"
  have utf: "from_utf8_ok (as_bytes ?base)" "from_utf8_ok (as_bytes ?local)" "from_utf8_ok (as_bytes ?remote)" by (simp_all add: ascii_text)
  have cr: "no_lone_cr ?base" by simp
  have law: "diff_law ?base ?local (?diff ?base ?local)" "diff_law ?base ?remote (?diff ?base ?remote)"
    by (simp_all add: diff_law_def diff_table_def)
  have sides: "from_utf8_ok s \<and> diff_law ?base (of_bytes s) (?diff ?base (of_bytes s))"
    if "s \<in> {as_bytes ?local, as_bytes ?remote}" for s using that utf law by auto
  have no: "\<not> ranges_overlap (collect_changed_ranges (?diff ?base (of_bytes (as_bytes ?local)))) (collect_changed_ranges (?diff ?base (of_bytes (as_bytes ?remote))))"
    by (simp add: ranges_overlap_def collect_changed_ranges_def diff_table_def range_end_def)
  have n: "2 = length (str_lines ?base)" and b: "?base = of_bytes (as_bytes ?base)" by (simp_all add: str_lines_def)
  have lines: "str_lines ?base = [''a'', ''b'']" by (simp add: str_lines_def strip_line_def ends_with_def)
  have ins: "Insert 1 1 1 \<in> set (td_ops (?diff ?base (of_bytes (as_bytes ?local))))" by (simp add: diff_table_def)
  from text_merge_drops_line [where diff = ?diff, OF utf(1) b n cr sides no ins] show ?thesis
    using law
    by (auto simp: diff_table_def collect_ops_def new_lines_at_def trim_end_newlines_def lines side_changes_def inside_upto line_out_def trailing_def
        merged_text_def merged_line_def stretched_def ends_with_def)
qed

text \<open>(C23) The merge rewrites line endings. For any three texts whose changes do not overlap: a base line ending in
  CRLF that no side touches comes out without its carriage return, while a line ending in CRLF that a
  replacement of one side brings in keeps it, so a text with CRLF line ends comes out with both kinds.\<close>

theorem text_merge_mixes_line_ends:
  assumes base: "from_utf8_ok base" "b = of_bytes base" "n = length (str_lines b)" "no_lone_cr b"
    and sides: "\<And>s. s \<in> {local, remote} \<Longrightarrow> from_utf8_ok s \<and> diff_law b (of_bytes s) (diff b (of_bytes s))"
    and no: "\<not> ranges_overlap (collect_changed_ranges (diff b (of_bytes local))) (collect_changed_ranges (diff b (of_bytes remote)))"
    and ops: "collect_ops (diff b (of_bytes local)) = Some l" "collect_ops (diff b (of_bytes remote)) = Some r"
    and line: "i < n" "line_slices [] b ! i = u @ [CR, NL]" "\<not> side_changes (stretched l) i" "\<not> side_changes (stretched r) i"
    and new: "Replace k p j q \<in> set (td_ops (diff b (of_bytes local)))" "0 < q" "j < length (line_slices [] (of_bytes local))"
      "line_slices [] (of_bytes local) ! j = v @ [CR, NL]"
  shows "three_way_text_merge diff base local remote = Some (Merged (as_bytes (merged_text b
        (concat (map (merged_line (str_lines b) l r) [0..<n]) @ trailing l n @ trailing r n))))
    \<and> merged_line (str_lines b) l r i = [u]
    \<and> (\<exists>rest. merged_line (str_lines b) l r k = (v @ [CR]) # rest)"
proof -
  let ?new = "line_slices [] (of_bytes local)"
  have "i < length (split_inclusive [] b)" "split_inclusive [] b ! i = u @ [CR, NL]"
    using line(1,2) base(3) line_slices_lines [OF base(4), of "[]"] by (simp_all add: str_lines_def)
  then have "str_lines b ! i = strip_line (u @ [CR, NL])" by (simp add: str_lines_def)
  also have "\<dots> = u" by (simp add: strip_line_def ends_with_def butlast_append)
  finally have "merged_line (str_lines b) l r i = [u]"
    using line(3,4) by (simp add: merged_line_def line_out_def side_changes_def)
  moreover have "l k = Some \<lparr>mo_old_len = p, mo_new_lines = map trim_end_newlines (take q (drop j ?new))\<rparr>"
    using collect_ops_recorded [OF conjunct2 [OF sides] base(4), of local] new(1) ops(1) by (fastforce simp: recorded_def)
  moreover have "take q (drop j ?new) = (v @ [CR, NL]) # take (q - 1) (drop (Suc j) ?new)"
    using new(2-4) by (cases q) (simp_all add: Cons_nth_drop_Suc [symmetric])
  moreover have "trim_end_newlines (v @ [CR, NL]) = v @ [CR]" by (simp add: trim_end_newlines_def)
  ultimately show ?thesis using text_merge_any [where diff = diff, OF base sides no ops] by (simp add: merged_line_local)
qed

theorem text_merge_mixes_line_ends_witness:
  "let base = [CHR ''a'', CR, NL, CHR ''b'', CR, NL]; local = [CHR ''x'', CR, NL, CHR ''b'', CR, NL]; remote = base @ [CHR ''c'', CR, NL];
       diff = diff_table [(local, [Replace 0 1 0 1, Equal 1 1 1]), (remote, [Equal 0 0 2, Insert 2 2 1])] in
   diff_law base local (diff base local) \<and> diff_law base remote (diff base remote)
   \<and> three_way_text_merge diff (as_bytes base) (as_bytes local) (as_bytes remote) =
       Some (Merged (as_bytes [CHR ''x'', CR, NL, CHR ''b'', NL, CHR ''c'', CR, NL]))"
proof -
  let ?base = "[CHR ''a'', CR, NL, CHR ''b'', CR, NL]" and ?local = "[CHR ''x'', CR, NL, CHR ''b'', CR, NL]"
    and ?remote = "[CHR ''a'', CR, NL, CHR ''b'', CR, NL, CHR ''c'', CR, NL]"
  let ?diff = "diff_table [(?local, [Replace 0 1 0 1, Equal 1 1 1]), (?remote, [Equal 0 0 2, Insert 2 2 1])]"
  let ?l = "[0 \<mapsto> \<lparr>mo_old_len = 1, mo_new_lines = [[CHR ''x'', CR]]\<rparr>]" and ?r = "[2 \<mapsto> \<lparr>mo_old_len = 0, mo_new_lines = [[CHR ''c'', CR]]\<rparr>]"
  have utf: "from_utf8_ok (as_bytes ?base)" "from_utf8_ok (as_bytes ?local)" "from_utf8_ok (as_bytes ?remote)" by (simp_all add: ascii_text)
  have cr: "no_lone_cr ?base" by simp
  have law: "diff_law ?base ?local (?diff ?base ?local)" "diff_law ?base ?remote (?diff ?base ?remote)"
    by (simp_all add: diff_law_def diff_table_def)
  have sides: "from_utf8_ok s \<and> diff_law ?base (of_bytes s) (?diff ?base (of_bytes s))"
    if "s \<in> {as_bytes ?local, as_bytes ?remote}" for s using that utf law by auto
  have no: "\<not> ranges_overlap (collect_changed_ranges (?diff ?base (of_bytes (as_bytes ?local)))) (collect_changed_ranges (?diff ?base (of_bytes (as_bytes ?remote))))"
    by (simp add: ranges_overlap_def collect_changed_ranges_def diff_table_def range_end_def)
  have n: "2 = length (str_lines ?base)" and b: "?base = of_bytes (as_bytes ?base)" by (simp_all add: str_lines_def)
  have ops: "collect_ops (?diff ?base (of_bytes (as_bytes ?local))) = Some ?l" "collect_ops (?diff ?base (of_bytes (as_bytes ?remote))) = Some ?r"
    by (simp_all add: collect_ops_def diff_table_def new_lines_at_def trim_end_newlines_def)
  have line: "(1::nat) < 2" "line_slices [] ?base ! 1 = ''b'' @ [CR, NL]" "\<not> side_changes (stretched ?l) 1" "\<not> side_changes (stretched ?r) 1"
    by (simp_all add: side_changes_def inside_upto stretched_def)
  have new: "Replace 0 1 0 1 \<in> set (td_ops (?diff ?base (of_bytes (as_bytes ?local))))" "(0::nat) < 1"
      "0 < length (line_slices [] (of_bytes (as_bytes ?local)))" "line_slices [] (of_bytes (as_bytes ?local)) ! 0 = ''x'' @ [CR, NL]"
    by (simp_all add: diff_table_def)
  have upt: "[0..<2::nat] = [0, 1]" by code_simp
  have "merged_line (str_lines ?base) ?l ?r 0 = [[CHR ''x'', CR]]" by (simp add: merged_line_local)
  then show ?thesis
    using text_merge_mixes_line_ends [where diff = ?diff, OF utf(1) b n cr sides no ops line new] law
    by (simp add: upt trailing_def merged_text_def ends_with_def)
qed

end
