(* ===== verification/Btree.thy ===== *)
theory Btree
  imports Prelude
begin

text \<open>
  Rust's \<open>BTreeMap\<close>, as the code uses it: an association list with strictly increasing keys,
  iterated in key order. \<open>btree_update k d f\<close> is \<open>entry(k).or_insert(d)\<close> followed by the update
  \<open>f\<close> of the value; insertion and removal are the usual ones. \<open>bt_find\<close> is also what
  \<open>binary_search_by\<close> gives on a slice that is strictly sorted by its keys.
\<close>

type_synonym ('k, 'v) btree = "('k \<times> 'v) list"

abbreviation bt_ok :: "('k :: linorder, 'v) btree \<Rightarrow> bool" where
  "bt_ok t \<equiv> strict_by fst t"

fun btree_update :: "'k :: linorder \<Rightarrow> 'v \<Rightarrow> ('v \<Rightarrow> 'v) \<Rightarrow> ('k, 'v) btree \<Rightarrow> ('k, 'v) btree" where
  "btree_update k d f [] = [(k, f d)]"
| "btree_update k d f ((k', v) # t) =
     (if k = k' then (k', f v) # t
      else if k < k' then (k, f d) # (k', v) # t
      else (k', v) # btree_update k d f t)"

definition btree_insert :: "'k :: linorder \<Rightarrow> 'v \<Rightarrow> ('k, 'v) btree \<Rightarrow> ('k, 'v) btree" where
  "btree_insert k v t = btree_update k v (\<lambda>_. v) t"

definition btree_remove :: "'k :: linorder \<Rightarrow> ('k, 'v) btree \<Rightarrow> ('k, 'v) btree" where
  "btree_remove k t = filter (\<lambda>(k', v). k' \<noteq> k) t"

lemma btree_update_keys: "fst ` set (btree_update k d f t) = insert k (fst ` set t)"
  by (induction k d f t rule: btree_update.induct) (simp_all add: insert_commute)

lemma btree_update_ok: "bt_ok t \<Longrightarrow> bt_ok (btree_update k d f t)"
proof (induction t)
  case (Cons kv t)
  obtain k' v where kv: "kv = (k', v)" by (cases kv)
  have "\<forall>x \<in> set (btree_update k d f t). k' < fst x" if "k' < k"
    using Cons.prems kv that btree_update_keys [of k d f t] by force
  with Cons kv show ?case by fastforce
qed simp

lemma map_of_btree_update:
  "bt_ok t \<Longrightarrow> map_of (btree_update k d f t) =
     (map_of t)(k \<mapsto> f (case map_of t k of None \<Rightarrow> d | Some v \<Rightarrow> v))"
proof (induction t)
  case (Cons kv t)
  obtain k' v where kv: "kv = (k', v)" by (cases kv)
  have "map_of t k = None" if "k < k'"
    using Cons.prems kv that by (force simp: map_of_eq_None_iff)
  with Cons kv show ?case by (auto simp: fun_eq_iff)
qed simp

lemma btree_insert_ok: "bt_ok t \<Longrightarrow> bt_ok (btree_insert k v t)"
  by (simp add: btree_insert_def btree_update_ok)

lemma map_of_btree_insert: "bt_ok t \<Longrightarrow> map_of (btree_insert k v t) = (map_of t)(k \<mapsto> v)"
  by (simp add: btree_insert_def map_of_btree_update)

lemma btree_remove_ok: "bt_ok t \<Longrightarrow> bt_ok (btree_remove k t)"
  unfolding btree_remove_def by (rule strict_by_filter)

lemma map_of_btree_remove: "map_of (btree_remove k t) = (map_of t)(k := None)"
  unfolding btree_remove_def by (induction t) (auto simp: fun_eq_iff)

lemma index_by_fst: "index_by fst t k = map_option (\<lambda>v. (k, v)) (map_of t k)"
  by (induction t) auto

text \<open>Two maps with the same lookups are the same list.\<close>

lemma bt_eqI: "bt_ok t \<Longrightarrow> bt_ok u \<Longrightarrow> map_of t = map_of u \<Longrightarrow> t = u"
proof -
  assume ok: "bt_ok t" "bt_ok u" and eq: "map_of t = map_of u"
  have "index_by fst t = index_by fst u" by (rule ext) (simp add: index_by_fst eq)
  with ok show "t = u" by (rule strict_by_same_map)
qed

lemma bt_ok_distinct: "bt_ok t \<Longrightarrow> distinct (map fst t)"
  by (rule strict_by_distinct)

text \<open>The first position whose key is not smaller: where the key is, or where it belongs.\<close>

definition bt_find :: "'k :: linorder \<Rightarrow> ('k, 'v) btree \<Rightarrow> nat + nat" where
  "bt_find k t =
     (let i = length (takeWhile (\<lambda>(k', v). k' < k) t) in
      if i < length t \<and> fst (t ! i) = k then Inr i else Inl i)"

lemma bt_split:
  assumes "bt_ok t"
  obtains l r where "t = l @ r" "length l = length (takeWhile (\<lambda>(k', v). k' < k) t)"
    "\<forall>x \<in> set l. fst x < k" "\<forall>x \<in> set r. k \<le> fst x"
proof -
  let ?P = "\<lambda>(k', v). k' < k"
  have "\<forall>x \<in> set (dropWhile ?P t). k \<le> fst x"
  proof (cases "dropWhile ?P t")
    case (Cons y ys)
    then have t: "t = takeWhile ?P t @ y # ys" by (metis takeWhile_dropWhile_id)
    have "\<not> ?P y" using hd_dropWhile [of ?P t] Cons by auto
    then have "k \<le> fst y" by (auto split: prod.splits)
    moreover have "\<forall>x \<in> set ys. fst y < fst x"
      using assms arg_cong [OF t, of "strict_by fst"] by (simp add: sorted_wrt_append)
    ultimately show ?thesis using Cons by fastforce
  next
    case Nil
    then show ?thesis by (simp only: Nil) simp
  qed
  moreover have "\<forall>x \<in> set (takeWhile ?P t). fst x < k" by (auto dest: set_takeWhileD)
  ultimately show thesis using that [of "takeWhile ?P t" "dropWhile ?P t"] by simp
qed

lemma map_of_append_below: "\<forall>x \<in> set l. fst x < k \<Longrightarrow> map_of (l @ r) k = map_of r (k :: 'k :: linorder)"
  by (induction l) (auto simp: map_add_def)

lemma bt_find_cases [consumes 1, case_names absent present]:
  assumes "bt_ok t"
  obtains l r where "t = l @ r" "bt_find k t = Inl (length l)" "map_of t k = None"
    "\<forall>x \<in> set l. fst x < k" "\<forall>x \<in> set r. k < fst x"
  | l v r where "t = l @ (k, v) # r" "bt_find k t = Inr (length l)" "map_of t k = Some v"
    "\<forall>x \<in> set l. fst x < k" "\<forall>x \<in> set r. k < fst x"
proof -
  obtain l r where t: "t = l @ r" "length l = length (takeWhile (\<lambda>(k', v). k' < k) t)"
      "\<forall>x \<in> set l. fst x < k" "\<forall>x \<in> set r. k \<le> fst x"
    using bt_split [OF assms] by metis
  have look: "map_of t k = map_of r k" using map_of_append_below [OF t(3), of r] t(1) by simp
  show thesis
  proof (cases "r \<noteq> [] \<and> fst (hd r) = k")
    case True
    then obtain v r' where r: "r = (k, v) # r'" by (cases r) auto
    have "\<forall>x \<in> set r'. k < fst x" using assms t(1) r by (simp add: sorted_wrt_append)
    moreover have "bt_find k t = Inr (length l)"
      unfolding bt_find_def Let_def t(2) [symmetric] using t(1) r by simp
    ultimately show thesis using that(2) [of l v r'] t look r by simp
  next
    case False
    have "k < fst x" if "x \<in> set r" for x
    proof (cases r)
      case (Cons y ys)
      then have "k < fst y" using False t(4) by force
      moreover have "x = y \<or> fst y < fst x" using that Cons assms t(1) by (auto simp: sorted_wrt_append)
      ultimately show ?thesis by force
    qed (use that in simp)
    then have above: "\<forall>x \<in> set r. k < fst x" by blast
    then have "map_of r k = None" by (force simp: map_of_eq_None_iff)
    moreover have "bt_find k t = Inl (length l)"
      unfolding bt_find_def Let_def t(2) [symmetric] using False t(1) by (auto simp: hd_conv_nth nth_append)
    ultimately show thesis using that(1) t look above by metis
  qed
qed

lemmas btree_simps = map_of_btree_update map_of_btree_insert map_of_btree_remove

text \<open>A \<open>HashMap\<close> collected from pairs: a later pair replaces an earlier one.\<close>

definition collect_pairs :: "('k \<times> 'v) list \<Rightarrow> 'k \<rightharpoonup> 'v" where
  "collect_pairs kvs = map_of (rev kvs)"

lemma collect_pairs_ok: "bt_ok cs \<Longrightarrow> collect_pairs cs = map_of cs"
  using map_of_inject_set [of "rev cs" cs] bt_ok_distinct [of cs]
  by (simp add: collect_pairs_def rev_map [symmetric])

end
