(* ===== verification/Chunk_V1.thy ===== *)
theory Chunk_V1
  imports Entries Utf8
begin

text \<open>
  The Tree v1 chunks of \<open>crates/sync-core/src/chunk.rs\<close>: leaf chunks, internal nodes and roots,
  each carried by a FlatBuffers envelope. The FlatBuffers library with the accessors generated
  from \<open>chunk.fbs\<close> is not part of the program: it is the parameter \<open>fb\<close>, a pair of functions
  between envelopes and bytes. The envelope has the tables and fields of the schema, where a hash
  is a byte vector of any length and the optional fields of the root are options. What the code
  relies on is \<open>flatbuf_ok\<close>: an envelope within the limits of the library's verifier that is
  finished reads back as it was.
\<close>

section \<open>The schema\<close>

record FbFileEntry =
  fbe_path :: string
  fbe_hash :: bytes
  fbe_mtime_ms :: u64
  fbe_size_bytes :: u64

record FbRootNode =
  fbr_version :: u32
  fbr_vault_id :: string
  fbr_created_ms :: u64
  fbr_total_files :: u64
  fbr_children :: "(string \<times> bytes) list"
  fbr_root_hash :: "bytes option"
  fbr_parent_hash :: "bytes option"
  fbr_device_id :: "string option"

datatype ChunkEnvelope =
    EnvLeafChunk u32 "FbFileEntry list"
  | EnvInternalNode u32 "(string \<times> bytes) list"
  | EnvRootNode FbRootNode
  | EnvOther byte

record flatbuf =
  fb_finish :: "ChunkEnvelope \<Rightarrow> bytes"
  fb_root :: "bytes \<Rightarrow> string + ChunkEnvelope"

text \<open>The verifier reads at most a million tables and two gigabytes, and checks that strings are
  UTF-8, which every Rust \<open>String\<close> is.\<close>

definition verifiable_rows :: "(string \<times> bytes) list \<Rightarrow> bool" where
  "verifiable_rows rows \<longleftrightarrow> length rows \<le> 900000
     \<and> sum_list (map (\<lambda>(p, h). length p + length h) rows) \<le> 2 ^ 30
     \<and> (\<forall>(p, h) \<in> set rows. from_utf8_ok (as_bytes p))"

fun verifiable :: "ChunkEnvelope \<Rightarrow> bool" where
  "verifiable (EnvLeafChunk v es) = verifiable_rows (map (\<lambda>e. (fbe_path e, fbe_hash e)) es)"
| "verifiable (EnvInternalNode v cs) = verifiable_rows cs"
| "verifiable (EnvRootNode r) = (verifiable_rows (fbr_children r)
     \<and> length (fbr_vault_id r) \<le> 2 ^ 20 \<and> from_utf8_ok (as_bytes (fbr_vault_id r))
     \<and> (case fbr_device_id r of None \<Rightarrow> True | Some d \<Rightarrow> length d \<le> 2 ^ 20 \<and> from_utf8_ok (as_bytes d)))"
| "verifiable (EnvOther tag) = False"

definition flatbuf_ok :: "flatbuf \<Rightarrow> bool" where
  "flatbuf_ok fb \<longleftrightarrow> (\<forall>env. verifiable env \<longrightarrow> fb_root fb (fb_finish fb env) = Inr env)"

section \<open>The chunks\<close>

record LeafChunk =
  lc_entries :: "FileEntry list"

record InternalNode =
  in_children :: "(string \<times> FileHash) list"

record RootNode =
  r1_vault_id :: string
  r1_created_ms :: u64
  r1_version :: u32
  r1_children :: "(string \<times> FileHash) list"
  r1_total_files :: u64
  r1_parent_hash :: "FileHash option"
  r1_device_id :: string

text \<open>\<open>flatbuffers::root\<close> with its error turned into the error of the core.\<close>

definition read_envelope :: "flatbuf \<Rightarrow> bytes \<Rightarrow> ChunkError + ChunkEnvelope" where
  "read_envelope fb bs = (case fb_root fb bs of Inl message \<Rightarrow> invalid message | Inr env \<Rightarrow> Inr env)"

text \<open>\<open>LeafChunk::new\<close> sorts by path, stably.\<close>

definition leaf_chunk_new :: "FileEntry list \<Rightarrow> LeafChunk" where
  "leaf_chunk_new es = \<lparr>lc_entries = sort_key fe_path es\<rparr>"

definition fb_entry :: "FileEntry \<Rightarrow> FbFileEntry" where
  "fb_entry e = \<lparr>fbe_path = fe_path e, fbe_hash = fe_hash e, fbe_mtime_ms = fe_mtime_ms e,
     fbe_size_bytes = fe_size_bytes e\<rparr>"

definition serialize_entries :: "flatbuf \<Rightarrow> FileEntry list \<Rightarrow> bytes" where
  "serialize_entries fb es = fb_finish fb (EnvLeafChunk 1 (map fb_entry es))"

definition leaf_chunk_serialize :: "flatbuf \<Rightarrow> LeafChunk \<Rightarrow> bytes" where
  "leaf_chunk_serialize fb leaf = serialize_entries fb (lc_entries leaf)"

definition leaf_chunk_hash :: "flatbuf \<Rightarrow> (bytes \<Rightarrow> FileHash) \<Rightarrow> LeafChunk \<Rightarrow> FileHash" where
  "leaf_chunk_hash fb H leaf = H (leaf_chunk_serialize fb leaf)"

fun read_entries :: "FbFileEntry list \<Rightarrow> ChunkError + FileEntry list" where
  "read_entries [] = Inr []"
| "read_entries (e # es) =
     (if length (fbe_hash e) \<noteq> 32 then invalid ''hash length  != 32''
      else and_then (read_entries es) (\<lambda>rest.
        Inr (\<lparr>fe_path = fbe_path e, fe_hash = fbe_hash e, fe_mtime_ms = fbe_mtime_ms e,
              fe_size_bytes = fbe_size_bytes e\<rparr> # rest)))"

definition leaf_chunk_deserialize :: "flatbuf \<Rightarrow> bytes \<Rightarrow> ChunkError + LeafChunk" where
  "leaf_chunk_deserialize fb bs =
     and_then (read_envelope fb bs) (\<lambda>env.
       case env of
         EnvLeafChunk v es \<Rightarrow> and_then (read_entries es) (\<lambda>es. Inr \<lparr>lc_entries = es\<rparr>)
       | _ \<Rightarrow> invalid ''expected LeafChunk, got '')"

text \<open>\<open>path.find('/').map_or("", |index| &path[..=index])\<close>, also \<open>top_level_prefix\<close> of tree.rs.\<close>

definition top_level_prefix :: "string \<Rightarrow> string" where
  "top_level_prefix path =
     (if CHR ''/'' \<in> set path then takeWhile (\<lambda>c. c \<noteq> CHR ''/'') path @ ''/'' else '''')"

text \<open>The loop of \<open>validated_path_bounds\<close> over the entries.\<close>

fun bounds_loop :: "string \<Rightarrow> string option \<Rightarrow> FbFileEntry list \<Rightarrow> ChunkError + unit" where
  "bounds_loop expected_prefix previous [] = Inr ()"
| "bounds_loop expected_prefix previous (e # es) =
     (if top_level_prefix (fbe_path e) \<noteq> expected_prefix
         \<or> (case previous of None \<Rightarrow> False | Some p \<Rightarrow> fbe_path e \<le> p)
         \<or> length (fbe_hash e) \<noteq> 32
      then invalid ''leaf path range is not canonical''
      else bounds_loop expected_prefix (Some (fbe_path e)) es)"

definition validated_path_bounds ::
  "flatbuf \<Rightarrow> bytes \<Rightarrow> string \<Rightarrow> nat option \<Rightarrow> nat \<Rightarrow> ChunkError + (string \<times> string) option" where
  "validated_path_bounds fb bs expected_prefix exact_entries max_entries =
     and_then (read_envelope fb bs) (\<lambda>env.
       case env of
         EnvLeafChunk v es \<Rightarrow>
           if es = [] then Inr None
           else if length es > max_entries
               \<or> (case exact_entries of None \<Rightarrow> False | Some n \<Rightarrow> length es \<noteq> n)
           then invalid ''leaf entry count is not canonical''
           else and_then (bounds_loop expected_prefix None es) (\<lambda>_.
             Inr (Some (fbe_path (es ! 0), fbe_path (es ! (length es - 1)))))
       | _ \<Rightarrow> invalid ''expected LeafChunk, got '')"

definition internal_node_new :: "(string \<times> FileHash) list \<Rightarrow> InternalNode" where
  "internal_node_new cs = \<lparr>in_children = sort_key fst cs\<rparr>"

definition internal_node_serialize :: "flatbuf \<Rightarrow> InternalNode \<Rightarrow> bytes" where
  "internal_node_serialize fb node = fb_finish fb (EnvInternalNode 1 (in_children node))"

definition internal_node_hash :: "flatbuf \<Rightarrow> (bytes \<Rightarrow> FileHash) \<Rightarrow> InternalNode \<Rightarrow> FileHash" where
  "internal_node_hash fb H node = H (internal_node_serialize fb node)"

fun read_children :: "(string \<times> bytes) list \<Rightarrow> ChunkError + (string \<times> FileHash) list" where
  "read_children [] = Inr []"
| "read_children ((p, h) # cs) =
     (if length h \<noteq> 32 then invalid ''hash length  != 32''
      else and_then (read_children cs) (\<lambda>rest. Inr ((p, h) # rest)))"

definition internal_node_deserialize :: "flatbuf \<Rightarrow> bytes \<Rightarrow> ChunkError + InternalNode" where
  "internal_node_deserialize fb bs =
     and_then (read_envelope fb bs) (\<lambda>env.
       case env of
         EnvInternalNode v cs \<Rightarrow> and_then (read_children cs) (\<lambda>cs. Inr \<lparr>in_children = cs\<rparr>)
       | _ \<Rightarrow> invalid ''expected InternalNode, got '')"

text \<open>The root hash covers the children only, each prefix followed by its hash.\<close>

definition root_preimage :: "(string \<times> FileHash) list \<Rightarrow> bytes" where
  "root_preimage cs = concat (map (\<lambda>(p, h). as_bytes p @ h) cs)"

definition root_node_hash :: "(bytes \<Rightarrow> FileHash) \<Rightarrow> RootNode \<Rightarrow> FileHash" where
  "root_node_hash H root = H (root_preimage (r1_children root))"

definition root_envelope :: "(bytes \<Rightarrow> FileHash) \<Rightarrow> RootNode \<Rightarrow> ChunkEnvelope" where
  "root_envelope H root = EnvRootNode
     \<lparr>fbr_version = r1_version root, fbr_vault_id = r1_vault_id root, fbr_created_ms = r1_created_ms root,
      fbr_total_files = r1_total_files root, fbr_children = r1_children root,
      fbr_root_hash = Some (root_node_hash H root), fbr_parent_hash = r1_parent_hash root,
      fbr_device_id = Some (r1_device_id root)\<rparr>"

definition root_node_serialize :: "flatbuf \<Rightarrow> (bytes \<Rightarrow> FileHash) \<Rightarrow> RootNode \<Rightarrow> bytes" where
  "root_node_serialize fb H root = fb_finish fb (root_envelope H root)"

definition root_node_deserialize :: "flatbuf \<Rightarrow> bytes \<Rightarrow> ChunkError + RootNode" where
  "root_node_deserialize fb bs =
     and_then (read_envelope fb bs) (\<lambda>env.
       case env of
         EnvRootNode r \<Rightarrow>
           and_then (read_children (fbr_children r)) (\<lambda>cs.
             Inr \<lparr>r1_vault_id = fbr_vault_id r, r1_created_ms = fbr_created_ms r, r1_version = fbr_version r,
                  r1_children = cs, r1_total_files = fbr_total_files r,
                  r1_parent_hash = Option.bind (fbr_parent_hash r) (\<lambda>h. if length h = 32 then Some h else None),
                  r1_device_id = (case fbr_device_id r of None \<Rightarrow> '''' | Some d \<Rightarrow> d)\<rparr>)
       | _ \<Rightarrow> invalid ''expected RootNode, got '')"

section \<open>Round trips\<close>

lemma read_envelope_finish: "flatbuf_ok fb \<Longrightarrow> verifiable env \<Longrightarrow> read_envelope fb (fb_finish fb env) = Inr env"
  by (simp add: flatbuf_ok_def read_envelope_def)

lemma read_entries_fb: "\<forall>e \<in> set es. hash_ok (fe_hash e) \<Longrightarrow> read_entries (map fb_entry es) = Inr es"
  by (induction es) (simp_all add: fb_entry_def)

lemma read_children_ok: "\<forall>c \<in> set cs. hash_ok (snd c) \<Longrightarrow> read_children cs = Inr cs"
  by (induction cs) auto

text \<open>An entry the code can hold, and a list of them a leaf chunk can carry.\<close>

definition rows_ok :: "(string \<times> FileHash) list \<Rightarrow> bool" where
  "rows_ok rows \<longleftrightarrow> verifiable_rows rows \<and> (\<forall>(p, h) \<in> set rows. hash_ok h)"

abbreviation entry_rows :: "FileEntry list \<Rightarrow> (string \<times> FileHash) list" where
  "entry_rows es \<equiv> map (\<lambda>e. (fe_path e, fe_hash e)) es"

lemma leaf_chunk_roundtrip:
  assumes "flatbuf_ok fb" "rows_ok (entry_rows (lc_entries leaf))"
  shows "leaf_chunk_deserialize fb (leaf_chunk_serialize fb leaf) = Inr leaf"
proof -
  have rows: "map (\<lambda>e. (fbe_path e, fbe_hash e)) (map fb_entry es) = entry_rows es" for es
    by (simp add: fb_entry_def)
  have "verifiable (EnvLeafChunk 1 (map fb_entry (lc_entries leaf)))"
    using assms(2) unfolding verifiable.simps rows by (simp add: rows_ok_def)
  moreover have "\<forall>e \<in> set (lc_entries leaf). hash_ok (fe_hash e)"
    using assms(2) by (auto simp: rows_ok_def)
  ultimately show ?thesis
    by (simp add: leaf_chunk_deserialize_def leaf_chunk_serialize_def serialize_entries_def
        read_envelope_finish [OF assms(1)] read_entries_fb del: and_then_Inr)
qed

lemma internal_node_roundtrip:
  assumes "flatbuf_ok fb" "rows_ok (in_children node)"
  shows "internal_node_deserialize fb (internal_node_serialize fb node) = Inr node"
proof -
  have "\<forall>c \<in> set (in_children node). hash_ok (snd c)" using assms(2) by (auto simp: rows_ok_def)
  with assms show ?thesis
    by (simp add: internal_node_deserialize_def internal_node_serialize_def rows_ok_def
        read_envelope_finish [OF assms(1)] read_children_ok del: and_then_Inr)
qed

text \<open>A leaf never reads as an internal node and an internal node never as a leaf.\<close>

lemma internal_not_leaf:
  assumes "flatbuf_ok fb" "rows_ok (in_children node)"
  shows "leaf_chunk_deserialize fb (internal_node_serialize fb node) = invalid ''expected LeafChunk, got ''"
  using assms by (simp add: leaf_chunk_deserialize_def internal_node_serialize_def rows_ok_def read_envelope_finish)

text \<open>What the Rust type of a root guarantees, with the limits of the verifier.\<close>

definition root_node_ok :: "RootNode \<Rightarrow> bool" where
  "root_node_ok root \<longleftrightarrow> rows_ok (r1_children root)
     \<and> length (r1_vault_id root) \<le> 2 ^ 20 \<and> from_utf8_ok (as_bytes (r1_vault_id root))
     \<and> length (r1_device_id root) \<le> 2 ^ 20 \<and> from_utf8_ok (as_bytes (r1_device_id root))
     \<and> (case r1_parent_hash root of None \<Rightarrow> True | Some h \<Rightarrow> hash_ok h)"

lemma root_node_roundtrip:
  assumes "flatbuf_ok fb" "root_node_ok root"
  shows "root_node_deserialize fb (root_node_serialize fb H root) = Inr root"
proof -
  have "verifiable (root_envelope H root)" using assms(2) by (simp add: root_node_ok_def rows_ok_def root_envelope_def)
  then have "read_envelope fb (root_node_serialize fb H root) = Inr (root_envelope H root)"
    unfolding root_node_serialize_def by (rule read_envelope_finish [OF assms(1)])
  moreover have "read_children (r1_children root) = Inr (r1_children root)"
    using assms(2) by (intro read_children_ok) (auto simp: root_node_ok_def rows_ok_def)
  moreover have "Option.bind (r1_parent_hash root) (\<lambda>h. if length h = 32 then Some h else None) = r1_parent_hash root"
    using assms(2) by (auto simp: root_node_ok_def split: option.splits)
  ultimately show ?thesis
    by (simp add: root_node_deserialize_def root_envelope_def del: and_then_Inr)
qed

end
