(* ===== verification/Flatbuf_Layer.thy ===== *)
theory Flatbuf_Layer
  imports Chunk_V1
begin

text \<open>
  A concrete serialization layer for the Tree v1 envelopes that meets \<open>flatbuf_ok\<close>: the fields in
  order, each with its length in unary. It is not the FlatBuffers format; it shows that the
  hypothesis on that library can be met, and the witnesses of the Tree v1 properties use it.
\<close>

section \<open>A sequence of fields\<close>

fun join_fields :: "bytes list \<Rightarrow> bytes" where
  "join_fields [] = []"
| "join_fields (f # fs) = replicate (length f) 1 @ 0 # f @ join_fields fs"

definition unary :: "bytes \<Rightarrow> nat" where
  "unary bs = length (takeWhile (\<lambda>b. b = 1) bs)"

function split_fields :: "bytes \<Rightarrow> bytes list" where
  "split_fields bs =
     (if bs = [] then []
      else (let n = unary bs; rest = drop (Suc n) bs in take n rest # split_fields (drop n rest)))"
  by pat_completeness auto
termination
  by (relation "measure length") auto

declare split_fields.simps [simp del]

lemma split_join_fields: "split_fields (join_fields fs) = fs"
proof (induction fs)
  case (Cons f fs)
  have "unary (join_fields (f # fs)) = length f" by (simp add: unary_def takeWhile_tail)
  then show ?case using Cons by (subst split_fields.simps) simp
qed (simp add: split_fields.simps)

section \<open>Envelopes as fields\<close>

definition entry_fields :: "FbFileEntry \<Rightarrow> bytes list" where
  "entry_fields e = [as_bytes (fbe_path e), fbe_hash e, u64_le (fbe_mtime_ms e), u64_le (fbe_size_bytes e)]"

fun read_entry_fields :: "bytes list \<Rightarrow> FbFileEntry list" where
  "read_entry_fields (p # h # m # s # rest) =
     \<lparr>fbe_path = of_bytes p, fbe_hash = h, fbe_mtime_ms = u64_of_le m, fbe_size_bytes = u64_of_le s\<rparr>
     # read_entry_fields rest"
| "read_entry_fields _ = []"

fun read_child_fields :: "bytes list \<Rightarrow> (string \<times> bytes) list" where
  "read_child_fields (p # h # rest) = (of_bytes p, h) # read_child_fields rest"
| "read_child_fields _ = []"

definition child_fields :: "(string \<times> bytes) list \<Rightarrow> bytes list" where
  "child_fields cs = concat (map (\<lambda>(p, h). [as_bytes p, h]) cs)"

definition option_field :: "bytes option \<Rightarrow> bytes" where
  "option_field x = (case x of None \<Rightarrow> [] | Some b \<Rightarrow> 1 # b)"

definition read_option_field :: "bytes \<Rightarrow> bytes option" where
  "read_option_field b = (case b of [] \<Rightarrow> None | _ # r \<Rightarrow> Some r)"

fun envelope_fields :: "ChunkEnvelope \<Rightarrow> bytes list" where
  "envelope_fields (EnvLeafChunk v es) = [0] # u32_le v # concat (map entry_fields es)"
| "envelope_fields (EnvInternalNode v cs) = [1] # u32_le v # child_fields cs"
| "envelope_fields (EnvRootNode r) = [2] # u32_le (fbr_version r) # as_bytes (fbr_vault_id r)
     # u64_le (fbr_created_ms r) # u64_le (fbr_total_files r) # option_field (fbr_root_hash r)
     # option_field (fbr_parent_hash r) # option_field (map_option as_bytes (fbr_device_id r))
     # child_fields (fbr_children r)"
| "envelope_fields (EnvOther tag) = [[3], [tag]]"

definition read_envelope_fields :: "bytes list \<Rightarrow> string + ChunkEnvelope" where
  "read_envelope_fields fs =
     (case fs of
        tag # v # rest \<Rightarrow>
          if tag = [0] then Inr (EnvLeafChunk (u32_of_le v) (read_entry_fields rest))
          else if tag = [1] then Inr (EnvInternalNode (u32_of_le v) (read_child_fields rest))
          else if tag = [2] then
            (case rest of
               vault # created # files # root_hash # parent # device # children \<Rightarrow>
                 Inr (EnvRootNode \<lparr>fbr_version = u32_of_le v, fbr_vault_id = of_bytes vault,
                   fbr_created_ms = u64_of_le created, fbr_total_files = u64_of_le files,
                   fbr_children = read_child_fields children, fbr_root_hash = read_option_field root_hash,
                   fbr_parent_hash = read_option_field parent,
                   fbr_device_id = map_option of_bytes (read_option_field device)\<rparr>)
             | _ \<Rightarrow> Inl ''truncated'')
          else if v = [] then Inl ''truncated'' else Inr (EnvOther (v ! 0))
      | _ \<Rightarrow> Inl ''truncated'')"

lemma read_entry_fields_inverse: "read_entry_fields (concat (map entry_fields es)) = es"
  by (induction es) (simp_all add: entry_fields_def)

lemma read_child_fields_inverse: "read_child_fields (child_fields cs) = cs"
  by (induction cs) (auto simp: child_fields_def)

lemma read_option_field_inverse [simp]: "read_option_field (option_field x) = x"
  by (cases x) (simp_all add: option_field_def read_option_field_def)

lemma read_envelope_fields_inverse: "read_envelope_fields (envelope_fields env) = Inr env"
  by (cases env) (simp_all add: read_envelope_fields_def read_entry_fields_inverse read_child_fields_inverse
      option.map_comp comp_def option.map_ident)

definition field_layer :: flatbuf where
  "field_layer = \<lparr>fb_finish = (\<lambda>env. join_fields (envelope_fields env)),
     fb_root = (\<lambda>bs. read_envelope_fields (split_fields bs))\<rparr>"

lemma field_layer_ok: "flatbuf_ok field_layer"
  by (simp add: flatbuf_ok_def field_layer_def split_join_fields read_envelope_fields_inverse)

end
