(* ===== verification/Tree_V1.thy ===== *)
theory Tree_V1
  imports Chunk_V1 Btree Entry_Merge Tree_V2_Build
begin

text \<open>
  Tree v1 of \<open>crates/sync-core/src/tree.rs\<close>: the entries are grouped by their top-level
  directory; each group is one leaf chunk, or an internal node over leaf chunks of a thousand
  entries. Building, updating and loading work over a store (\<open>store_ops\<close>); the clock is the
  parameter \<open>now\<close>, the hash function \<open>H\<close>, the FlatBuffers library \<open>fb\<close>. The file counts are plain 64-bit
  arithmetic, which wraps as in a release build; a debug build panics where it wraps.
\<close>

section \<open>Definitions\<close>

definition TARGET_CHUNK_ENTRIES :: nat where "TARGET_CHUNK_ENTRIES = 1000"

text \<open>\<open>slice::chunks\<close>: pieces of \<open>n\<close> elements, the last one shorter.\<close>

function chunks :: "nat \<Rightarrow> 'a list \<Rightarrow> 'a list list" where
  "chunks n xs = (if xs = [] \<or> n = 0 then [] else take n xs # chunks n (drop n xs))"
  by pat_completeness auto
termination
  by (relation "measure (\<lambda>(n, xs). length xs)") auto

declare chunks.simps [simp del]

definition store_blob :: "'s store_ops \<Rightarrow> (bytes \<Rightarrow> FileHash) \<Rightarrow> bytes \<Rightarrow> ('s, FileHash) store_io" where
  "store_blob ops H b = io_bind (put_op ops (H b) b) (\<lambda>_. io_return (H b))"

definition build_leaf_chunks ::
  "'s store_ops \<Rightarrow> flatbuf \<Rightarrow> (bytes \<Rightarrow> FileHash) \<Rightarrow> FileEntry list \<Rightarrow> ('s, FileHash list) store_io" where
  "build_leaf_chunks ops fb H entries =
     io_bind (io_map (\<lambda>chunk_entries. store_blob ops H (leaf_chunk_serialize fb (leaf_chunk_new chunk_entries)))
       (chunks TARGET_CHUNK_ENTRIES entries)) (\<lambda>hashes.
     if hashes = [] then
       io_bind (store_blob ops H (leaf_chunk_serialize fb (leaf_chunk_new []))) (\<lambda>hash. io_return [hash])
     else io_return hashes)"

text \<open>The decimal index in the label of a leaf.\<close>

fun decimal :: "nat \<Rightarrow> string" where
  "decimal n = (if n < 10 then [char_of (48 + n)] else decimal (n div 10) @ [char_of (48 + n mod 10)])"

declare decimal.simps [simp del]

definition labelled :: "string \<Rightarrow> FileHash list \<Rightarrow> (string \<times> FileHash) list" where
  "labelled prefix hashes = map (\<lambda>(i, hash). (prefix @ decimal i, hash)) (List.enumerate 0 hashes)"

text \<open>One directory: its leaf chunks and, when there are several, the internal node. The code has
  this in \<open>build_tree\<close> and in \<open>update_tree\<close>.\<close>

definition store_prefix ::
  "'s store_ops \<Rightarrow> flatbuf \<Rightarrow> (bytes \<Rightarrow> FileHash) \<Rightarrow> string \<Rightarrow> FileEntry list \<Rightarrow> ('s, FileHash) store_io" where
  "store_prefix ops fb H prefix entries =
     io_bind (build_leaf_chunks ops fb H entries) (\<lambda>leaf_hashes.
       if length leaf_hashes = 1 then io_return (leaf_hashes ! 0)
       else store_blob ops H (internal_node_serialize fb (internal_node_new (labelled prefix leaf_hashes))))"

definition group_push :: "(string, FileEntry list) btree \<Rightarrow> FileEntry \<Rightarrow> (string, FileEntry list) btree" where
  "group_push groups entry =
     btree_update (top_level_prefix (fe_path entry)) [] (\<lambda>group_entries. group_entries @ [entry]) groups"

fun build_groups ::
  "'s store_ops \<Rightarrow> flatbuf \<Rightarrow> (bytes \<Rightarrow> FileHash) \<Rightarrow> (string, FileEntry list) btree \<Rightarrow> u64
   \<Rightarrow> (string \<times> FileHash) list \<Rightarrow> ('s, u64 \<times> (string \<times> FileHash) list) store_io" where
  "build_groups ops fb H [] total_files children = io_return (total_files, children)"
| "build_groups ops fb H ((prefix, group_entries) # groups) total_files children =
     io_bind (store_prefix ops fb H prefix (sort_key fe_path group_entries)) (\<lambda>hash.
       build_groups ops fb H groups (total_files + of_nat (length group_entries))
         (children @ [(prefix, hash)]))"

definition build_tree_v1 ::
  "'s store_ops \<Rightarrow> flatbuf \<Rightarrow> (bytes \<Rightarrow> FileHash) \<Rightarrow> u64 \<Rightarrow> FileEntry list \<Rightarrow> string \<Rightarrow> string
   \<Rightarrow> ('s, RootNode) store_io" where
  "build_tree_v1 ops fb H now entries vault_id device_id =
     io_bind (build_groups ops fb H (foldl group_push [] entries) 0 []) (\<lambda>(total_files, children).
       io_return \<lparr>r1_vault_id = vault_id, r1_created_ms = now, r1_version = 1,
         r1_children = children, r1_total_files = total_files, r1_parent_hash = None,
         r1_device_id = device_id\<rparr>)"

subsection \<open>Loading\<close>

definition MAX_VISITED_NODES_V1 :: nat where "MAX_VISITED_NODES_V1 = 1000000"
definition MAX_LOADED_ENTRIES_V1 :: nat where "MAX_LOADED_ENTRIES_V1 = 10000000"

text \<open>The work stack is the list \<open>pending\<close>, its top first.\<close>

function load_loop ::
  "flatbuf \<Rightarrow> lookup \<Rightarrow> nat \<Rightarrow> FileHash list \<Rightarrow> FileEntry list \<Rightarrow> ChunkError + FileEntry list" where
  "load_loop fb get visited [] all_entries = Inr all_entries"
| "load_loop fb get visited (next_hash # pending) all_entries =
     (if visited + 1 > MAX_VISITED_NODES_V1 then invalid ''tree has too many nodes''
      else and_then (get next_hash) (\<lambda>bs.
        case leaf_chunk_deserialize fb bs of
          Inr leaf \<Rightarrow>
            if length all_entries + length (lc_entries leaf) > MAX_LOADED_ENTRIES_V1
            then invalid ''tree has too many entries''
            else load_loop fb get (visited + 1) pending (all_entries @ lc_entries leaf)
        | Inl _ \<Rightarrow>
            (case internal_node_deserialize fb bs of
               Inr node \<Rightarrow> load_loop fb get (visited + 1) (map snd (in_children node) @ pending) all_entries
             | Inl _ \<Rightarrow> invalid ''could not parse as LeafChunk or InternalNode'')))"
  by pat_completeness auto
termination
  by (relation "measure (\<lambda>(fb, get, visited, pending, all_entries). Suc MAX_VISITED_NODES_V1 - visited)") auto

definition load_all_entries_v1 :: "flatbuf \<Rightarrow> lookup \<Rightarrow> FileHash \<Rightarrow> ChunkError + FileEntry list" where
  "load_all_entries_v1 fb get hash =
     and_then (load_loop fb get 0 [hash] []) (\<lambda>all_entries. Inr (sort_key fe_path all_entries))"

subsection \<open>Updating\<close>

definition push_change ::
  "(string, FileEntry list \<times> string list) btree \<Rightarrow> FileEntry \<Rightarrow> (string, FileEntry list \<times> string list) btree" where
  "push_change m entry =
     btree_update (top_level_prefix (fe_path entry)) ([], []) (\<lambda>(adds, dels). (adds @ [entry], dels)) m"

definition push_deletion ::
  "(string, FileEntry list \<times> string list) btree \<Rightarrow> string \<Rightarrow> (string, FileEntry list \<times> string list) btree" where
  "push_deletion m path =
     btree_update (top_level_prefix path) ([], []) (\<lambda>(adds, dels). (adds, dels @ [path])) m"

text \<open>One changed directory: the position from the binary search, the load, the merge, and the
  new child list with the new file count.\<close>

definition update_prefix ::
  "'s store_ops \<Rightarrow> flatbuf \<Rightarrow> (bytes \<Rightarrow> FileHash) \<Rightarrow> string \<Rightarrow> FileEntry list \<Rightarrow> string list
   \<Rightarrow> (string, FileHash) btree \<Rightarrow> u64 \<Rightarrow> ('s, (string, FileHash) btree \<times> u64) store_io" where
  "update_prefix ops fb H prefix adds dels new_children total_files =
     (let child_position = bt_find prefix new_children in
      io_bind (case child_position of
          Inr index \<Rightarrow> (\<lambda>s. (load_all_entries_v1 fb (\<lambda>h. get_op ops h s) (snd (new_children ! index)), s))
        | Inl _ \<Rightarrow> io_return []) (\<lambda>loaded.
      let entries = merge_prefix_entries loaded adds dels;
          total_files = total_files - of_nat (length loaded) + of_nat (length entries) in
      if entries = [] then
        io_return (case child_position of
            Inr index \<Rightarrow> take index new_children @ drop (Suc index) new_children
          | Inl _ \<Rightarrow> new_children, total_files)
      else
        io_bind (store_prefix ops fb H prefix entries) (\<lambda>new_hash.
          io_return (case child_position of
              Inr index \<Rightarrow> new_children[index := (fst (new_children ! index), new_hash)]
            | Inl index \<Rightarrow> take index new_children @ (prefix, new_hash) # drop index new_children,
            total_files))))"

fun update_prefixes ::
  "'s store_ops \<Rightarrow> flatbuf \<Rightarrow> (bytes \<Rightarrow> FileHash) \<Rightarrow> (string, FileEntry list \<times> string list) btree
   \<Rightarrow> (string, FileHash) btree \<Rightarrow> u64 \<Rightarrow> ('s, (string, FileHash) btree \<times> u64) store_io" where
  "update_prefixes ops fb H [] new_children total_files = io_return (new_children, total_files)"
| "update_prefixes ops fb H ((prefix, adds, dels) # changes) new_children total_files =
     io_bind (update_prefix ops fb H prefix adds dels new_children total_files) (\<lambda>(new_children, total_files).
       update_prefixes ops fb H changes new_children total_files)"

definition update_tree_v1 ::
  "'s store_ops \<Rightarrow> flatbuf \<Rightarrow> (bytes \<Rightarrow> FileHash) \<Rightarrow> u64 \<Rightarrow> RootNode \<Rightarrow> FileEntry list \<Rightarrow> string list
   \<Rightarrow> ('s, RootNode) store_io" where
  "update_tree_v1 ops fb H now root changed deleted =
     io_bind (update_prefixes ops fb H (foldl push_deletion (foldl push_change [] changed) deleted)
       (r1_children root) (r1_total_files root)) (\<lambda>(new_children, total_files).
       io_return \<lparr>r1_vault_id = r1_vault_id root, r1_created_ms = now, r1_version = r1_version root,
         r1_children = new_children, r1_total_files = total_files,
         r1_parent_hash = Some (root_node_hash H root), r1_device_id = r1_device_id root\<rparr>)"

section \<open>What a directory writes\<close>

definition leaf_blob_v1 :: "flatbuf \<Rightarrow> FileEntry list \<Rightarrow> bytes" where
  "leaf_blob_v1 fb es = leaf_chunk_serialize fb (leaf_chunk_new es)"

definition leaf_pieces :: "FileEntry list \<Rightarrow> FileEntry list list" where
  "leaf_pieces es = (if es = [] then [[]] else chunks TARGET_CHUNK_ENTRIES es)"

definition node_blob_v1 :: "flatbuf \<Rightarrow> string \<Rightarrow> FileHash list \<Rightarrow> bytes" where
  "node_blob_v1 fb prefix hashes = internal_node_serialize fb (internal_node_new (labelled prefix hashes))"

definition leaf_hashes_v1 :: "flatbuf \<Rightarrow> (bytes \<Rightarrow> FileHash) \<Rightarrow> FileEntry list \<Rightarrow> FileHash list" where
  "leaf_hashes_v1 fb H es = map (\<lambda>c. H (leaf_blob_v1 fb c)) (leaf_pieces es)"

definition prefix_hash :: "flatbuf \<Rightarrow> (bytes \<Rightarrow> FileHash) \<Rightarrow> string \<Rightarrow> FileEntry list \<Rightarrow> FileHash" where
  "prefix_hash fb H prefix es =
     (let hs = leaf_hashes_v1 fb H es in if length hs = 1 then hs ! 0 else H (node_blob_v1 fb prefix hs))"

definition prefix_blobs :: "flatbuf \<Rightarrow> (bytes \<Rightarrow> FileHash) \<Rightarrow> string \<Rightarrow> FileEntry list \<Rightarrow> bytes list" where
  "prefix_blobs fb H prefix es =
     map (leaf_blob_v1 fb) (leaf_pieces es) @
     (if length (leaf_pieces es) = 1 then [] else [node_blob_v1 fb prefix (leaf_hashes_v1 fb H es)])"

lemma chunks_Nil [simp]: "chunks n [] = []"
  by (simp add: chunks.simps)

lemma chunks_eq_Nil [simp]: "0 < n \<Longrightarrow> chunks n xs = [] \<longleftrightarrow> xs = []"
  by (subst chunks.simps) simp

lemma concat_chunks: "0 < n \<Longrightarrow> concat (chunks n xs) = xs"
proof (induction n xs rule: chunks.induct)
  case (1 n xs)
  then show ?case by (subst chunks.simps) auto
qed

lemma chunks_pieces: "0 < n \<Longrightarrow> \<forall>c \<in> set (chunks n xs). c \<noteq> [] \<and> length c \<le> n"
proof (induction n xs rule: chunks.induct)
  case (1 n xs)
  then show ?case by (subst chunks.simps) auto
qed

lemma chunks_count: "0 < n \<Longrightarrow> n * length (chunks n xs) < length xs + n"
proof (induction n xs rule: chunks.induct)
  case (1 n xs)
  show ?case
  proof (cases "xs = [] \<or> n = 0")
    case False
    then have ih: "n * length (chunks n (drop n xs)) < length (drop n xs) + n" using 1 by simp
    have "length (chunks n xs) = Suc (length (chunks n (drop n xs)))" using False by (subst chunks.simps) simp
    moreover have "length (drop n xs) = 0 \<and> n * length (chunks n (drop n xs)) = 0 \<or> length (drop n xs) + n = length xs"
      by (cases "length xs \<le> n") auto
    moreover have "0 < length xs" using False by simp
    ultimately show ?thesis using ih by auto
  qed (use 1 in auto)
qed

lemma TARGET_pos: "0 < TARGET_CHUNK_ENTRIES"
  by (simp add: TARGET_CHUNK_ENTRIES_def)

lemma concat_leaf_pieces: "concat (leaf_pieces es) = es"
  by (simp add: leaf_pieces_def concat_chunks TARGET_pos)

lemma store_blobs_recorded:
  "io_map (\<lambda>c. store_blob recorder_ops H (f c)) cs log = (Inr (map (\<lambda>c. H (f c)) cs), log @ map f cs)"
  by (induction cs arbitrary: log) (simp_all add: store_blob_def recorder_ops_def)

lemma build_leaf_chunks_recorded:
  "build_leaf_chunks recorder_ops fb H es log =
     (Inr (leaf_hashes_v1 fb H es), log @ map (leaf_blob_v1 fb) (leaf_pieces es))"
proof (cases "es = []")
  case True
  then show ?thesis
    by (simp add: build_leaf_chunks_def leaf_hashes_v1_def leaf_pieces_def leaf_blob_v1_def store_blob_def recorder_ops_def)
next
  case False
  then show ?thesis
    using store_blobs_recorded [of H "\<lambda>c. leaf_chunk_serialize fb (leaf_chunk_new c)" "chunks TARGET_CHUNK_ENTRIES es" log]
    by (simp add: build_leaf_chunks_def leaf_hashes_v1_def leaf_pieces_def leaf_blob_v1_def TARGET_pos)
qed

lemma store_prefix_recorded:
  "store_prefix recorder_ops fb H prefix es log = (Inr (prefix_hash fb H prefix es), log @ prefix_blobs fb H prefix es)"
proof -
  have len: "length (leaf_hashes_v1 fb H es) = length (leaf_pieces es)" by (simp add: leaf_hashes_v1_def)
  show ?thesis
    unfolding store_prefix_def
    by (subst io_bind_run [OF build_leaf_chunks_recorded])
       (simp add: prefix_hash_def prefix_blobs_def Let_def len node_blob_v1_def store_blob_def recorder_ops_def)
qed

context content_store
begin

lemma writes_store_blob: "writes (store_blob ops H b) (store_blob recorder_ops H b)"
  unfolding store_blob_def by (intro writes_bind writes_put writes_return)

lemma writes_store_prefix: "writes (store_prefix ops fb H prefix es) (store_prefix recorder_ops fb H prefix es)"
  unfolding store_prefix_def build_leaf_chunks_def
  by (intro writes_bind writes_map writes_store_blob) (auto intro: writes_bind writes_return writes_store_blob)

end

context reliable_store
begin

lemma same_store_blob: "same_result (store_blob ops H b) (store_blob recorder_ops H b)"
  unfolding store_blob_def by (intro same_bind same_put same_return)

lemma same_store_prefix: "same_result (store_prefix ops fb H prefix es) (store_prefix recorder_ops fb H prefix es)"
  unfolding store_prefix_def build_leaf_chunks_def
  by (intro same_bind same_map same_store_blob) (auto intro: same_bind same_return same_store_blob)

text \<open>Storing a directory succeeds, makes its blobs readable and loses nothing.\<close>

lemma store_prefix_run:
  assumes "ok s" "inj_on H (resident s \<union> set (prefix_blobs fb H prefix es))"
  obtains s' where "store_prefix ops fb H prefix es s = (Inr (prefix_hash fb H prefix es), s')" "ok s'"
    "grows (\<lambda>h. get_op ops h s) (\<lambda>h. get_op ops h s')" "resident s' \<subseteq> resident s \<union> set (prefix_blobs fb H prefix es)"
    "\<forall>b \<in> set (prefix_blobs fb H prefix es). get_op ops (H b) s' = Inr b"
proof -
  note rec = store_prefix_recorded [of fb H prefix es "[]"]
  obtain r s' where run: "store_prefix ops fb H prefix es s = (r, s')" by (cases "store_prefix ops fb H prefix es s")
  have "fst (store_prefix ops fb H prefix es s) = fst (store_prefix recorder_ops fb H prefix es [])"
    using same_store_prefix assms(1) unfolding same_result_def by blast
  then have r: "r = Inr (prefix_hash fb H prefix es)" using run rec by simp
  obtain q bs where "store_prefix recorder_ops fb H prefix es [] = (q, [] @ bs)" "effect s r s' q bs"
    using writes_store_prefix [of fb prefix es] assms(1) run unfolding writes_def by blast
  then have e: "effect s r s' q (prefix_blobs fb H prefix es)" using rec by simp
  show thesis using that [of s'] run r e assms(2) unfolding effect_def grows_def keeps_def by blast
qed

end

section \<open>Loading a directory\<close>

text \<open>An entry of a vault: the hash is a hash, the path a string no longer than 64 kilobytes.\<close>

definition entry_v1_ok :: "FileEntry \<Rightarrow> bool" where
  "entry_v1_ok e \<longleftrightarrow> entry_typed e \<and> length (fe_path e) \<le> 65536"

lemma sum_list_le: "\<forall>x \<in> set xs. f x \<le> (n :: nat) \<Longrightarrow> sum_list (map f xs) \<le> length xs * n"
  by (induction xs) auto

lemma leaf_rows_ok:
  assumes "\<forall>e \<in> set es. entry_v1_ok e" "length es \<le> 1000"
  shows "rows_ok (entry_rows es)"
proof -
  have "sum_list (map (\<lambda>e. length (fe_path e) + length (fe_hash e)) es) \<le> length es * 65568"
    using assms(1) by (intro sum_list_le) (auto simp: entry_v1_ok_def entry_typed_def)
  then have "sum_list (map (\<lambda>e. length (fe_path e) + length (fe_hash e)) es) \<le> 2 ^ 30" using assms(2) by simp
  then show ?thesis
    using assms by (auto simp: rows_ok_def verifiable_rows_def entry_v1_ok_def entry_typed_def comp_def)
qed

lemma leaf_chunk_new_sorted: "sorted_entries es \<Longrightarrow> leaf_chunk_new es = \<lparr>lc_entries = es\<rparr>"
  by (simp add: leaf_chunk_new_def sorted_entries_def sorted_sort_id strict_sorted_imp_sorted sort_key_id_if_sorted)

lemma leaf_blob_loads:
  assumes "flatbuf_ok fb" "\<forall>e \<in> set es. entry_v1_ok e" "length es \<le> 1000" "sorted_entries es"
  shows "leaf_chunk_deserialize fb (leaf_blob_v1 fb es) = Inr \<lparr>lc_entries = es\<rparr>"
  using leaf_chunk_roundtrip [OF assms(1), of "\<lparr>lc_entries = es\<rparr>"] leaf_rows_ok [OF assms(2,3)] assms(4)
  by (simp add: leaf_blob_v1_def leaf_chunk_new_sorted)

text \<open>The loop over leaves only, in whatever order they are on the stack.\<close>

lemma load_leaves_v1:
  assumes "\<forall>c \<in> set cs. get (h c) = Inr (b c) \<and> leaf_chunk_deserialize fb (b c) = Inr \<lparr>lc_entries = c\<rparr>"
    "visited + length cs \<le> MAX_VISITED_NODES_V1" "length all + length (concat cs) \<le> MAX_LOADED_ENTRIES_V1"
  shows "load_loop fb get visited (map h cs) all = Inr (all @ concat cs)"
  using assms by (induction cs arbitrary: visited all) simp_all

lemma mset_map_order: "mset xs = mset (map f ys) \<Longrightarrow> \<exists>zs. xs = map f zs \<and> mset zs = mset ys"
proof (induction xs arbitrary: ys)
  case (Cons x xs)
  then have "x \<in># mset (map f ys)" by (metis list.set_intros(1) set_mset_mset)
  then obtain y where y: "y \<in> set ys" "f y = x" by auto
  then obtain l r where ys: "ys = l @ y # r" by (meson split_list)
  then have "mset xs = mset (map f (l @ r))" using Cons.prems y(2) by simp
  then obtain zs where "xs = map f zs" "mset zs = mset (l @ r)" using Cons.IH by blast
  then have "x # xs = map f (y # zs) \<and> mset (y # zs) = mset ys" using ys y(2) by simp
  then show ?case by (rule exI)
qed simp

lemma mset_concat_perm: "mset cs = mset ds \<Longrightarrow> mset (concat cs) = mset (concat ds)"
  by (metis mset_concat mset_map sum_mset_sum_list)

lemma sort_entries_perm:
  assumes "sorted_entries es" "mset xs = mset es"
  shows "sort_key fe_path xs = es"
proof (rule properties_for_sort_key)
  show "mset es = mset xs" using assms(2) by simp
  show "sorted (map fe_path es)" using assms(1) by (simp add: sorted_entries_def strict_sorted_imp_sorted)
  have d: "distinct (map fe_path es)" by (rule sorted_entries_distinct_paths [OF assms(1)])
  then have "distinct es" by (simp add: distinct_map)
  then have d': "distinct xs" using assms(2) by (metis mset_eq_imp_distinct_iff)
  have s: "set xs = set es" using assms(2) by (metis set_mset_mset)
  show "filter (\<lambda>x. fe_path k = fe_path x) es = filter (\<lambda>x. fe_path k = fe_path x) xs" if "k \<in> set es" for k
  proof -
    have eq: "\<forall>x \<in> set ys. (fe_path k = fe_path x) = (k = x)" if "set ys = set es" for ys
      using d that \<open>k \<in> set es\<close> by (auto simp: distinct_map inj_on_def)
    have one: "filter (\<lambda>x. k = x) ys = [k]" if "distinct ys" "set ys = set es" for ys
    proof -
      obtain l r where ys: "ys = l @ k # r" using split_list [of k ys] \<open>k \<in> set es\<close> \<open>set ys = set es\<close> by blast
      then have "k \<notin> set l" "k \<notin> set r" using \<open>distinct ys\<close> by auto
      then have "filter ((=) k) l = []" "filter ((=) k) r = []" by (auto simp: filter_empty_conv)
      then show ?thesis using ys by simp
    qed
    have "filter (\<lambda>x. fe_path k = fe_path x) ys = [k]" if "distinct ys" "set ys = set es" for ys
      using one [OF that] eq [OF that(2)] by (metis (mono_tags, lifting) filter_cong)
    then show ?thesis using \<open>distinct es\<close> d' s by simp
  qed
qed

lemma decimal_ascii: "\<forall>b \<in> set (as_bytes (decimal n)). unat b < 128"
proof (induction n rule: decimal.induct)
  case (1 n)
  have digit: "unat (of_char (char_of (48 + d)) :: byte) < 128" if "d < 10" for d :: nat
  proof -
    have "d = 0 \<or> d = 1 \<or> d = 2 \<or> d = 3 \<or> d = 4 \<or> d = 5 \<or> d = 6 \<or> d = 7 \<or> d = 8 \<or> d = 9" using that by arith
    then show ?thesis by (elim disjE) (simp_all add: char_of_def of_char_def)
  qed
  show ?case
  proof (cases "n < 10")
    case True
    then show ?thesis using digit [of n] by (subst decimal.simps) (simp add: as_bytes_def)
  next
    case False
    then have "\<forall>b \<in> set (as_bytes (decimal (n div 10))). unat b < 128" using 1 by blast
    with False digit [of "n mod 10"] show ?thesis by (subst decimal.simps) (auto simp: as_bytes_def)
  qed
qed

lemma decimal_length: "n < 10 ^ k \<Longrightarrow> 0 < k \<Longrightarrow> length (decimal n) \<le> k"
proof (induction n arbitrary: k rule: decimal.induct)
  case (1 n)
  show ?case
  proof (cases "n < 10")
    case True
    then show ?thesis using 1(3) by (subst decimal.simps) simp
  next
    case False
    then obtain j where j: "k = Suc j" "0 < j" using 1(2,3) by (cases k; cases "k - 1") auto
    then have "n div 10 < 10 ^ j" using 1(2) by (simp add: less_mult_imp_div_less mult.commute)
    then have "length (decimal (n div 10)) \<le> j" using 1(1) False j(2) by blast
    with False j show ?thesis by (subst decimal.simps) simp
  qed
qed

lemma top_level_prefix_utf8:
  assumes "from_utf8_ok (as_bytes path)"
  shows "from_utf8_ok (as_bytes (top_level_prefix path))"
proof (cases "CHR ''/'' \<in> set path")
  case True
  let ?w = "takeWhile (\<lambda>c. c \<noteq> CHR ''/'') path"
  obtain l rest where l: "path = l @ CHR ''/'' # rest" "CHR ''/'' \<notin> set l" using True by (meson split_list_first)
  have "?w = l" unfolding l(1) using l(2) by (subst takeWhile_append2) auto
  then have path: "path = ?w @ CHR ''/'' # rest" using l(1) by simp
  have slash: "unat (of_char CHR ''/'' :: byte) < 128" by simp
  have "as_bytes path = as_bytes ?w @ as_bytes (CHR ''/'' # rest)"
    using arg_cong [OF path, of as_bytes] by (simp only: as_bytes_def map_append)
  moreover have "unat (hd (as_bytes (CHR ''/'' # rest))) < 128" using slash by (simp add: as_bytes_def)
  ultimately have w: "from_utf8_ok (as_bytes ?w)"
    using assms from_utf8_ok_append [of "as_bytes (CHR ''/'' # rest)" "as_bytes ?w"] by simp
  have "from_utf8_ok (as_bytes ''/'')" using slash by (intro from_utf8_ok_ascii) (simp add: as_bytes_def)
  moreover have "as_bytes (top_level_prefix path) = as_bytes ?w @ as_bytes ''/''"
    using True by (simp add: top_level_prefix_def as_bytes_def)
  ultimately show ?thesis using w slash from_utf8_ok_append [of "as_bytes ''/''" "as_bytes ?w"] by (simp add: as_bytes_def)
qed (simp add: top_level_prefix_def as_bytes_def from_utf8_ok_ascii)

lemma length_top_level_prefix: "length (top_level_prefix path) \<le> length path"
proof (cases "CHR ''/'' \<in> set path")
  case True
  then obtain l rest where l: "path = l @ CHR ''/'' # rest" "CHR ''/'' \<notin> set l" by (meson split_list_first)
  have "takeWhile (\<lambda>c. c \<noteq> CHR ''/'') path = l" unfolding l(1) using l(2) by (subst takeWhile_append2) auto
  with True l(1) show ?thesis by (simp add: top_level_prefix_def)
qed (simp add: top_level_prefix_def)

text \<open>The prefix of a directory with such an entry.\<close>

definition prefix_ok :: "string \<Rightarrow> bool" where
  "prefix_ok prefix \<longleftrightarrow> from_utf8_ok (as_bytes prefix) \<and> length prefix \<le> 65536"

lemma entry_prefix_ok: "entry_v1_ok e \<Longrightarrow> prefix_ok (top_level_prefix (fe_path e))"
  using length_top_level_prefix [of "fe_path e"]
  by (auto simp: entry_v1_ok_def entry_typed_def prefix_ok_def top_level_prefix_utf8)

lemma labelled_rows_ok:
  assumes "prefix_ok prefix" "\<forall>h \<in> set hs. hash_ok h" "length hs \<le> 10000"
  shows "rows_ok (labelled prefix hs)"
proof -
  have row: "length l \<le> 65541 \<and> from_utf8_ok (as_bytes l) \<and> hash_ok h" if "(l, h) \<in> set (labelled prefix hs)" for l h
  proof -
    from that obtain i where i: "l = prefix @ decimal i" "i < length hs" "h \<in> set hs"
      by (auto simp: labelled_def set_zip enumerate_eq_zip)
    have "length (decimal i) \<le> 5" using i(2) assms(3) by (intro decimal_length) simp_all
    moreover have "as_bytes l = as_bytes prefix @ as_bytes (decimal i)" using i(1) by (simp add: as_bytes_def)
    moreover have "as_bytes (decimal i) = [] \<or> unat (hd (as_bytes (decimal i))) < 128"
      using decimal_ascii [of i] by (cases "as_bytes (decimal i)") auto
    ultimately show ?thesis
      using assms(1,2) i from_utf8_ok_append [of "as_bytes (decimal i)" "as_bytes prefix"] from_utf8_ok_ascii [OF decimal_ascii [of i]]
      by (simp add: prefix_ok_def)
  qed
  then have "sum_list (map (\<lambda>(l, h). length l + length h) (labelled prefix hs)) \<le> length (labelled prefix hs) * 65573"
    by (intro sum_list_le) fastforce
  then have "sum_list (map (\<lambda>(l, h). length l + length h) (labelled prefix hs)) \<le> 2 ^ 30"
    using assms(3) by (simp add: labelled_def)
  moreover have "length (labelled prefix hs) = length hs" by (simp add: labelled_def)
  ultimately show ?thesis using row assms(3) by (auto simp: rows_ok_def verifiable_rows_def)
qed

lemma rows_ok_perm: "mset rows = mset rows' \<Longrightarrow> rows_ok rows = rows_ok rows'"
proof -
  assume m: "mset rows = mset rows'"
  let ?f = "\<lambda>(p, h). length p + length h"
  have "sum_mset (mset (map ?f rows)) = sum_mset (mset (map ?f rows'))" using m by simp
  then have "sum_list (map ?f rows) = sum_list (map ?f rows')" by (simp only: sum_mset_sum_list)
  moreover have "length rows = length rows'" "set rows = set rows'"
    using mset_eq_length [OF m] mset_eq_setD [OF m] by simp_all
  ultimately show ?thesis by (simp add: rows_ok_def verifiable_rows_def)
qed

lemma labelled_hashes: "map snd (labelled prefix hs) = hs"
  by (simp add: labelled_def comp_def case_prod_beta)

lemma leaf_pieces_good:
  assumes "sorted_entries es" "c \<in> set (leaf_pieces es)"
  shows "sorted_entries c" "length c \<le> 1000" "set c \<subseteq> set es"
proof -
  have "concat (leaf_pieces es) = es" by (rule concat_leaf_pieces)
  moreover obtain l r where "leaf_pieces es = l @ c # r" using assms(2) by (meson split_list)
  ultimately have "es = concat l @ c @ concat r" by simp
  then show "sorted_entries c" "set c \<subseteq> set es" using assms(1) by (auto simp: sorted_entries_append)
  show "length c \<le> 1000"
    using assms(2) chunks_pieces [OF TARGET_pos, of es] by (auto simp: leaf_pieces_def TARGET_CHUNK_ENTRIES_def split: if_splits)
qed

lemma leaf_pieces_count: "length es \<le> MAX_LOADED_ENTRIES_V1 \<Longrightarrow> length (leaf_pieces es) \<le> 10000"
  using chunks_count [OF TARGET_pos, of es] by (simp add: leaf_pieces_def TARGET_CHUNK_ENTRIES_def MAX_LOADED_ENTRIES_V1_def)

lemma load_prefix:
  assumes fb: "flatbuf_ok fb" and H: "\<And>b. hash_ok (H b)" and es: "sorted_entries es" "\<forall>e \<in> set es. entry_v1_ok e"
    "length es \<le> MAX_LOADED_ENTRIES_V1" and p: "prefix_ok prefix"
    and stored: "\<forall>b \<in> set (prefix_blobs fb H prefix es). get (H b) = Inr b"
  shows "load_all_entries_v1 fb get (prefix_hash fb H prefix es) = Inr es"
proof -
  define cs where "cs = leaf_pieces es"
  let ?b = "leaf_blob_v1 fb" and ?h = "\<lambda>c. H (leaf_blob_v1 fb c)"
  have good: "\<forall>c \<in> set cs. get (?h c) = Inr (?b c) \<and> leaf_chunk_deserialize fb (?b c) = Inr \<lparr>lc_entries = c\<rparr>"
  proof
    fix c assume c: "c \<in> set cs"
    note piece = leaf_pieces_good [OF es(1) c [unfolded cs_def]]
    have "get (?h c) = Inr (?b c)" using stored c by (auto simp: prefix_blobs_def cs_def)
    then show "get (?h c) = Inr (?b c) \<and> leaf_chunk_deserialize fb (?b c) = Inr \<lparr>lc_entries = c\<rparr>"
      using leaf_blob_loads [OF fb _ piece(2,1)] piece(3) es(2) by blast
  qed
  have count: "length cs \<le> 10000" using leaf_pieces_count [OF es(3)] by (simp add: cs_def)
  have all: "concat cs = es" by (simp add: cs_def concat_leaf_pieces)
  have loop: "load_loop fb get visited (map ?h ds) [] = Inr (concat ds) \<and> mset (concat ds) = mset es"
    if "mset ds = mset cs" "visited \<le> 1" for ds visited
  proof -
    have m: "mset (concat ds) = mset es" using mset_concat_perm [OF that(1)] all by simp
    have "length ds = length cs" by (rule mset_eq_length [OF that(1)])
    then have "visited + length ds \<le> MAX_VISITED_NODES_V1" using count that(2) by (simp add: MAX_VISITED_NODES_V1_def)
    moreover have "length (concat ds) \<le> MAX_LOADED_ENTRIES_V1" using es(3) mset_eq_length [OF m] by simp
    moreover have "set ds = set cs" by (rule mset_eq_setD [OF that(1)])
    ultimately have "load_loop fb get visited (map ?h ds) [] = Inr ([] @ concat ds)"
      using good by (intro load_leaves_v1 [where b = "?b"]) simp_all
    with m show ?thesis by simp
  qed
  show ?thesis
  proof (cases "length cs = 1")
    case True
    then obtain c where c: "cs = [c]" by (cases cs) auto
    have "prefix_hash fb H prefix es = ?h c" using c by (simp add: prefix_hash_def leaf_hashes_v1_def cs_def)
    moreover have "load_loop fb get 0 [?h c] [] = Inr es" using loop [of "[c]" 0] c all by (simp del: load_loop.simps)
    ultimately show ?thesis
      using sort_entries_perm [OF es(1), of es] by (simp add: load_all_entries_v1_def del: load_loop.simps)
  next
    case False
    define hs where "hs = leaf_hashes_v1 fb H es"
    define node where "node = internal_node_new (labelled prefix hs)"
    have hs: "hs = map ?h cs" by (simp add: hs_def leaf_hashes_v1_def cs_def)
    have hash: "prefix_hash fb H prefix es = H (node_blob_v1 fb prefix hs)"
      using False hs by (simp add: prefix_hash_def hs_def [symmetric] Let_def)
    have blob: "node_blob_v1 fb prefix hs = internal_node_serialize fb node" by (simp add: node_blob_v1_def node_def)
    have get: "get (H (node_blob_v1 fb prefix hs)) = Inr (internal_node_serialize fb node)"
      using stored False blob by (simp add: prefix_blobs_def hs_def cs_def)
    have perm: "mset (in_children node) = mset (labelled prefix hs)" by (simp add: node_def internal_node_new_def)
    have "rows_ok (labelled prefix hs)" using labelled_rows_ok [OF p, of hs] H count hs by auto
    then have rows: "rows_ok (in_children node)" using rows_ok_perm [OF perm] by simp
    have "mset (map snd (in_children node)) = mset (map snd (labelled prefix hs))"
      using perm by (metis mset_map)
    then have "mset (map snd (in_children node)) = mset (map ?h cs)" by (simp only: labelled_hashes hs)
    from mset_map_order [OF this]
    obtain ds where ds: "map snd (in_children node) = map ?h ds" "mset ds = mset cs" by blast
    have "load_loop fb get 0 [H (node_blob_v1 fb prefix hs)] [] = load_loop fb get 1 (map ?h ds) []"
      using get internal_node_roundtrip [OF fb rows] internal_not_leaf [OF fb rows] ds(1)
      by (simp add: MAX_VISITED_NODES_V1_def)
    then show ?thesis
      using loop [OF ds(2), of 1] sort_entries_perm [OF es(1), of "concat ds"] hash
      by (simp add: load_all_entries_v1_def del: load_loop.simps)
  qed
qed

end
