(* ===== verification/Tree_V1_Update.thy ===== *)
theory Tree_V1_Update
  imports Tree_V1 Flatbuf_Layer
begin

text \<open>
  Correctness of Tree v1: the child list a vault state stands for (\<open>children_of\<close>), the invariant
  \<open>tree_v1_inv\<close> that ties a root to the entries it stands for and to the store, and the runs of
  \<open>build_tree_v1\<close> and \<open>update_tree_v1\<close> on a store whose puts succeed. An update touches one
  directory at a time; each step keeps the invariant, so the result is the child list of the
  changed vault state, which is also what a full build gives.
\<close>

section \<open>Groups by directory\<close>

abbreviation entry_prefix :: "FileEntry \<Rightarrow> string" where
  "entry_prefix e \<equiv> top_level_prefix (fe_path e)"

definition group_of :: "string \<Rightarrow> FileEntry list \<Rightarrow> FileEntry list" where
  "group_of p es = filter (\<lambda>e. entry_prefix e = p) es"

lemma group_of_simps [simp]:
  "group_of p [] = []" "group_of p (es @ fs) = group_of p es @ group_of p fs"
  "group_of p [e] = (if entry_prefix e = p then [e] else [])"
  by (simp_all add: group_of_def)

lemma set_group_of: "set (group_of p es) = {e \<in> set es. entry_prefix e = p}"
  by (auto simp: group_of_def)

lemma group_of_empty_iff: "group_of p es = [] \<longleftrightarrow> p \<notin> entry_prefix ` set es"
  by (auto simp: group_of_def filter_empty_conv)

lemma sorted_group_of: "sorted_entries es \<Longrightarrow> sorted_entries (group_of p es)"
  by (simp add: sorted_entries_def group_of_def strict_by_filter)

lemma group_of_sort: "group_of p (sort_key fe_path es) = sort_key fe_path (group_of p es)"
  by (simp add: group_of_def filter_sort)

lemma groups_correct:
  "bt_ok (foldl group_push [] es) \<and>
   map_of (foldl group_push [] es) p = (if group_of p es = [] then None else Some (group_of p es))"
proof (induction es arbitrary: p rule: rev_induct)
  case (snoc e es)
  define t where "t = foldl group_push [] es"
  have ok: "bt_ok t" and look: "\<And>q. map_of t q = (if group_of q es = [] then None else Some (group_of q es))"
    using snoc unfolding t_def by blast+
  have step: "foldl group_push [] (es @ [e]) = group_push t e" by (simp add: t_def)
  show ?case unfolding step unfolding group_push_def
    using btree_update_ok [OF ok] by (auto simp: map_of_btree_update [OF ok] look)
qed simp

text \<open>The child list a vault state stands for.\<close>

definition children_of :: "flatbuf \<Rightarrow> (bytes \<Rightarrow> FileHash) \<Rightarrow> FileEntry list \<Rightarrow> (string, FileHash) btree" where
  "children_of fb H es =
     map (\<lambda>(p, g). (p, prefix_hash fb H p (sort_key fe_path g))) (foldl group_push [] es)"

lemma children_of_ok: "bt_ok (children_of fb H es)"
proof -
  have "map fst (children_of fb H es) = map fst (foldl group_push [] es)"
    by (simp add: children_of_def comp_def case_prod_beta)
  then show ?thesis using groups_correct [of es] by simp
qed

lemma map_of_children:
  "map_of (children_of fb H es) p =
     (if group_of p es = [] then None else Some (prefix_hash fb H p (sort_key fe_path (group_of p es))))"
proof -
  have "map_of (map (\<lambda>(p, g). (p, f p g)) t) p = map_option (f p) (map_of t p)" for f :: "string \<Rightarrow> FileEntry list \<Rightarrow> FileHash" and t
    by (induction t) auto
  then show ?thesis using groups_correct [of es p] by (simp add: children_of_def)
qed

lemma sort_sorted_v1: "sorted_entries es \<Longrightarrow> sort_key fe_path es = es"
  by (rule sort_entries_perm) simp_all

lemma map_of_children_sorted:
  "sorted_entries es \<Longrightarrow> map_of (children_of fb H es) p =
     (if group_of p es = [] then None else Some (prefix_hash fb H p (group_of p es)))"
  by (simp add: map_of_children sort_sorted_v1 sorted_group_of)

lemma children_of_sort: "children_of fb H (sort_key fe_path es) = children_of fb H es"
proof (rule bt_eqI [OF children_of_ok children_of_ok], rule ext)
  fix p
  have "group_of p (sort_key fe_path es) = [] \<longleftrightarrow> group_of p es = []"
    by (simp add: group_of_empty_iff)
  then show "map_of (children_of fb H (sort_key fe_path es)) p = map_of (children_of fb H es) p"
    by (simp add: map_of_children group_of_sort sort_key_id_if_sorted)
qed

definition tree_blobs :: "flatbuf \<Rightarrow> (bytes \<Rightarrow> FileHash) \<Rightarrow> FileEntry list \<Rightarrow> bytes set" where
  "tree_blobs fb H es = (\<Union>p \<in> entry_prefix ` set es. set (prefix_blobs fb H p (group_of p es)))"

lemma group_blobs_sub: "group_of p es \<noteq> [] \<Longrightarrow> set (prefix_blobs fb H p (group_of p es)) \<subseteq> tree_blobs fb H es"
  unfolding tree_blobs_def group_of_empty_iff by blast

text \<open>\<open>tree_v1_inv\<close>: the child list and the file count are those of the entries, and the blobs of every
  directory can be read.\<close>

definition tree_v1_inv ::
  "flatbuf \<Rightarrow> (bytes \<Rightarrow> FileHash) \<Rightarrow> lookup \<Rightarrow> (string, FileHash) btree \<Rightarrow> u64 \<Rightarrow> FileEntry list \<Rightarrow> bool" where
  "tree_v1_inv fb H get children files es \<longleftrightarrow>
     sorted_entries es \<and> (\<forall>e \<in> set es. entry_v1_ok e) \<and> length es \<le> MAX_LOADED_ENTRIES_V1
     \<and> children = children_of fb H es \<and> files = of_nat (length es)
     \<and> (\<forall>b \<in> tree_blobs fb H es. get (H b) = Inr b)"

lemma tree_v1_inv_mono: "grows get get' \<Longrightarrow> tree_v1_inv fb H get c t es \<Longrightarrow> tree_v1_inv fb H get' c t es"
  by (auto simp: tree_v1_inv_def grows_def)

lemma inv_loads_prefix:
  assumes "flatbuf_ok fb" "\<And>b. hash_ok (H b)" "tree_v1_inv fb H get children files es" "map_of children p = Some h"
  shows "load_all_entries_v1 fb get h = Inr (group_of p es)"
proof -
  have inv: "sorted_entries es" "\<forall>e \<in> set es. entry_v1_ok e" "length es \<le> MAX_LOADED_ENTRIES_V1"
      "children = children_of fb H es" "\<forall>b \<in> tree_blobs fb H es. get (H b) = Inr b"
    using assms(3) by (simp_all add: tree_v1_inv_def)
  have ne: "group_of p es \<noteq> []" and h: "h = prefix_hash fb H p (group_of p es)"
    using assms(4) by (auto simp: inv(4) map_of_children_sorted [OF inv(1)] split: if_splits)
  then obtain e where e: "e \<in> set es" "entry_prefix e = p" by (auto simp: group_of_empty_iff)
  have p: "prefix_ok p" using entry_prefix_ok [of e] inv(2) e by auto
  have blobs: "\<forall>b \<in> set (prefix_blobs fb H p (group_of p es)). get (H b) = Inr b"
    using inv(5) e unfolding tree_blobs_def by blast
  have len: "length (group_of p es) \<le> MAX_LOADED_ENTRIES_V1"
    using inv(3) length_filter_le [of _ es] unfolding group_of_def by (rule order_trans [rotated])
  have typed: "\<forall>e \<in> set (group_of p es). entry_v1_ok e" using inv(2) by (simp add: set_group_of)
  show ?thesis
    unfolding h by (rule load_prefix [where H = H, OF assms(1,2) sorted_group_of [OF inv(1)] typed len p blobs])
qed

section \<open>One changed directory\<close>

lemma option_eqI: "(\<And>e. x = Some e \<longleftrightarrow> y = Some e) \<Longrightarrow> x = y"
  by (cases x; cases y) blast+

lemma entry_map_group_of:
  "sorted_entries es \<Longrightarrow> entry_map (group_of p es) q = (if top_level_prefix q = p then entry_map es q else None)"
proof -
  assume s: "sorted_entries es"
  have "entry_map (group_of p es) q = Some e \<longleftrightarrow> (if top_level_prefix q = p then entry_map es q else None) = Some e" for e
    by (auto simp: entry_map_Some [OF s] entry_map_Some [OF sorted_group_of [OF s]] set_group_of)
  then show ?thesis by (rule option_eqI)
qed

lemma apply_changes_at:
  "apply_changes m changed deleted q =
     (case last_upsert changed q of Some e \<Rightarrow> Some e | None \<Rightarrow> if q \<in> set deleted then None else m q)"
  by (simp add: apply_changes_def foldl_upsert_one restrict_map_def split: option.split)

lemma last_upsert_SomeD: "last_upsert es q = Some e \<Longrightarrow> e \<in> set es \<and> fe_path e = q"
proof -
  assume "last_upsert es q = Some e"
  then have "e \<in> set (rev (filter (\<lambda>e. fe_path e = q) es))"
    unfolding last_upsert_def by (cases "rev (filter (\<lambda>e. fe_path e = q) es)") simp_all
  then show ?thesis by simp
qed

lemma merge_prefix_set:
  assumes "sorted_entries es" "e \<in> set (merge_prefix_entries es adds dels)"
  shows "e \<in> set es \<union> set adds"
proof -
  note m = merge_prefix_entries_correct [OF assms(1), of adds dels]
  have "entry_map (merge_prefix_entries es adds dels) (fe_path e) = Some e" using assms(2) by (simp add: entry_map_Some [OF m(1)])
  then have "apply_changes (entry_map es) adds dels (fe_path e) = Some e" by (simp add: m(2))
  then show ?thesis
    by (auto simp: apply_changes_at split: option.splits if_splits dest: last_upsert_SomeD entry_map_SomeD)
qed

lemma merge_prefix_length:
  assumes "sorted_entries es"
  shows "length (merge_prefix_entries es adds dels) \<le> length es + length adds"
proof -
  let ?r = "merge_prefix_entries es adds dels"
  have "distinct ?r"
    using sorted_entries_distinct_paths [OF merge_prefix_entries_correct(1) [OF assms]] by (auto simp: distinct_map)
  then have "length ?r = card (set ?r)" by (simp add: distinct_card)
  also have "\<dots> \<le> card (set es \<union> set adds)" using merge_prefix_set [OF assms] by (intro card_mono) auto
  also have "\<dots> \<le> card (set es) + card (set adds)" by (rule card_Un_le)
  also have "\<dots> \<le> length es + length adds" by (intro add_mono card_length)
  finally show ?thesis .
qed

text \<open>A change of one directory, seen in that directory and in every other one.\<close>

definition of_prefix :: "string \<Rightarrow> FileEntry list \<Rightarrow> string list \<Rightarrow> bool" where
  "of_prefix p adds dels \<longleftrightarrow> (\<forall>e \<in> set adds. entry_prefix e = p) \<and> (\<forall>q \<in> set dels. top_level_prefix q = p)"

lemma merge_other_prefix:
  assumes "of_prefix p adds dels" "top_level_prefix q \<noteq> p"
  shows "apply_changes m adds dels q = m q"
  using assms last_upsert_SomeD [of adds q]
  by (auto simp: apply_changes_at of_prefix_def split: option.splits)

lemma group_of_merge:
  assumes es: "sorted_entries es" and c: "of_prefix p adds dels"
  shows "group_of r (merge_prefix_entries es adds dels) =
    (if r = p then merge_prefix_entries (group_of p es) adds dels else group_of r es)"
proof (rule sorted_entries_same_map)
  note m = merge_prefix_entries_correct [OF es, of adds dels]
  note g = merge_prefix_entries_correct [OF sorted_group_of [OF es], of p adds dels]
  show "sorted_entries (group_of r (merge_prefix_entries es adds dels))" by (rule sorted_group_of [OF m(1)])
  show "sorted_entries (if r = p then merge_prefix_entries (group_of p es) adds dels else group_of r es)"
    using g(1) sorted_group_of [OF es] by simp
  show "entry_map (group_of r (merge_prefix_entries es adds dels)) =
    entry_map (if r = p then merge_prefix_entries (group_of p es) adds dels else group_of r es)"
  proof (rule ext)
    fix q
    have out: "last_upsert adds q = None \<and> q \<notin> set dels" if "top_level_prefix q \<noteq> p"
      using c that last_upsert_SomeD [of adds q] by (cases "last_upsert adds q") (auto simp: of_prefix_def)
    have left: "entry_map (group_of r (merge_prefix_entries es adds dels)) q =
        (if top_level_prefix q = r then apply_changes (entry_map es) adds dels q else None)"
      by (simp add: entry_map_group_of [OF m(1)] m(2))
    have right: "apply_changes (entry_map (group_of p es)) adds dels q =
        (if top_level_prefix q = p then apply_changes (entry_map es) adds dels q else None)"
      using out by (auto simp: apply_changes_at entry_map_group_of [OF es] split: option.splits)
    show "entry_map (group_of r (merge_prefix_entries es adds dels)) q =
      entry_map (if r = p then merge_prefix_entries (group_of p es) adds dels else group_of r es) q"
      using left right merge_other_prefix [OF c, of q "entry_map es"] by (auto simp: g(2) entry_map_group_of [OF es])
  qed
qed

lemma length_by_prefix:
  "length es = length (group_of p es) + length (filter (\<lambda>e. entry_prefix e \<noteq> p) es)"
  unfolding group_of_def by (rule sum_length_filter_compl [symmetric])

lemma length_merge:
  assumes es: "sorted_entries es" and c: "of_prefix p adds dels"
  shows "length (merge_prefix_entries es adds dels) + length (group_of p es) =
    length es + length (merge_prefix_entries (group_of p es) adds dels)"
proof -
  let ?m = "merge_prefix_entries es adds dels"
  have rest: "filter (\<lambda>e. entry_prefix e \<noteq> p) ?m = filter (\<lambda>e. entry_prefix e \<noteq> p) es"
  proof (rule sorted_entries_same_map)
    note m = merge_prefix_entries_correct [OF es, of adds dels]
    show s: "sorted_entries (filter (\<lambda>e. entry_prefix e \<noteq> p) ?m)" "sorted_entries (filter (\<lambda>e. entry_prefix e \<noteq> p) es)"
      using m(1) es by (simp_all add: sorted_entries_def strict_by_filter)
    show "entry_map (filter (\<lambda>e. entry_prefix e \<noteq> p) ?m) = entry_map (filter (\<lambda>e. entry_prefix e \<noteq> p) es)"
    proof (intro ext option_eqI)
      fix q e
      have "entry_map ?m q = entry_map es q" if "top_level_prefix q \<noteq> p"
        using merge_other_prefix [OF c that] by (simp add: m(2))
      then show "entry_map (filter (\<lambda>e. entry_prefix e \<noteq> p) ?m) q = Some e \<longleftrightarrow>
          entry_map (filter (\<lambda>e. entry_prefix e \<noteq> p) es) q = Some e"
        using entry_map_Some [OF es, of q e] entry_map_Some [OF m(1), of q e] by (auto simp: entry_map_Some [OF s(1)] entry_map_Some [OF s(2)])
    qed
  qed
  show ?thesis
    using length_by_prefix [of ?m p] length_by_prefix [of es p] group_of_merge [OF es c, of p] rest by simp
qed

text \<open>The child list after the step, as the code writes it at the position of the binary search.\<close>

lemma put_child:
  assumes "bt_ok t"
  shows "(case bt_find p t of Inr i \<Rightarrow> t[i := (fst (t ! i), h)] | Inl i \<Rightarrow> take i t @ (p, h) # drop i t) = btree_insert p h t"
  using assms
proof (cases rule: bt_find_cases [where k = p])
  case (absent l r)
  have "bt_ok (l @ (p, h) # r)" using assms absent(1,4,5) by (simp add: sorted_wrt_append)
  moreover have "map_of (l @ (p, h) # r) = map_of (btree_insert p h t)"
  proof (rule ext)
    fix q
    have "map_of l p = None" using absent(4) by (force simp: map_of_eq_None_iff)
    then show "map_of (l @ (p, h) # r) q = map_of (btree_insert p h t) q"
      unfolding map_of_btree_insert [OF assms] by (auto simp: absent(1) map_add_def split: option.splits)
  qed
  ultimately have "l @ (p, h) # r = btree_insert p h t" using bt_eqI btree_insert_ok [OF assms] by blast
  then show ?thesis using absent(1,2) by simp
next
  case (present l v r)
  have "bt_ok (l @ (p, h) # r)" using assms present(1) by (simp add: sorted_wrt_append)
  moreover have "map_of (l @ (p, h) # r) = map_of (btree_insert p h t)"
  proof (rule ext)
    fix q
    have "map_of l p = None" using present(4) by (force simp: map_of_eq_None_iff)
    then show "map_of (l @ (p, h) # r) q = map_of (btree_insert p h t) q"
      unfolding map_of_btree_insert [OF assms] by (auto simp: present(1) map_add_def split: option.splits)
  qed
  ultimately have "l @ (p, h) # r = btree_insert p h t" using bt_eqI btree_insert_ok [OF assms] by blast
  then show ?thesis using present(1,2) by simp
qed

lemma drop_child:
  assumes "bt_ok t"
  shows "(case bt_find p t of Inr i \<Rightarrow> take i t @ drop (Suc i) t | Inl _ \<Rightarrow> t) = btree_remove p t"
  using assms
proof (cases rule: bt_find_cases [where k = p])
  case (absent l r)
  have "filter (\<lambda>(k, v). k \<noteq> p) t = t"
    using absent(1,4,5) by (intro filter_True) fastforce
  then show ?thesis using absent(2) by (simp add: btree_remove_def)
next
  case (present l v r)
  have "filter (\<lambda>(k, v). k \<noteq> p) l = l" "filter (\<lambda>(k, v). k \<noteq> p) r = r"
    using present(4,5) by (auto intro!: filter_True)
  then show ?thesis using present(1,2) by (simp add: btree_remove_def)
qed

lemma children_after:
  assumes es: "sorted_entries es" and c: "of_prefix p adds dels"
  defines "g \<equiv> merge_prefix_entries (group_of p es) adds dels"
  shows "children_of fb H (merge_prefix_entries es adds dels) =
    (if g = [] then btree_remove p (children_of fb H es)
     else btree_insert p (prefix_hash fb H p g) (children_of fb H es))"
proof (rule bt_eqI)
  note m = merge_prefix_entries_correct [OF es, of adds dels]
  show "bt_ok (children_of fb H (merge_prefix_entries es adds dels))" by (rule children_of_ok)
  show "bt_ok (if g = [] then btree_remove p (children_of fb H es)
      else btree_insert p (prefix_hash fb H p g) (children_of fb H es))"
    using children_of_ok [of fb H es] by (simp add: btree_remove_ok btree_insert_ok)
  show "map_of (children_of fb H (merge_prefix_entries es adds dels)) =
    map_of (if g = [] then btree_remove p (children_of fb H es)
      else btree_insert p (prefix_hash fb H p g) (children_of fb H es))"
    by (rule ext) (auto simp: map_of_children_sorted [OF m(1)] map_of_children_sorted [OF es] group_of_merge [OF es c]
        g_def map_of_btree_remove map_of_btree_insert [OF children_of_ok])
qed

definition merge_change :: "FileEntry list \<Rightarrow> string \<times> FileEntry list \<times> string list \<Rightarrow> FileEntry list" where
  "merge_change es c = (case c of (p, adds, dels) \<Rightarrow> merge_prefix_entries es adds dels)"

text \<open>The blobs one step writes: none when the directory becomes empty.\<close>

definition step_blobs :: "flatbuf \<Rightarrow> (bytes \<Rightarrow> FileHash) \<Rightarrow> FileEntry list \<Rightarrow> string \<times> FileEntry list \<times> string list \<Rightarrow> bytes set" where
  "step_blobs fb H es c =
     (case c of (p, adds, dels) \<Rightarrow> let g = merge_prefix_entries (group_of p es) adds dels in
        if g = [] then {} else set (prefix_blobs fb H p g))"

lemma tree_blobs_after:
  assumes es: "sorted_entries es" and c: "of_prefix p adds dels"
  shows "tree_blobs fb H (merge_prefix_entries es adds dels) \<subseteq> tree_blobs fb H es \<union> step_blobs fb H es (p, adds, dels)"
proof
  fix b assume "b \<in> tree_blobs fb H (merge_prefix_entries es adds dels)"
  then obtain q where q: "q \<in> entry_prefix ` set (merge_prefix_entries es adds dels)"
      "b \<in> set (prefix_blobs fb H q (group_of q (merge_prefix_entries es adds dels)))"
    by (auto simp: tree_blobs_def)
  then have ne: "group_of q (merge_prefix_entries es adds dels) \<noteq> []" by (auto simp: group_of_empty_iff)
  show "b \<in> tree_blobs fb H es \<union> step_blobs fb H es (p, adds, dels)"
  proof (cases "q = p")
    case True
    then show ?thesis using q(2) ne by (simp add: group_of_merge [OF es c] step_blobs_def Let_def)
  next
    case False
    then have "q \<in> entry_prefix ` set es" using ne by (simp add: group_of_merge [OF es c] group_of_empty_iff)
    then show ?thesis using q(2) False by (auto simp: tree_blobs_def group_of_merge [OF es c])
  qed
qed

context reliable_store
begin

lemma update_prefix_run:
  assumes fb: "flatbuf_ok fb" and H: "\<And>b. hash_ok (H b)" and s: "ok s"
    and inv: "tree_v1_inv fb H (\<lambda>h. get_op ops h s) children files es"
    and c: "of_prefix p adds dels" "\<forall>e \<in> set adds. entry_v1_ok e"
    and len: "length (merge_prefix_entries es adds dels) \<le> MAX_LOADED_ENTRIES_V1"
    and inj: "inj_on H (resident s \<union> step_blobs fb H es (p, adds, dels))"
  obtains children' files' s' where
    "update_prefix ops fb H p adds dels children files s = (Inr (children', files'), s')" "ok s'"
    "tree_v1_inv fb H (\<lambda>h. get_op ops h s') children' files' (merge_prefix_entries es adds dels)"
    "grows (\<lambda>h. get_op ops h s) (\<lambda>h. get_op ops h s')"
    "resident s' \<subseteq> resident s \<union> step_blobs fb H es (p, adds, dels)"
proof -
  let ?get = "\<lambda>s h. get_op ops h s"
  define g where "g = merge_prefix_entries (group_of p es) adds dels"
  define es' where "es' = merge_prefix_entries es adds dels"
  define files' where "files' = files - of_nat (length (group_of p es)) + of_nat (length g)"
  have es: "sorted_entries es" "\<forall>e \<in> set es. entry_v1_ok e" "children = children_of fb H es" "files = of_nat (length es)"
      "\<forall>b \<in> tree_blobs fb H es. ?get s (H b) = Inr b"
    using inv by (simp_all add: tree_v1_inv_def)
  have ok: "bt_ok children" using es(3) children_of_ok by simp
  define load_child where "load_child = (case bt_find p children of
        Inr i \<Rightarrow> (\<lambda>s. (load_all_entries_v1 fb (?get s) (snd (children ! i)), s)) | Inl _ \<Rightarrow> io_return [])"
  have load: "load_child s = (Inr (group_of p es), s)"
    using ok
  proof (cases rule: bt_find_cases [where k = p])
    case (absent l r)
    have "group_of p es = []"
      using absent(3) unfolding es(3) by (simp add: map_of_children_sorted [OF es(1)] split: if_splits)
    then show ?thesis using absent(2) by (simp add: load_child_def)
  next
    case (present l v r)
    then show ?thesis using inv_loads_prefix [where H = H, OF fb H inv present(3)] by (simp add: load_child_def)
  qed
  have count: "files' = of_nat (length es')"
  proof -
    have "length es' + length (group_of p es) = length es + length g"
      unfolding es'_def g_def by (rule length_merge [OF es(1) c(1)])
    then have "(of_nat (length es' + length (group_of p es)) :: u64) = of_nat (length es + length g)" by (rule arg_cong)
    then show ?thesis unfolding files'_def es(4) by (simp add: algebra_simps)
  qed
  have typed: "\<forall>e \<in> set es'. entry_v1_ok e" using merge_prefix_set [OF es(1)] es(2) c(2) unfolding es'_def by blast
  have sorted: "sorted_entries es'" unfolding es'_def by (rule merge_prefix_entries_correct(1) [OF es(1)])
  have invI: "tree_v1_inv fb H (?get s') (children_of fb H es') files' es'"
    if "grows (?get s) (?get s')" "\<forall>b \<in> step_blobs fb H es (p, adds, dels). ?get s' (H b) = Inr b" for s'
  proof -
    have "\<forall>b \<in> tree_blobs fb H es. ?get s' (H b) = Inr b" using es(5) that(1) by (simp add: grows_def)
    then have "\<forall>b \<in> tree_blobs fb H es'. ?get s' (H b) = Inr b"
      using tree_blobs_after [OF es(1) c(1), of fb H] that(2) unfolding es'_def by blast
    then show ?thesis using typed sorted len count by (simp add: tree_v1_inv_def es'_def)
  qed
  show thesis
  proof (cases "g = []")
    case True
    have "children_of fb H es' = btree_remove p children"
      using children_after [OF es(1) c(1), of fb H] True es(3) by (simp add: g_def es'_def)
    then have run: "update_prefix ops fb H p adds dels children files s = (Inr (children_of fb H es', files'), s)"
      unfolding update_prefix_def Let_def load_child_def [symmetric] io_bind_run [where m = load_child and s = s, OF load] using True drop_child [OF ok, of p]
      by (simp add: g_def [symmetric] files'_def)
    have none: "step_blobs fb H es (p, adds, dels) = {}" using True by (simp add: step_blobs_def g_def)
    have grow: "grows (?get s) (?get s)" by (simp add: grows_def)
    have "\<forall>b \<in> step_blobs fb H es (p, adds, dels). ?get s (H b) = Inr b" by (simp add: none)
    note inv' = invI [OF grow this]
    have "tree_v1_inv fb H (?get s) (children_of fb H es') files' (merge_prefix_entries es adds dels)"
      using inv' unfolding es'_def .
    then show thesis by (rule that [OF run s _ grow]) simp
  next
    case False
    then have blobs: "step_blobs fb H es (p, adds, dels) = set (prefix_blobs fb H p g)" by (simp add: step_blobs_def g_def Let_def)
    obtain s' where st: "store_prefix ops fb H p g s = (Inr (prefix_hash fb H p g), s')" "ok s'"
        "grows (?get s) (?get s')" "resident s' \<subseteq> resident s \<union> set (prefix_blobs fb H p g)"
        "\<forall>b \<in> set (prefix_blobs fb H p g). ?get s' (H b) = Inr b"
      using store_prefix_run [OF s inj [unfolded blobs]] by blast
    have "children_of fb H es' = btree_insert p (prefix_hash fb H p g) children"
      using children_after [OF es(1) c(1), of fb H] False es(3) by (simp add: g_def es'_def)
    then have run: "update_prefix ops fb H p adds dels children files s = (Inr (children_of fb H es', files'), s')"
      unfolding update_prefix_def Let_def load_child_def [symmetric] io_bind_run [where m = load_child and s = s, OF load] using False put_child [OF ok, of p] st(1)
      by (simp add: g_def [symmetric] files'_def io_bind_run [where m = "store_prefix ops fb H p g" and s = s, OF st(1)])
    have "\<forall>b \<in> step_blobs fb H es (p, adds, dels). ?get s' (H b) = Inr b" using st(5) by (simp add: blobs)
    note inv' = invI [OF st(3) this]
    have "tree_v1_inv fb H (?get s') (children_of fb H es') files' (merge_prefix_entries es adds dels)"
      using inv' unfolding es'_def .
    then show thesis by (rule that [OF run st(2) _ st(3)]) (use st(4) blobs in simp)
  qed
qed

end

section \<open>All changed directories\<close>

lemma merge_change_sorted: "sorted_entries es \<Longrightarrow> sorted_entries (merge_change es c)"
  by (cases c) (simp add: merge_change_def merge_prefix_entries_correct(1))

definition change_ok :: "string \<times> FileEntry list \<times> string list \<Rightarrow> bool" where
  "change_ok c \<longleftrightarrow> (case c of (p, adds, dels) \<Rightarrow> of_prefix p adds dels \<and> (\<forall>e \<in> set adds. entry_v1_ok e))"

lemma step_blobs_other:
  assumes "sorted_entries es" "change_ok c" "fst c \<noteq> fst d"
  shows "step_blobs fb H (merge_change es c) d = step_blobs fb H es d"
proof -
  obtain p a ds where c: "c = (p, a, ds)" by (cases c)
  obtain q b fs where d: "d = (q, b, fs)" by (cases d)
  have "group_of q (merge_prefix_entries es a ds) = group_of q es"
    using group_of_merge [OF assms(1), of p a ds q] assms(2,3) c d by (simp add: change_ok_def)
  then show ?thesis by (simp add: step_blobs_def merge_change_def c d)
qed

context reliable_store
begin

lemma update_prefixes_run:
  assumes fb: "flatbuf_ok fb" and H: "\<And>b. hash_ok (H b)"
    and U: "finite U" "card U \<le> MAX_LOADED_ENTRIES_V1" and inj: "inj_on H B"
  shows "ok s \<Longrightarrow> tree_v1_inv fb H (\<lambda>h. get_op ops h s) children files es \<Longrightarrow> distinct (map fst changes) \<Longrightarrow>
    \<forall>c \<in> set changes. change_ok c \<and> set (fst (snd c)) \<subseteq> U \<and> step_blobs fb H es c \<subseteq> B \<Longrightarrow>
    set es \<subseteq> U \<Longrightarrow> resident s \<subseteq> B \<Longrightarrow>
    \<exists>children' files' s'. update_prefixes ops fb H changes children files s = (Inr (children', files'), s') \<and> ok s'
      \<and> tree_v1_inv fb H (\<lambda>h. get_op ops h s') children' files' (foldl merge_change es changes)
      \<and> grows (\<lambda>h. get_op ops h s) (\<lambda>h. get_op ops h s') \<and> resident s' \<subseteq> B"
proof (induction changes arbitrary: s children files es)
  case Nil
  then show ?case by (auto simp: grows_def)
next
  case (Cons c changes)
  obtain p adds dels where c: "c = (p, adds, dels)" by (cases c)
  define es' where "es' = merge_prefix_entries es adds dels"
  have sorted: "sorted_entries es" using Cons.prems(2) by (simp add: tree_v1_inv_def)
  have this_change: "of_prefix p adds dels" "\<forall>e \<in> set adds. entry_v1_ok e" "set adds \<subseteq> U" "step_blobs fb H es (p, adds, dels) \<subseteq> B"
    using Cons.prems(4) c by (auto simp: change_ok_def)
  have sub: "set es' \<subseteq> U" using merge_prefix_set [OF sorted] Cons.prems(5) this_change(3) unfolding es'_def by blast
  have "distinct es'"
    using sorted_entries_distinct_paths [OF merge_prefix_entries_correct(1) [OF sorted]] by (auto simp: distinct_map es'_def)
  then have "length es' = card (set es')" by (simp add: distinct_card)
  then have len: "length es' \<le> MAX_LOADED_ENTRIES_V1" using card_mono [OF U(1) sub] U(2) by simp
  have "inj_on H (resident s \<union> step_blobs fb H es (p, adds, dels))"
    by (rule inj_on_subset [OF inj]) (use Cons.prems(6) this_change(4) in simp)
  then obtain children' files' s' where step:
      "update_prefix ops fb H p adds dels children files s = (Inr (children', files'), s')" "ok s'"
      "tree_v1_inv fb H (\<lambda>h. get_op ops h s') children' files' (merge_prefix_entries es adds dels)"
      "grows (\<lambda>h. get_op ops h s) (\<lambda>h. get_op ops h s')" "resident s' \<subseteq> resident s \<union> step_blobs fb H es (p, adds, dels)"
    by (rule update_prefix_run [OF fb H Cons.prems(1,2) this_change(1,2) len [unfolded es'_def]])
  note inv' = step(3) [folded es'_def]
  have cs: "merge_change es c = es'" by (simp add: c es'_def merge_change_def)
  have "step_blobs fb H es' d = step_blobs fb H es d" if "d \<in> set changes" for d
    using step_blobs_other [OF sorted, of c d] Cons.prems(3,4) that cs by force
  then have later: "\<forall>d \<in> set changes. change_ok d \<and> set (fst (snd d)) \<subseteq> U \<and> step_blobs fb H es' d \<subseteq> B"
    using Cons.prems(4) by simp
  have res: "resident s' \<subseteq> B" using step(5) Cons.prems(6) this_change(4) by blast
  have "distinct (map fst changes)" using Cons.prems(3) by simp
  from Cons.IH [OF step(2) inv' this later sub res] obtain children2 files2 s2 where rest:
      "update_prefixes ops fb H changes children' files' s' = (Inr (children2, files2), s2)" "ok s2"
      "tree_v1_inv fb H (\<lambda>h. get_op ops h s2) children2 files2 (foldl merge_change es' changes)"
      "grows (\<lambda>h. get_op ops h s') (\<lambda>h. get_op ops h s2)" "resident s2 \<subseteq> B"
    by blast
  have "update_prefixes ops fb H (c # changes) children files s = (Inr (children2, files2), s2)"
    using rest(1) by (simp add: c io_bind_run [where m = "update_prefix ops fb H p adds dels children files" and s = s, OF step(1)])
  moreover have "grows (\<lambda>h. get_op ops h s) (\<lambda>h. get_op ops h s2)" using step(4) rest(4) by (simp add: grows_def)
  ultimately show ?case using rest(2,3,5) cs by simp
qed

end

section \<open>Grouping the changes\<close>

definition dels_of :: "string \<Rightarrow> string list \<Rightarrow> string list" where
  "dels_of p deleted = filter (\<lambda>q. top_level_prefix q = p) deleted"

lemma dels_of_simps [simp]:
  "dels_of p [] = []" "dels_of p (ds @ fs) = dels_of p ds @ dels_of p fs"
  "dels_of p [q] = (if top_level_prefix q = p then [q] else [])"
  by (simp_all add: dels_of_def)

definition grouped :: "FileEntry list \<Rightarrow> string list \<Rightarrow> (string, FileEntry list \<times> string list) btree \<Rightarrow> bool" where
  "grouped changed deleted t \<longleftrightarrow> bt_ok t \<and> (\<forall>p. map_of t p =
     (if group_of p changed = [] \<and> dels_of p deleted = [] then None else Some (group_of p changed, dels_of p deleted)))"

lemma grouped_change: "grouped changed deleted t \<Longrightarrow> grouped (changed @ [e]) deleted (push_change t e)"
  unfolding grouped_def push_change_def
  by (auto simp: btree_update_ok map_of_btree_update split: if_splits option.splits)

lemma grouped_deletion: "grouped changed deleted t \<Longrightarrow> grouped changed (deleted @ [q]) (push_deletion t q)"
  unfolding grouped_def push_deletion_def
  by (auto simp: btree_update_ok map_of_btree_update split: if_splits option.splits)

lemma changes_grouped: "grouped changed deleted (foldl push_deletion (foldl push_change [] changed) deleted)"
proof (induction deleted rule: rev_induct)
  case Nil
  show ?case
  proof (induction changed rule: rev_induct)
    case Nil
    show ?case by (simp add: grouped_def)
  next
    case (snoc e changed)
    then show ?case using grouped_change by simp
  qed
next
  case (snoc q deleted)
  then show ?case using grouped_deletion by simp
qed

lemma grouped_members:
  assumes "grouped changed deleted t" "(p, adds, dels) \<in> set t"
  shows "adds = group_of p changed" "dels = dels_of p deleted"
proof -
  have "distinct (map fst t)" using assms(1) by (simp add: grouped_def bt_ok_distinct)
  from map_of_is_SomeI [OF this assms(2)] have "map_of t p = Some (adds, dels)" .
  then show "adds = group_of p changed" "dels = dels_of p deleted"
    using assms(1) by (auto simp: grouped_def split: if_splits)
qed

lemma merge_changes_lookup:
  "sorted_entries es \<Longrightarrow> distinct (map fst cs) \<Longrightarrow> \<forall>c \<in> set cs. of_prefix (fst c) (fst (snd c)) (snd (snd c)) \<Longrightarrow>
   sorted_entries (foldl merge_change es cs) \<and>
   entry_map (foldl merge_change es cs) q =
     (case map_of cs (top_level_prefix q) of None \<Rightarrow> entry_map es q
      | Some (adds, dels) \<Rightarrow> apply_changes (entry_map es) adds dels q)"
proof (induction cs arbitrary: es)
  case (Cons c cs)
  obtain p adds dels where c: "c = (p, adds, dels)" by (cases c)
  note m = merge_prefix_entries_correct [OF Cons.prems(1), of adds dels]
  have prefix: "of_prefix p adds dels" using Cons.prems(3) c by simp
  have ih: "sorted_entries (foldl merge_change (merge_change es c) cs) \<and>
      entry_map (foldl merge_change (merge_change es c) cs) q =
        (case map_of cs (top_level_prefix q) of None \<Rightarrow> entry_map (merge_change es c) q
         | Some (adds, dels) \<Rightarrow> apply_changes (entry_map (merge_change es c)) adds dels q)"
    using Cons.prems merge_change_sorted by (intro Cons.IH) auto
  have at: "entry_map (merge_change es c) q = apply_changes (entry_map es) adds dels q" by (simp add: merge_change_def c m(2))
  show ?case
  proof (cases "top_level_prefix q = p")
    case True
    then have "map_of cs (top_level_prefix q) = None" using Cons.prems(2) c by (simp add: map_of_eq_None_iff)
    then show ?thesis using ih at True c by simp
  next
    case False
    then have same: "entry_map (merge_change es c) q = entry_map es q" using merge_other_prefix [OF prefix] at by simp
    have "apply_changes (entry_map (merge_change es c)) a d q = apply_changes (entry_map es) a d q" for a d
      by (simp add: apply_changes_at same split: option.split)
    then show ?thesis using ih same False c by (simp split: option.splits)
  qed
qed simp

lemma apply_changes_group:
  "top_level_prefix q = p \<Longrightarrow> apply_changes m (group_of p changed) (dels_of p deleted) q = apply_changes m changed deleted q"
proof -
  assume q: "top_level_prefix q = p"
  have "filter (\<lambda>e. fe_path e = q) (group_of p changed) = filter (\<lambda>e. fe_path e = q) changed"
    unfolding group_of_def filter_filter using q by (intro filter_cong) auto
  then have "last_upsert (group_of p changed) q = last_upsert changed q" by (simp add: last_upsert_def)
  moreover have "q \<in> set (dels_of p deleted) \<longleftrightarrow> q \<in> set deleted" using q by (simp add: dels_of_def)
  ultimately show ?thesis by (simp add: apply_changes_at)
qed

lemma merge_by_directory:
  assumes "sorted_entries es" "grouped changed deleted t"
  shows "foldl merge_change es t = merge_prefix_entries es changed deleted"
proof (rule sorted_entries_same_map)
  have d: "distinct (map fst t)" using assms(2) by (simp add: grouped_def bt_ok_distinct)
  have "of_prefix (fst c) (fst (snd c)) (snd (snd c))" if "c \<in> set t" for c
  proof -
    obtain p adds dels where c: "c = (p, adds, dels)" by (cases c)
    show ?thesis using grouped_members [OF assms(2) that [unfolded c]] c by (simp add: of_prefix_def set_group_of dels_of_def)
  qed
  then have prefixes: "\<forall>c \<in> set t. of_prefix (fst c) (fst (snd c)) (snd (snd c))" by blast
  note fold = merge_changes_lookup [OF assms(1) d prefixes]
  show "sorted_entries (foldl merge_change es t)" using fold by blast
  note m = merge_prefix_entries_correct [OF assms(1), of changed deleted]
  show "sorted_entries (merge_prefix_entries es changed deleted)" by (rule m(1))
  show "entry_map (foldl merge_change es t) = entry_map (merge_prefix_entries es changed deleted)"
  proof (rule ext)
    fix q
    let ?p = "top_level_prefix q"
    show "entry_map (foldl merge_change es t) q = entry_map (merge_prefix_entries es changed deleted) q"
    proof (cases "map_of t ?p")
      case None
      then have "group_of ?p changed = []" "dels_of ?p deleted = []" using assms(2) by (auto simp: grouped_def split: if_splits)
      then have "apply_changes (entry_map es) changed deleted q = entry_map es q"
        using apply_changes_group [of q ?p "entry_map es" changed deleted] by (simp add: apply_changes_def)
      then show ?thesis using fold [of q] None by (simp add: m(2))
    next
      case (Some ad)
      then have "ad = (group_of ?p changed, dels_of ?p deleted)" using assms(2) by (auto simp: grouped_def split: if_splits)
      then show ?thesis using fold [of q] Some apply_changes_group [of q ?p "entry_map es" changed deleted] by (simp add: m(2))
    qed
  qed
qed

lemma group_of_merge_all:
  assumes es: "sorted_entries es"
  shows "group_of p (merge_prefix_entries es changed deleted) =
    merge_prefix_entries (group_of p es) (group_of p changed) (dels_of p deleted)"
proof (rule sorted_entries_same_map)
  let ?adds = "group_of p changed" and ?dels = "dels_of p deleted"
  note m = merge_prefix_entries_correct [OF es, of changed deleted]
  note n = merge_prefix_entries_correct [OF sorted_group_of [OF es], of p ?adds ?dels]
  show "sorted_entries (group_of p (merge_prefix_entries es changed deleted))" by (rule sorted_group_of [OF m(1)])
  show "sorted_entries (merge_prefix_entries (group_of p es) ?adds ?dels)" by (rule n(1))
  have one: "of_prefix p ?adds ?dels" by (simp add: of_prefix_def set_group_of dels_of_def)
  have "apply_changes (entry_map (group_of p es)) ?adds ?dels q =
      (if top_level_prefix q = p then apply_changes (entry_map es) changed deleted q else None)" for q
  proof (cases "top_level_prefix q = p")
    case True
    then have "apply_changes (entry_map (group_of p es)) ?adds ?dels q = apply_changes (entry_map es) ?adds ?dels q"
      by (simp add: apply_changes_at entry_map_group_of [OF es] split: option.split)
    then show ?thesis using True apply_changes_group [OF True] by simp
  next
    case False
    then show ?thesis using merge_other_prefix [OF one False] by (simp add: entry_map_group_of [OF es])
  qed
  then show "entry_map (group_of p (merge_prefix_entries es changed deleted)) = entry_map (merge_prefix_entries (group_of p es) ?adds ?dels)"
    by (intro ext) (simp add: n(2) entry_map_group_of [OF m(1)] m(2))
qed

section \<open>Runs of build and update\<close>

lemma groups_count: "sum_list (map (\<lambda>(p, g). length g) (foldl group_push [] es)) = length es"
proof (induction es rule: rev_induct)
  case (snoc e es)
  have "sum_list (map (\<lambda>(p, g). length g) (btree_update k [] (\<lambda>g. g @ [e]) t)) =
      Suc (sum_list (map (\<lambda>(p, g). length g) t))" for k :: string and t
    by (induction t) auto
  with snoc show ?case by (simp add: group_push_def)
qed simp

lemma groups_blobs:
  assumes "(p, g) \<in> set (foldl group_push [] es)"
  shows "g = group_of p es" "set (prefix_blobs fb H p (sort_key fe_path g)) \<subseteq> tree_blobs fb H (sort_key fe_path es)"
proof -
  have "distinct (map fst (foldl group_push [] es))" using groups_correct [of es] bt_ok_distinct by blast
  from map_of_is_SomeI [OF this assms] have "map_of (foldl group_push [] es) p = Some g" .
  then have g: "g = group_of p es" "group_of p es \<noteq> []" using groups_correct [of es p] by (auto split: if_splits)
  then show "g = group_of p es" by simp
  have "p \<in> entry_prefix ` set (sort_key fe_path es)" using g(2) by (simp add: group_of_empty_iff)
  then show "set (prefix_blobs fb H p (sort_key fe_path g)) \<subseteq> tree_blobs fb H (sort_key fe_path es)"
    unfolding tree_blobs_def g(1) group_of_sort [symmetric] by blast
qed

context reliable_store
begin

lemma build_groups_run:
  assumes inj: "inj_on H B"
  shows "ok s \<Longrightarrow> resident s \<subseteq> B \<Longrightarrow> \<forall>(p, g) \<in> set gs. set (prefix_blobs fb H p (sort_key fe_path g)) \<subseteq> B \<Longrightarrow>
    \<exists>s'. build_groups ops fb H gs n cs s =
        (Inr (n + of_nat (sum_list (map (\<lambda>(p, g). length g) gs)),
              cs @ map (\<lambda>(p, g). (p, prefix_hash fb H p (sort_key fe_path g))) gs), s')
      \<and> ok s' \<and> grows (\<lambda>h. get_op ops h s) (\<lambda>h. get_op ops h s')
      \<and> (\<forall>(p, g) \<in> set gs. \<forall>b \<in> set (prefix_blobs fb H p (sort_key fe_path g)). get_op ops (H b) s' = Inr b)"
proof (induction gs arbitrary: s n cs)
  case Nil
  then show ?case by (auto simp: grows_def)
next
  case (Cons pg gs)
  obtain p g where pg: "pg = (p, g)" by (cases pg)
  let ?g = "sort_key fe_path g"
  have blobs: "set (prefix_blobs fb H p ?g) \<subseteq> B" using Cons.prems(3) pg by simp
  have "inj_on H (resident s \<union> set (prefix_blobs fb H p ?g))"
    by (rule inj_on_subset [OF inj]) (use Cons.prems(2) blobs in simp)
  then obtain s1 where st: "store_prefix ops fb H p ?g s = (Inr (prefix_hash fb H p ?g), s1)" "ok s1"
      "grows (\<lambda>h. get_op ops h s) (\<lambda>h. get_op ops h s1)" "resident s1 \<subseteq> resident s \<union> set (prefix_blobs fb H p ?g)"
      "\<forall>b \<in> set (prefix_blobs fb H p ?g). get_op ops (H b) s1 = Inr b"
    by (rule store_prefix_run [OF Cons.prems(1)])
  have res: "resident s1 \<subseteq> B" using st(4) Cons.prems(2) blobs by blast
  have later: "\<forall>(p, g) \<in> set gs. set (prefix_blobs fb H p (sort_key fe_path g)) \<subseteq> B" using Cons.prems(3) by simp
  from Cons.IH [OF st(2) res later, of "n + of_nat (length g)" "cs @ [(p, prefix_hash fb H p ?g)]"]
  obtain s2 where s2: "build_groups ops fb H gs (n + of_nat (length g)) (cs @ [(p, prefix_hash fb H p ?g)]) s1 =
        (Inr (n + of_nat (length g) + of_nat (sum_list (map (\<lambda>(p, g). length g) gs)),
              (cs @ [(p, prefix_hash fb H p ?g)]) @ map (\<lambda>(p, g). (p, prefix_hash fb H p (sort_key fe_path g))) gs), s2)"
      "ok s2" "grows (\<lambda>h. get_op ops h s1) (\<lambda>h. get_op ops h s2)"
      "\<forall>(p, g) \<in> set gs. \<forall>b \<in> set (prefix_blobs fb H p (sort_key fe_path g)). get_op ops (H b) s2 = Inr b"
    by blast
  have "build_groups ops fb H (pg # gs) n cs s =
      (Inr (n + of_nat (sum_list (map (\<lambda>(p, g). length g) (pg # gs))),
            cs @ map (\<lambda>(p, g). (p, prefix_hash fb H p (sort_key fe_path g))) (pg # gs)), s2)"
    using s2(1) by (simp add: pg io_bind_run [where m = "store_prefix ops fb H p ?g" and s = s, OF st(1)] add.assoc)
  moreover have "grows (\<lambda>h. get_op ops h s) (\<lambda>h. get_op ops h s2)" using st(3) s2(3) by (simp add: grows_def)
  moreover have "\<forall>b \<in> set (prefix_blobs fb H p ?g). get_op ops (H b) s2 = Inr b" using st(5) s2(3) by (simp add: grows_def)
  ultimately show ?case using s2(2,4) pg by auto
qed

lemma build_tree_v1_run:
  assumes s: "ok s" and es: "distinct (map fe_path es)" "\<forall>e \<in> set es. entry_v1_ok e" "length es \<le> MAX_LOADED_ENTRIES_V1"
    and inj: "inj_on H ({b. \<exists>h. get_op ops h s = Inr b} \<union> tree_blobs fb H (sort_key fe_path es))"
  obtains root s' where "build_tree_v1 ops fb H now es vault device s = (Inr root, s')" "ok s'"
    "root = \<lparr>r1_vault_id = vault, r1_created_ms = now, r1_version = 1, r1_children = children_of fb H es,
       r1_total_files = of_nat (length es), r1_parent_hash = None, r1_device_id = device\<rparr>"
    "tree_v1_inv fb H (\<lambda>h. get_op ops h s') (r1_children root) (r1_total_files root) (sort_key fe_path es)"
    "grows (\<lambda>h. get_op ops h s) (\<lambda>h. get_op ops h s')"
proof -
  let ?gs = "foldl group_push [] es" and ?B = "{b. \<exists>h. get_op ops h s = Inr b} \<union> tree_blobs fb H (sort_key fe_path es)"
  have res: "resident s \<subseteq> ?B" by (simp add: resident_def)
  have blobs: "\<forall>(p, g) \<in> set ?gs. set (prefix_blobs fb H p (sort_key fe_path g)) \<subseteq> ?B"
    using groups_blobs(2) by blast
  from build_groups_run [OF inj s res blobs, of 0 "[]"]
  obtain s' where run: "build_groups ops fb H ?gs 0 [] s =
        (Inr (of_nat (length es), children_of fb H es), s')" "ok s'" "grows (\<lambda>h. get_op ops h s) (\<lambda>h. get_op ops h s')"
      "\<forall>(p, g) \<in> set ?gs. \<forall>b \<in> set (prefix_blobs fb H p (sort_key fe_path g)). get_op ops (H b) s' = Inr b"
    unfolding groups_count children_of_def by auto
  define root where "root = \<lparr>r1_vault_id = vault, r1_created_ms = now, r1_version = 1, r1_children = children_of fb H es,
       r1_total_files = of_nat (length es), r1_parent_hash = None, r1_device_id = device\<rparr>"
  have built: "build_tree_v1 ops fb H now es vault device s = (Inr root, s')"
    unfolding build_tree_v1_def root_def io_bind_run [where m = "build_groups ops fb H ?gs 0 []" and s = s, OF run(1)] by simp
  have "get_op ops (H b) s' = Inr b" if b: "b \<in> tree_blobs fb H (sort_key fe_path es)" for b
  proof -
    obtain p where p: "p \<in> entry_prefix ` set es" "b \<in> set (prefix_blobs fb H p (sort_key fe_path (group_of p es)))"
      using b by (auto simp: tree_blobs_def group_of_sort)
    then have "map_of ?gs p = Some (group_of p es)" using groups_correct [of es p] by (simp add: group_of_empty_iff)
    then have "(p, group_of p es) \<in> set ?gs" by (rule map_of_SomeD)
    then show ?thesis using run(4) p(2) by blast
  qed
  moreover have "sorted_entries (sort_key fe_path es)"
    using es(1) by (simp add: sorted_entries_def strict_sorted_iff distinct_map)
  ultimately have "tree_v1_inv fb H (\<lambda>h. get_op ops h s') (r1_children root) (r1_total_files root) (sort_key fe_path es)"
    using es(2,3) by (simp add: tree_v1_inv_def root_def children_of_sort)
  from that [OF built run(2) root_def this run(3)] show thesis .
qed

lemma update_tree_v1_run:
  assumes fb: "flatbuf_ok fb" and H: "\<And>b. hash_ok (H b)" and s: "ok s"
    and inv: "tree_v1_inv fb H (\<lambda>h. get_op ops h s) (r1_children root) (r1_total_files root) es"
    and changed: "\<forall>e \<in> set changed. entry_v1_ok e" "length es + length changed \<le> MAX_LOADED_ENTRIES_V1"
    and inj: "inj_on H ({b. \<exists>h. get_op ops h s = Inr b} \<union> tree_blobs fb H (merge_prefix_entries es changed deleted))"
  obtains root' s' where "update_tree_v1 ops fb H now root changed deleted s = (Inr root', s')" "ok s'"
    "tree_v1_inv fb H (\<lambda>h. get_op ops h s') (r1_children root') (r1_total_files root') (merge_prefix_entries es changed deleted)"
    "grows (\<lambda>h. get_op ops h s) (\<lambda>h. get_op ops h s')" "r1_parent_hash root' = Some (root_node_hash H root)"
    "{b. \<exists>h. get_op ops h s' = Inr b} \<subseteq> {b. \<exists>h. get_op ops h s = Inr b} \<union> tree_blobs fb H (merge_prefix_entries es changed deleted)"
proof -
  let ?t = "foldl push_deletion (foldl push_change [] changed) deleted"
  let ?B = "{b. \<exists>h. get_op ops h s = Inr b} \<union> tree_blobs fb H (merge_prefix_entries es changed deleted)"
  let ?U = "set es \<union> set changed"
  have es: "sorted_entries es" using inv by (simp add: tree_v1_inv_def)
  note g = changes_grouped [of changed deleted]
  note whole = merge_by_directory [OF es g]
  have d: "distinct (map fst ?t)" using g by (simp add: grouped_def bt_ok_distinct)
  have U: "finite ?U" "card ?U \<le> MAX_LOADED_ENTRIES_V1"
    using changed(2) card_Un_le [of "set es" "set changed"] card_length [of es] card_length [of changed] by simp_all
  have good: "\<forall>c \<in> set ?t. change_ok c \<and> set (fst (snd c)) \<subseteq> ?U \<and> step_blobs fb H es c \<subseteq> ?B"
  proof
    fix c assume c: "c \<in> set ?t"
    obtain p adds dels where eq: "c = (p, adds, dels)" by (cases c)
    note mem = grouped_members [OF g c [unfolded eq]]
    have ok: "change_ok c" using changed(1) mem eq by (auto simp: change_ok_def of_prefix_def set_group_of dels_of_def)
    have whole_p: "group_of p (merge_prefix_entries es changed deleted) = merge_prefix_entries (group_of p es) adds dels"
      unfolding mem by (rule group_of_merge_all [OF es])
    have "step_blobs fb H es c \<subseteq> tree_blobs fb H (merge_prefix_entries es changed deleted)"
      using group_blobs_sub [of p "merge_prefix_entries es changed deleted" fb H]
      unfolding step_blobs_def eq whole_p by (simp add: Let_def)
    then show "change_ok c \<and> set (fst (snd c)) \<subseteq> ?U \<and> step_blobs fb H es c \<subseteq> ?B"
      using ok mem(1) eq by (auto simp: set_group_of)
  qed
  have sub: "set es \<subseteq> ?U" "resident s \<subseteq> ?B" by (auto simp: resident_def)
  from update_prefixes_run [OF fb H U inj s inv d good sub]
  obtain children' files' s' where run: "update_prefixes ops fb H ?t (r1_children root) (r1_total_files root) s = (Inr (children', files'), s')"
      "ok s'" "tree_v1_inv fb H (\<lambda>h. get_op ops h s') children' files' (merge_prefix_entries es changed deleted)"
      "grows (\<lambda>h. get_op ops h s) (\<lambda>h. get_op ops h s')" "resident s' \<subseteq> ?B"
    unfolding whole by blast
  define root' where "root' = \<lparr>r1_vault_id = r1_vault_id root, r1_created_ms = now, r1_version = r1_version root,
         r1_children = children', r1_total_files = files',
         r1_parent_hash = Some (root_node_hash H root), r1_device_id = r1_device_id root\<rparr>"
  have "update_tree_v1 ops fb H now root changed deleted s = (Inr root', s')"
    unfolding update_tree_v1_def root'_def
      io_bind_run [where m = "update_prefixes ops fb H ?t (r1_children root) (r1_total_files root)" and s = s, OF run(1)] by simp
  from that [OF this run(2) _ run(4)] run(3,5) show thesis by (simp add: root'_def resident_def)
qed

end

section \<open>Properties\<close>

text \<open>(C36) An incremental update of a v1 tree in a memory store succeeds and gives exactly the tree of the changed
  vault state: the same child list, file count and root hash as building that state from scratch, which
  also succeeds. The state is the old one with the deletions and then the upserts applied, the new
  root names the old one as its parent, and nothing that could be read before is lost.\<close>

theorem update_tree_v1_equals_rebuild:
  assumes "flatbuf_ok fb" "\<And>b. hash_ok (H b)" "memory_addressed H s"
    "tree_v1_inv fb H (\<lambda>h. memory_get h s) (r1_children root) (r1_total_files root) es"
    "\<forall>e \<in> set changed. entry_v1_ok e" "length es + length changed \<le> 10000000"
    "inj_on H ({b. \<exists>h. memory_get h s = Inr b} \<union> tree_blobs fb H (merge_prefix_entries es changed deleted))"
  shows "\<exists>root' s' built s''. update_tree_v1 (memory_ops alloc) fb H now root changed deleted s = (Inr root', s')
    \<and> build_tree_v1 (memory_ops alloc) fb H now' (merge_prefix_entries es changed deleted) vault device s' = (Inr built, s'')
    \<and> r1_children root' = r1_children built \<and> r1_total_files root' = r1_total_files built
    \<and> root_node_hash H root' = root_node_hash H built
    \<and> tree_v1_inv fb H (\<lambda>h. memory_get h s') (r1_children root') (r1_total_files root') (merge_prefix_entries es changed deleted)
    \<and> entry_map (merge_prefix_entries es changed deleted) = apply_changes (entry_map es) changed deleted
    \<and> r1_parent_hash root' = Some (root_node_hash H root)
    \<and> grows (\<lambda>h. memory_get h s) (\<lambda>h. memory_get h s'')"
proof -
  have get: "get_op (memory_ops alloc) = memory_get" by (simp add: memory_ops_def)
  let ?es = "merge_prefix_entries es changed deleted"
  have es: "sorted_entries es" using assms(4) by (simp add: tree_v1_inv_def)
  have len: "length es + length changed \<le> MAX_LOADED_ENTRIES_V1" using assms(6) by (simp add: MAX_LOADED_ENTRIES_V1_def)
  obtain root' s' where u: "update_tree_v1 (memory_ops alloc) fb H now root changed deleted s = (Inr root', s')"
      "memory_addressed H s'" "tree_v1_inv fb H (\<lambda>h. memory_get h s') (r1_children root') (r1_total_files root') ?es"
      "grows (\<lambda>h. memory_get h s) (\<lambda>h. memory_get h s')" "r1_parent_hash root' = Some (root_node_hash H root)"
      "{b. \<exists>h. memory_get h s' = Inr b} \<subseteq> {b. \<exists>h. memory_get h s = Inr b} \<union> tree_blobs fb H ?es"
    by (rule memory.update_tree_v1_run [where H = H and alloc = alloc, unfolded get, OF assms(1-5) len assms(7)])
  have sorted: "sorted_entries ?es" using merge_prefix_entries_correct(1) [OF es] .
  have sort: "sort_key fe_path ?es = ?es" by (rule sort_sorted_v1 [OF sorted])
  have typed: "\<forall>e \<in> set ?es. entry_v1_ok e" "length ?es \<le> MAX_LOADED_ENTRIES_V1"
    using u(3) by (simp_all add: tree_v1_inv_def)
  have inj: "inj_on H ({b. \<exists>h. memory_get h s' = Inr b} \<union> tree_blobs fb H (sort_key fe_path ?es))"
    unfolding sort by (rule inj_on_subset [OF assms(7)]) (use u(6) in blast)
  obtain built s'' where b: "build_tree_v1 (memory_ops alloc) fb H now' ?es vault device s' = (Inr built, s'')" "memory_addressed H s''"
      "built = \<lparr>r1_vault_id = vault, r1_created_ms = now', r1_version = 1, r1_children = children_of fb H ?es,
         r1_total_files = of_nat (length ?es), r1_parent_hash = None, r1_device_id = device\<rparr>"
      "tree_v1_inv fb H (\<lambda>h. memory_get h s'') (r1_children built) (r1_total_files built) (sort_key fe_path ?es)"
      "grows (\<lambda>h. memory_get h s') (\<lambda>h. memory_get h s'')"
    by (rule memory.build_tree_v1_run [where H = H and alloc = alloc, unfolded get,
          OF u(2) sorted_entries_distinct_paths [OF sorted] typed inj])
  have same: "r1_children root' = r1_children built" "r1_total_files root' = r1_total_files built"
    using u(3) by (simp_all add: b(3) tree_v1_inv_def)
  then have "root_node_hash H root' = root_node_hash H built" by (simp add: root_node_hash_def)
  moreover have "grows (\<lambda>h. memory_get h s) (\<lambda>h. memory_get h s'')" using u(4) b(5) by (simp add: grows_def)
  ultimately show ?thesis
    using u(1,3,5) b(1) same merge_prefix_entries_correct(2) [OF es, of changed deleted] by blast
qed

lemma one_entry_tree_blobs: "tree_blobs fb H [e] = {leaf_blob_v1 fb [e]}"
  by (simp add: tree_blobs_def prefix_blobs_def leaf_pieces_def chunks.simps TARGET_CHUNK_ENTRIES_def)

theorem update_tree_v1_equals_rebuild_witness:
  "let e = FileEntry.make ''notes/a.md'' ZERO_HASH 1 2; H = (\<lambda>b. ZERO_HASH);
       root = \<lparr>r1_vault_id = ''v'', r1_created_ms = 0, r1_version = 1, r1_children = [], r1_total_files = 0,
               r1_parent_hash = None, r1_device_id = ''d''\<rparr> in
   \<exists>root' s'. update_tree_v1 (memory_ops length) field_layer H 5 root [e] [''old.md''] memory_default = (Inr root', s')
     \<and> tree_v1_inv field_layer H (\<lambda>h. memory_get h s') (r1_children root') (r1_total_files root') [e]"
proof -
  let ?e = "FileEntry.make ''notes/a.md'' ZERO_HASH 1 2" and ?H = "\<lambda>b :: bytes. ZERO_HASH"
  let ?root = "\<lparr>r1_vault_id = ''v'', r1_created_ms = 0, r1_version = 1, r1_children = [], r1_total_files = 0,
               r1_parent_hash = None, r1_device_id = ''d''\<rparr>"
  have typed: "entry_v1_ok ?e"
    by (simp add: entry_v1_ok_def entry_typed_def FileEntry.defs ZERO_HASH_def as_bytes_def from_utf8_ok_ascii)
  have hash: "hash_ok ZERO_HASH" by (simp add: ZERO_HASH_def)
  have mem: "memory_addressed ?H memory_default" by (simp add: memory_addressed_def memory_default_def)
  have inv: "tree_v1_inv field_layer ?H (\<lambda>h. memory_get h memory_default) (r1_children ?root) (r1_total_files ?root) []"
    by (simp add: tree_v1_inv_def children_of_def tree_blobs_def)
  have merged: "merge_prefix_entries [] [?e] [''old.md''] = [?e]" by code_simp
  have inj: "inj_on ?H ({b. \<exists>h. memory_get h memory_default = Inr b} \<union> tree_blobs field_layer ?H (merge_prefix_entries [] [?e] [''old.md'']))"
    unfolding merged by (simp add: one_entry_tree_blobs memory_get_def memory_default_def)
  note update_tree_v1_equals_rebuild [where H = ?H and alloc = length and now = 5, OF field_layer_ok hash mem inv _ _ inj, unfolded merged]
  then show ?thesis unfolding Let_def using typed by simp blast
qed

end
