(* ===== verification/Versioned_Root.thy ===== *)
theory Versioned_Root
  imports Tree_V1_Update
begin

text \<open>
  \<open>crates/sync-core/src/versioned_root.rs\<close>: roots of either tree format behind one type. The two
  encodings are told apart by the four magic bytes of Tree v2; building, loading and the metadata
  of a root dispatch on the version. Hashing a v2 root panics on an invalid descriptor, so hashes
  are options.
\<close>

section \<open>Definitions\<close>

definition TREE_V1 :: u32 where "TREE_V1 = 1"
definition TREE_V2 :: u32 where "TREE_V2 = 2"

datatype VersionedRoot = V1 RootNode | V2 RootNodeV2

definition versioned_deserialize :: "flatbuf \<Rightarrow> (bytes \<Rightarrow> FileHash) \<Rightarrow> bytes \<Rightarrow> ChunkError + VersionedRoot" where
  "versioned_deserialize fb H bs =
     (if take 4 bs = ROOT_MAGIC then and_then (deserialize_root H bs) (\<lambda>root. Inr (V2 root))
      else and_then (root_node_deserialize fb bs) (\<lambda>root.
        if r1_version root \<noteq> TREE_V1 then invalid ''unsupported Tree v1 root version ''
        else Inr (V1 root)))"

definition versioned_serialize :: "flatbuf \<Rightarrow> (bytes \<Rightarrow> FileHash) \<Rightarrow> VersionedRoot \<Rightarrow> ChunkError + bytes" where
  "versioned_serialize fb H root =
     (case root of
        V1 root \<Rightarrow>
          if r1_version root \<noteq> TREE_V1 then invalid ''unsupported Tree v1 root version ''
          else Inr (root_node_serialize fb H root)
      | V2 root \<Rightarrow> serialize_root H root)"

definition versioned_version :: "VersionedRoot \<Rightarrow> u32" where
  "versioned_version root = (case root of V1 _ \<Rightarrow> TREE_V1 | V2 _ \<Rightarrow> TREE_V2)"

definition versioned_hash :: "(bytes \<Rightarrow> FileHash) \<Rightarrow> VersionedRoot \<Rightarrow> FileHash option" where
  "versioned_hash H root = (case root of V1 root \<Rightarrow> Some (root_node_hash H root) | V2 root \<Rightarrow> tree_hash H (rn_tree root))"

definition versioned_vault_id :: "VersionedRoot \<Rightarrow> string" where
  "versioned_vault_id root = (case root of V1 root \<Rightarrow> r1_vault_id root | V2 root \<Rightarrow> rn_vault_id root)"

definition versioned_created_ms :: "VersionedRoot \<Rightarrow> u64" where
  "versioned_created_ms root = (case root of V1 root \<Rightarrow> r1_created_ms root | V2 root \<Rightarrow> rn_created_ms root)"

definition versioned_total_files :: "VersionedRoot \<Rightarrow> u64" where
  "versioned_total_files root =
     (case root of V1 root \<Rightarrow> r1_total_files root | V2 root \<Rightarrow> tr_total_files (rn_tree root))"

definition versioned_parent_hash :: "VersionedRoot \<Rightarrow> FileHash option" where
  "versioned_parent_hash root = (case root of V1 root \<Rightarrow> r1_parent_hash root | V2 root \<Rightarrow> rn_parent_hash root)"

definition versioned_device_id :: "VersionedRoot \<Rightarrow> string" where
  "versioned_device_id root = (case root of V1 root \<Rightarrow> r1_device_id root | V2 root \<Rightarrow> rn_device_id root)"

definition set_history_metadata :: "u64 \<Rightarrow> FileHash option \<Rightarrow> string \<Rightarrow> VersionedRoot \<Rightarrow> VersionedRoot" where
  "set_history_metadata created_ms parent_hash device_id root =
     (case root of
        V1 root \<Rightarrow> V1 (root\<lparr>r1_created_ms := created_ms, r1_parent_hash := parent_hash, r1_device_id := device_id\<rparr>)
      | V2 root \<Rightarrow> V2 (root\<lparr>rn_created_ms := created_ms, rn_parent_hash := parent_hash, rn_device_id := device_id\<rparr>))"

definition as_v1 :: "VersionedRoot \<Rightarrow> RootNode option" where
  "as_v1 root = (case root of V1 root \<Rightarrow> Some root | V2 _ \<Rightarrow> None)"

definition as_v2 :: "VersionedRoot \<Rightarrow> RootNodeV2 option" where
  "as_v2 root = (case root of V1 _ \<Rightarrow> None | V2 root \<Rightarrow> Some root)"

text \<open>\<open>RootNodeV2::new\<close>.\<close>

definition root_v2_new :: "string \<Rightarrow> string \<Rightarrow> TreeV2Root \<Rightarrow> ChunkError + RootNodeV2" where
  "root_v2_new vault_id device_id tree =
     (let root = \<lparr>rn_vault_id = vault_id, rn_created_ms = 0, rn_tree = tree, rn_parent_hash = None,
                  rn_device_id = device_id\<rparr>
      in and_then (validate_root root) (\<lambda>_. Inr root))"

definition build_root ::
  "'s store_ops \<Rightarrow> flatbuf \<Rightarrow> (bytes \<Rightarrow> FileHash) \<Rightarrow> u64 \<Rightarrow> FileEntry list \<Rightarrow> u32 \<Rightarrow> string \<Rightarrow> string
   \<Rightarrow> ('s, VersionedRoot) store_io" where
  "build_root ops fb H now entries version vault_id device_id =
     (if version = TREE_V1 then
        io_bind (build_tree_v1 ops fb H now entries vault_id device_id) (\<lambda>root. io_return (V1 root))
      else if version = TREE_V2 then
        io_bind (build_tree ops H entries) (\<lambda>tree.
        io_bind (io_lift (root_v2_new vault_id device_id tree)) (\<lambda>root. io_return (V2 root)))
      else io_fail (Deserialize ''unsupported tree version ''))"

definition empty_versioned_root :: "u32 \<Rightarrow> string \<Rightarrow> string \<Rightarrow> ChunkError + VersionedRoot" where
  "empty_versioned_root version vault_id device_id =
     (if version = TREE_V1 then
        Inr (V1 \<lparr>r1_vault_id = vault_id, r1_created_ms = 0, r1_version = TREE_V1, r1_children = [],
                 r1_total_files = 0, r1_parent_hash = None, r1_device_id = device_id\<rparr>)
      else if version = TREE_V2 then
        and_then (root_v2_new vault_id device_id \<lparr>tr_version = TREE_V2, tr_total_files = 0, tr_child = None\<rparr>)
          (\<lambda>root. Inr (V2 root))
      else invalid ''unsupported tree version '')"

text \<open>The loop over the children of a v1 root.\<close>

fun load_children :: "flatbuf \<Rightarrow> lookup \<Rightarrow> (string \<times> FileHash) list \<Rightarrow> FileEntry list \<Rightarrow> ChunkError + FileEntry list" where
  "load_children fb get [] entries = Inr entries"
| "load_children fb get ((_, hash) # children) entries =
     and_then (load_all_entries_v1 fb get hash) (\<lambda>more. load_children fb get children (entries @ more))"

definition load_versioned :: "flatbuf \<Rightarrow> (bytes \<Rightarrow> FileHash) \<Rightarrow> lookup \<Rightarrow> VersionedRoot \<Rightarrow> ChunkError + FileEntry list" where
  "load_versioned fb H get root =
     (if unat (versioned_total_files root) > MAX_LOADED_ENTRIES then invalid ''versioned root exceeds the entry limit''
      else and_then (case root of
            V1 root \<Rightarrow> and_then (load_children fb get (r1_children root) []) (\<lambda>entries. Inr (sort_key fe_path entries))
          | V2 root \<Rightarrow> load_all_entries H get (rn_tree root)) (\<lambda>entries.
        if length entries \<noteq> unat (versioned_total_files root) then invalid ''root declares  files but contains ''
        else if \<not> adjacent (\<lambda>a b. fe_path a < fe_path b) entries
        then invalid ''versioned root entries are not strictly ordered''
        else Inr entries))"

section \<open>What a root stands for\<close>

text \<open>A v1 root reads as the entries \<open>es\<close>: every child loads as the entries of its directory, and every
  directory of \<open>es\<close> has a child. Trees that were built or updated here read so; the chunks of a
  directory need not be the canonical ones.\<close>

definition reads_v1 :: "flatbuf \<Rightarrow> lookup \<Rightarrow> RootNode \<Rightarrow> FileEntry list \<Rightarrow> bool" where
  "reads_v1 fb get root es \<longleftrightarrow>
     sorted_entries es \<and> length es \<le> MAX_LOADED_ENTRIES \<and> unat (r1_total_files root) = length es
     \<and> bt_ok (r1_children root)
     \<and> (\<forall>p h. map_of (r1_children root) p = Some h \<longrightarrow> load_all_entries_v1 fb get h = Inr (group_of p es))
     \<and> (\<forall>p. map_of (r1_children root) p = None \<longrightarrow> group_of p es = [])"

fun stands_for :: "flatbuf \<Rightarrow> (bytes \<Rightarrow> FileHash) \<Rightarrow> lookup \<Rightarrow> VersionedRoot \<Rightarrow> FileEntry list \<Rightarrow> bool" where
  "stands_for fb H get (V1 root) es = reads_v1 fb get root es"
| "stands_for fb H get (V2 root) es = (load_all_entries H get (rn_tree root) = Inr es)"

lemma inv_reads_v1:
  assumes "flatbuf_ok fb" "\<And>b. hash_ok (H b)" "tree_v1_inv fb H get (r1_children root) (r1_total_files root) es"
  shows "reads_v1 fb get root es"
proof -
  have inv: "sorted_entries es" "length es \<le> MAX_LOADED_ENTRIES_V1" "r1_children root = children_of fb H es"
      "r1_total_files root = of_nat (length es)"
    using assms(3) by (simp_all add: tree_v1_inv_def)
  have "unat (r1_total_files root) = length es"
    using inv(2,4) by (simp add: unat_of_nat_u64 MAX_LOADED_ENTRIES_V1_def)
  moreover have "group_of p es = []" if "map_of (r1_children root) p = None" for p
    using that by (simp add: inv(3) map_of_children_sorted [OF inv(1)] split: if_splits)
  ultimately show ?thesis
    using inv(1,2) inv_loads_prefix [where H = H, OF assms] children_of_ok [of fb H es]
    by (simp add: reads_v1_def inv(3) MAX_LOADED_ENTRIES_V1_def MAX_LOADED_ENTRIES_def)
qed

lemma load_children_concat:
  "\<forall>(p, h) \<in> set cs. load_all_entries_v1 fb get h = Inr (g p) \<Longrightarrow>
   load_children fb get cs acc = Inr (acc @ concat (map (\<lambda>(p, h). g p) cs))"
  by (induction cs arbitrary: acc) auto

lemma groups_perm:
  assumes "sorted_entries es" "distinct ps" "\<And>p. p \<notin> set ps \<Longrightarrow> group_of p es = []"
  shows "mset (concat (map (\<lambda>p. group_of p es) ps)) = mset es"
proof -
  have d: "distinct es" using sorted_entries_distinct_paths [OF assms(1)] by (simp add: distinct_map)
  have "distinct (concat (map (\<lambda>p. group_of p es) ps))"
    using assms(2)
  proof (induction ps)
    case (Cons p ps)
    have "set (group_of p es) \<inter> set (concat (map (\<lambda>p. group_of p es) ps)) = {}"
      using Cons.prems by (auto simp: set_group_of)
    with Cons d show ?case by (simp add: group_of_def)
  qed simp
  moreover have "set (concat (map (\<lambda>p. group_of p es) ps)) = set es"
  proof (intro set_eqI iffI)
    fix e assume "e \<in> set es"
    then have "e \<in> set (group_of (entry_prefix e) es)" by (simp add: set_group_of)
    moreover from this have "entry_prefix e \<in> set ps" using assms(3) [of "entry_prefix e"] by fastforce
    ultimately show "e \<in> set (concat (map (\<lambda>p. group_of p es) ps))" by auto
  qed (auto simp: set_group_of)
  ultimately show ?thesis using d by (metis set_eq_iff_mset_eq_distinct)
qed

lemma reads_v1_load:
  assumes "reads_v1 fb get root es"
  shows "load_versioned fb H get (V1 root) = Inr es"
proof -
  have r: "sorted_entries es" "length es \<le> MAX_LOADED_ENTRIES" "unat (r1_total_files root) = length es" "bt_ok (r1_children root)"
      "\<And>p h. map_of (r1_children root) p = Some h \<Longrightarrow> load_all_entries_v1 fb get h = Inr (group_of p es)"
      "\<And>p. map_of (r1_children root) p = None \<Longrightarrow> group_of p es = []"
    using assms by (simp_all add: reads_v1_def)
  let ?cs = "r1_children root"
  have "\<forall>(p, h) \<in> set ?cs. load_all_entries_v1 fb get h = Inr (group_of p es)"
    using r(5) map_of_is_SomeI [OF bt_ok_distinct [OF r(4)]] by blast
  then have load: "load_children fb get ?cs [] = Inr (concat (map (\<lambda>(p, h). group_of p es) ?cs))"
    by (subst load_children_concat) simp_all
  have eq: "map (\<lambda>(p, h). group_of p es) ?cs = map (\<lambda>p. group_of p es) (map fst ?cs)" by (simp add: case_prod_beta)
  have "mset (concat (map (\<lambda>p. group_of p es) (map fst ?cs))) = mset es"
  proof (rule groups_perm [OF r(1) bt_ok_distinct [OF r(4)]])
    show "group_of p es = []" if "p \<notin> set (map fst ?cs)" for p using r(6) that by (simp add: map_of_eq_None_iff)
  qed
  then have "sort_key fe_path (concat (map (\<lambda>(p, h). group_of p es) ?cs)) = es"
    unfolding eq by (rule sort_entries_perm [OF r(1)])
  moreover have "adjacent (\<lambda>a b. fe_path a < fe_path b) es"
    using r(1) by (simp add: adjacent_strict sorted_entries_def sorted_wrt_map)
  ultimately show ?thesis using load r(2,3) by (simp add: load_versioned_def versioned_total_files_def del: and_then_Inr)
qed

lemma load_all_entries_valid:
  assumes "load_all_entries H get root = Inr es"
  shows "entries_ok es" "sorted_entries es" "length es = unat (tr_total_files root)"
proof -
  show ok: "entries_ok es" and "length es = unat (tr_total_files root)"
    using assms unfolding load_all_entries_Inr denotes_def by auto
  then show "sorted_entries es" by (simp add: entries_ok_def)
qed

lemma stands_for_sorted: "stands_for fb H get root es \<Longrightarrow> sorted_entries es"
  by (cases root) (auto simp: reads_v1_def dest: load_all_entries_valid)

lemma stands_for_load:
  assumes "stands_for fb H get root es"
  shows "load_versioned fb H get root = Inr es"
proof (cases root)
  case (V2 r)
  then have l: "load_all_entries H get (rn_tree r) = Inr es" using assms by simp
  note valid = load_all_entries_valid [OF l]
  have "adjacent (\<lambda>a b. fe_path a < fe_path b) es"
    using valid(2) by (simp add: adjacent_strict sorted_entries_def sorted_wrt_map)
  moreover have "length es \<le> MAX_LOADED_ENTRIES" using valid(1) by (simp add: entries_ok_def)
  ultimately show ?thesis using l valid(3) V2 by (simp add: load_versioned_def versioned_total_files_def del: and_then_Inr)
qed (use assms reads_v1_load in simp)

section \<open>Building and reading back\<close>

lemma entries_ok_v1:
  assumes "entries_ok (sort_key fe_path es)" "\<forall>e \<in> set es. entry_typed e"
  shows "\<forall>e \<in> set es. entry_v1_ok e" "length es \<le> MAX_LOADED_ENTRIES_V1" "distinct (map fe_path es)"
proof -
  have "length (fe_path e) \<le> 65536" if "e \<in> set es" for e
    using assms(1) that path_ok_length [of "fe_path e"] by (simp add: entries_ok_def tree_limits)
  then show "\<forall>e \<in> set es. entry_v1_ok e" using assms(2) by (simp add: entry_v1_ok_def)
  show "length es \<le> MAX_LOADED_ENTRIES_V1"
    using assms(1) by (simp add: entries_ok_def MAX_LOADED_ENTRIES_def MAX_LOADED_ENTRIES_V1_def)
  have "distinct (map fe_path (sort_key fe_path es))"
    using assms(1) sorted_entries_distinct_paths by (simp add: entries_ok_def)
  then show "distinct (map fe_path es)" by (simp add: distinct_map)
qed

lemma validate_new_root:
  assumes "validate_root_shape tree = Inr ()" "validate_root_id vault False = Inr ()" "validate_root_id device True = Inr ()"
  shows "\<exists>root. root_v2_new vault device tree = Inr root \<and> rn_tree root = tree"
  using assms by (simp add: root_v2_new_def validate_root_def Let_def)

definition root_blobs :: "flatbuf \<Rightarrow> (bytes \<Rightarrow> FileHash) \<Rightarrow> u32 \<Rightarrow> FileEntry list \<Rightarrow> bytes set" where
  "root_blobs fb H version es =
     (if version = TREE_V1 then tree_blobs fb H (sort_key fe_path es) else set (build_blobs H es))"

context reliable_store
begin

lemma build_root_run:
  assumes "ok s" "flatbuf_ok fb" "\<And>b. hash_ok (H b)" "\<forall>e \<in> set es. entry_typed e"
    "entries_ok (sort_key fe_path es)" "version = TREE_V1 \<or> version = TREE_V2"
    "validate_root_id vault False = Inr ()" "validate_root_id device True = Inr ()"
    "inj_on H ({b. \<exists>h. get_op ops h s = Inr b} \<union> root_blobs fb H version es)"
  shows "\<exists>root s'. build_root ops fb H now es version vault device s = (Inr root, s')
    \<and> stands_for fb H (\<lambda>h. get_op ops h s') root (sort_key fe_path es) \<and> versioned_version root = version"
  using assms(6)
proof
  assume v: "version = TREE_V1"
  have inj: "inj_on H ({b. \<exists>h. get_op ops h s = Inr b} \<union> tree_blobs fb H (sort_key fe_path es))"
    using assms(9) v by (simp add: root_blobs_def)
  obtain root s' where b: "build_tree_v1 ops fb H now es vault device s = (Inr root, s')" "ok s'"
      "root = \<lparr>r1_vault_id = vault, r1_created_ms = now, r1_version = 1, r1_children = children_of fb H es,
         r1_total_files = of_nat (length es), r1_parent_hash = None, r1_device_id = device\<rparr>"
      "tree_v1_inv fb H (\<lambda>h. get_op ops h s') (r1_children root) (r1_total_files root) (sort_key fe_path es)"
      "grows (\<lambda>h. get_op ops h s) (\<lambda>h. get_op ops h s')"
    by (rule build_tree_v1_run [OF assms(1) entries_ok_v1(3,1,2) [OF assms(5,4)] inj])
  have "build_root ops fb H now es version vault device s = (Inr (V1 root), s')"
    unfolding build_root_def using v
    by (simp add: io_bind_run [where m = "build_tree_v1 ops fb H now es vault device" and s = s, OF b(1)])
  moreover have "reads_v1 fb (\<lambda>h. get_op ops h s') root (sort_key fe_path es)"
    by (rule inv_reads_v1 [where H = H, OF assms(2,3) b(4)])
  ultimately show ?thesis using v by (auto simp: versioned_version_def)
next
  assume v: "version = TREE_V2"
  have inj: "inj_on H ({b. \<exists>h. get_op ops h s = Inr b} \<union> set (build_blobs H es))"
    using assms(9) v by (simp add: root_blobs_def TREE_V1_def TREE_V2_def)
  have valid: "validate_entries (sort_key fe_path es) = Inr ()" using assms(5) by (simp add: codec_simps)
  obtain tree s' where b: "build_tree ops H es s = (Inr tree, s')"
    by (rule build_tree_succeeds [OF assms(1,4,3) valid])
  have l: "load_all_entries H (\<lambda>h. get_op ops h s') tree = Inr (sort_key fe_path es)"
    by (rule build_tree_stored [OF assms(1) b assms(4,3) inj])
  then have "validate_root_shape tree = Inr ()" unfolding load_all_entries_Inr denotes_def by blast
  from validate_new_root [OF this assms(7,8)] obtain root where root: "root_v2_new vault device tree = Inr root" "rn_tree root = tree"
    by blast
  have ne: "TREE_V2 \<noteq> TREE_V1" by (simp add: TREE_V1_def TREE_V2_def)
  have "build_root ops fb H now es version vault device s = (Inr (V2 root), s')"
    unfolding build_root_def using v ne root(1)
    by (simp add: io_bind_run [where m = "build_tree ops H es" and s = s, OF b])
  then show ?thesis using l root(2) v by (auto simp: versioned_version_def)
qed

end

section \<open>Properties\<close>

text \<open>(C35) A root of either format that is built in a memory store from valid entries reads back as
  the sorted entries, whatever the order they came in, with the format that was asked for, provided
  no two of the blobs that are resident or written share a hash.\<close>

theorem build_root_loads_back:
  assumes "memory_addressed H s" "flatbuf_ok fb" "\<And>b. hash_ok (H b)" "\<forall>e \<in> set es. entry_typed e"
    "validate_entries (sort_key fe_path es) = Inr ()" "version = TREE_V1 \<or> version = TREE_V2"
    "validate_root_id vault False = Inr ()" "validate_root_id device True = Inr ()"
    "inj_on H ({b. \<exists>h. memory_get h s = Inr b} \<union> root_blobs fb H version es)"
  shows "\<exists>root s'. build_root (memory_ops alloc) fb H now es version vault device s = (Inr root, s')
    \<and> versioned_version root = version
    \<and> load_versioned fb H (\<lambda>h. memory_get h s') root = Inr (sort_key fe_path es)"
proof -
  have get: "get_op (memory_ops alloc) = memory_get" by (simp add: memory_ops_def)
  have ok: "entries_ok (sort_key fe_path es)" using assms(5) by (simp add: codec_simps)
  have inj: "inj_on H ({b. \<exists>h. get_op (memory_ops alloc) h s = Inr b} \<union> root_blobs fb H version es)"
    using assms(9) by (simp add: get)
  note run = memory.build_root_run [where H = H and alloc = alloc and now = now, OF assms(1-4) ok assms(6-8) inj]
  show ?thesis using run stands_for_load unfolding get by blast
qed

theorem build_root_loads_back_witness:
  "let e = FileEntry.make ''a'' ZERO_HASH 1 2; H = (\<lambda>b. ZERO_HASH) in
   (\<exists>root s'. build_root (memory_ops length) field_layer H 7 [e] TREE_V1 ''vault'' ''phone'' memory_default = (Inr root, s')
      \<and> load_versioned field_layer H (\<lambda>h. memory_get h s') root = Inr [e])
   \<and> (\<exists>root s'. build_root (memory_ops length) field_layer H 7 [e] TREE_V2 ''vault'' ''phone'' memory_default = (Inr root, s')
      \<and> load_versioned field_layer H (\<lambda>h. memory_get h s') root = Inr [e])"
proof -
  let ?e = "FileEntry.make ''a'' ZERO_HASH 1 2" and ?H = "\<lambda>b :: bytes. ZERO_HASH"
  have ok: "entries_ok [?e]" by (simp add: entries_ok_def plain_paths FileEntry.defs tree_limits)
  have typed: "entry_typed ?e" by (simp add: entry_typed_def FileEntry.defs ZERO_HASH_def as_bytes_def from_utf8_ok_ascii)
  have ids: "validate_root_id ''vault'' False = Inr ()" "validate_root_id ''phone'' True = Inr ()"
    by (simp_all add: validate_root_id_def has_control_def str_chars_ascii as_bytes_def is_control_def MAX_ROOT_ID_BYTES_def)
  have mem: "memory_addressed ?H memory_default" by (simp add: memory_addressed_def memory_default_def)
  have hash: "hash_ok ZERO_HASH" by (simp add: ZERO_HASH_def)
  have valid: "validate_entries (sort_key fe_path [?e]) = Inr ()" using ok by (simp add: codec_simps)
  have inj: "inj_on ?H ({b. \<exists>h. memory_get h memory_default = Inr b} \<union> root_blobs field_layer ?H v [?e])" for v
    using one_entry_blobs [OF ok typed, of ?H] by (simp add: root_blobs_def one_entry_tree_blobs memory_get_def memory_default_def)
  have "\<exists>root s'. build_root (memory_ops length) field_layer ?H 7 [?e] v ''vault'' ''phone'' memory_default = (Inr root, s')
      \<and> versioned_version root = v
      \<and> load_versioned field_layer ?H (\<lambda>h. memory_get h s') root = Inr (sort_key fe_path [?e])"
    if "v = TREE_V1 \<or> v = TREE_V2" for v
    using build_root_loads_back [where H = ?H and alloc = length and now = 7, OF mem field_layer_ok hash _ valid that ids inj] typed
    by simp
  from this [of TREE_V1] this [of TREE_V2] show ?thesis unfolding Let_def by auto
qed

end
