(* ===== verification/Versioned_Diff.thy ===== *)
theory Versioned_Diff
  imports Versioned_Root Tree_V2_Diff
begin

text \<open>
  The root-level comparisons of \<open>crates/sync-core/src/diff.rs\<close>: the two-pointer walk over the child
  lists of two v1 roots, and the dispatch over the two formats with its flattening for a pair that
  spans the migration. The walk over the directories is an instance of \<open>walk\<close>, so the deltas of the
  directories follow one another in the order of the prefixes.
\<close>

section \<open>Definitions\<close>

definition visit_node :: "DiffStats \<Rightarrow> DiffStats" where
  "visit_node stats = stats\<lparr>nodes_visited := nodes_visited stats + 1\<rparr>"

definition materialize :: "nat \<Rightarrow> DiffStats \<Rightarrow> DiffStats" where
  "materialize n stats = stats\<lparr>entries_materialized := entries_materialized stats + of_nat n\<rparr>"

text \<open>The children left after the loop: whole directories deleted, whole directories added. The
  function \<open>f\<close> is the delta of one entry.\<close>

fun diff_rest ::
  "flatbuf \<Rightarrow> lookup \<Rightarrow> (FileEntry \<Rightarrow> FileDelta) \<Rightarrow> (string \<times> FileHash) list \<Rightarrow> FileDelta list \<Rightarrow> DiffStats
   \<Rightarrow> ChunkError + FileDelta list \<times> DiffStats" where
  "diff_rest fb get f [] raw stats = Inr (raw, stats)"
| "diff_rest fb get f ((_, hash) # children) raw stats =
     and_then (load_all_entries_v1 fb get hash) (\<lambda>entries.
       diff_rest fb get f children (raw @ map f entries) (materialize (length entries) (visit_node stats)))"

fun diff_children ::
  "flatbuf \<Rightarrow> lookup \<Rightarrow> (string \<times> FileHash) list \<Rightarrow> (string \<times> FileHash) list \<Rightarrow> FileDelta list \<Rightarrow> DiffStats
   \<Rightarrow> ChunkError + FileDelta list \<times> DiffStats" where
  "diff_children fb get ((from_prefix, from_hash) # fs) ((to_prefix, to_hash) # ts) raw stats =
     (let stats = visit_node stats in
      if from_prefix = to_prefix then
        (if from_hash \<noteq> to_hash then
           and_then (load_all_entries_v1 fb get from_hash) (\<lambda>from_entries.
           and_then (load_all_entries_v1 fb get to_hash) (\<lambda>to_entries.
             diff_children fb get fs ts (diff_entries from_entries to_entries raw)
               (materialize (length from_entries + length to_entries) stats)))
         else diff_children fb get fs ts raw (stats\<lparr>nodes_skipped := nodes_skipped stats + 1\<rparr>))
      else if from_prefix < to_prefix then
        and_then (load_all_entries_v1 fb get from_hash) (\<lambda>entries.
          diff_children fb get fs ((to_prefix, to_hash) # ts) (raw @ map deleted_of entries)
            (materialize (length entries) stats))
      else
        and_then (load_all_entries_v1 fb get to_hash) (\<lambda>entries.
          diff_children fb get ((from_prefix, from_hash) # fs) ts (raw @ map added_of entries)
            (materialize (length entries) stats)))"
| "diff_children fb get fs ts raw stats =
     and_then (diff_rest fb get deleted_of fs raw stats) (\<lambda>(raw, stats). diff_rest fb get added_of ts raw stats)"

definition compute_deltas_v1_with_stats ::
  "flatbuf \<Rightarrow> (bytes \<Rightarrow> FileHash) \<Rightarrow> lookup \<Rightarrow> RootNode \<Rightarrow> RootNode \<Rightarrow> ChunkError + DiffResult" where
  "compute_deltas_v1_with_stats fb H get from_root to_root =
     (let stats = diff_stats_default\<lparr>nodes_visited := 1\<rparr> in
      if root_node_hash H from_root = root_node_hash H to_root
      then Inr \<lparr>dr_deltas = [], dr_stats = stats\<lparr>nodes_skipped := 1\<rparr>\<rparr>
      else and_then (diff_children fb get (r1_children from_root) (r1_children to_root) [] stats) (\<lambda>(raw, stats).
        Inr \<lparr>dr_deltas = detect_renames raw, dr_stats = stats\<rparr>))"

definition compute_deltas_v1 ::
  "flatbuf \<Rightarrow> (bytes \<Rightarrow> FileHash) \<Rightarrow> lookup \<Rightarrow> RootNode \<Rightarrow> RootNode \<Rightarrow> ChunkError + FileDelta list" where
  "compute_deltas_v1 fb H get from_root to_root =
     and_then (compute_deltas_v1_with_stats fb H get from_root to_root) (\<lambda>r. Inr (dr_deltas r))"

definition compute_versioned_deltas_with_stats ::
  "flatbuf \<Rightarrow> (bytes \<Rightarrow> FileHash) \<Rightarrow> lookup \<Rightarrow> VersionedRoot \<Rightarrow> VersionedRoot \<Rightarrow> ChunkError + DiffResult" where
  "compute_versioned_deltas_with_stats fb H get from_root to_root =
     and_then (case (from_root, to_root) of
         (V1 a, V1 b) \<Rightarrow> compute_deltas_v1_with_stats fb H get a b
       | (V2 a, V2 b) \<Rightarrow> compute_deltas_with_stats H get (rn_tree a) (rn_tree b)
       | _ \<Rightarrow>
           and_then (load_versioned fb H get from_root) (\<lambda>from_entries.
           and_then (load_versioned fb H get to_root) (\<lambda>to_entries.
             Inr \<lparr>dr_deltas = detect_renames (diff_entries from_entries to_entries []),
                  dr_stats = \<lparr>nodes_visited = 2, nodes_skipped = 0,
                    entries_materialized = of_nat (length from_entries + length to_entries)\<rparr>\<rparr>)))
       (\<lambda>result. Inr (result\<lparr>dr_deltas := sort_key delta_path (dr_deltas result)\<rparr>))"

definition compute_versioned_deltas ::
  "flatbuf \<Rightarrow> (bytes \<Rightarrow> FileHash) \<Rightarrow> lookup \<Rightarrow> VersionedRoot \<Rightarrow> VersionedRoot \<Rightarrow> ChunkError + FileDelta list" where
  "compute_versioned_deltas fb H get from_root to_root =
     and_then (compute_versioned_deltas_with_stats fb H get from_root to_root) (\<lambda>r. Inr (dr_deltas r))"

section \<open>The walk over the directories\<close>

text \<open>The raw deltas of the loop, when every child loads: \<open>F\<close> and \<open>G\<close> give the entries of the directories
  of the two roots.\<close>

definition dir_deleted :: "(string \<Rightarrow> FileEntry list) \<Rightarrow> string \<times> FileHash \<Rightarrow> FileDelta list" where
  "dir_deleted F c = map deleted_of (F (fst c))"

definition dir_added :: "(string \<Rightarrow> FileEntry list) \<Rightarrow> string \<times> FileHash \<Rightarrow> FileDelta list" where
  "dir_added G c = map added_of (G (fst c))"

definition dir_changed ::
  "(string \<Rightarrow> FileEntry list) \<Rightarrow> (string \<Rightarrow> FileEntry list) \<Rightarrow> string \<times> FileHash \<Rightarrow> string \<times> FileHash \<Rightarrow> FileDelta list" where
  "dir_changed F G c d = (if snd c = snd d then [] else diff_list (F (fst c)) (G (fst d)))"

lemma diff_rest_run:
  "\<forall>(p, h) \<in> set cs. load_all_entries_v1 fb get h = Inr (F p) \<Longrightarrow>
   \<exists>stats'. diff_rest fb get f cs raw stats = Inr (raw @ concat (map (\<lambda>c. map f (F (fst c))) cs), stats')"
proof (induction cs arbitrary: raw stats)
  case (Cons c cs)
  obtain p h where c: "c = (p, h)" by (cases c)
  have "\<exists>stats'. diff_rest fb get f cs (raw @ map f (F p)) stats =
      Inr ((raw @ map f (F p)) @ concat (map (\<lambda>c. map f (F (fst c))) cs), stats')" for stats
    using Cons.prems by (intro Cons.IH) simp
  then show ?case using Cons.prems c by simp
qed simp

lemma diff_children_run:
  "\<forall>(p, h) \<in> set cs. load_all_entries_v1 fb get h = Inr (F p) \<Longrightarrow>
   \<forall>(p, h) \<in> set ds. load_all_entries_v1 fb get h = Inr (G p) \<Longrightarrow>
   \<exists>stats'. diff_children fb get cs ds raw stats =
     Inr (raw @ walk fst fst (dir_deleted F) (dir_added G) (dir_changed F G) cs ds, stats')"
proof (induction cs ds arbitrary: raw stats rule: two_lists_induct)
  case (left ds)
  then show ?case using diff_rest_run [of ds fb get G added_of raw stats] by (auto simp: dir_added_def)
next
  case (right c cs)
  then show ?case
    using diff_rest_run [of "c # cs" fb get F deleted_of raw stats] by (cases c) (auto simp: dir_deleted_def)
next
  case (both c cs d ds)
  obtain p h q k where cd: "c = (p, h)" "d = (q, k)" by (cases c; cases d)
  then have load: "load_all_entries_v1 fb get h = Inr (F p)" "load_all_entries_v1 fb get k = Inr (G q)" using both.prems by simp_all
  have rest: "\<forall>(p, h) \<in> set cs. load_all_entries_v1 fb get h = Inr (F p)" "\<forall>(p, h) \<in> set ds. load_all_entries_v1 fb get h = Inr (G p)"
    using both.prems by simp_all
  consider "p = q" | "p < q" | "q < p" by (metis linorder_cases)
  then show ?case
  proof cases
    case 1
    then show ?thesis
      using both.IH(1) [OF rest, of "raw @ dir_changed F G c d"] load cd
      by (cases "h = k") (simp_all add: Let_def dir_changed_def diff_entries_eq del: and_then_Inr)
  next
    case 2
    then show ?thesis
      using both.IH(2) [OF rest(1) both.prems(2), of "raw @ dir_deleted F c"] load cd
      by (simp add: Let_def dir_deleted_def less_imp_neq del: and_then_Inr)
  next
    case 3
    then have "p \<noteq> q" "\<not> p < q" by auto
    then show ?thesis
      using both.IH(3) [OF both.prems(1) rest(2), of "raw @ dir_added G d"] load cd
      by (simp add: Let_def dir_added_def del: and_then_Inr)
  qed
qed

section \<open>What the walk writes\<close>

text \<open>\<open>dirs P ds f g\<close>: the deltas \<open>ds\<close> concern the directories \<open>P\<close>, touch a path once and take the
  lookups \<open>f\<close> to \<open>g\<close> there.\<close>

definition change_at :: "(string \<rightharpoonup> FileEntry) \<Rightarrow> (string \<rightharpoonup> FileEntry) \<Rightarrow> string \<Rightarrow> FileEntry option option" where
  "change_at f g q = (if f q = g q then None else Some (g q))"

definition dirs :: "string set \<Rightarrow> FileDelta list \<Rightarrow> (string \<rightharpoonup> FileEntry) \<Rightarrow> (string \<rightharpoonup> FileEntry) \<Rightarrow> bool" where
  "dirs P ds f g \<longleftrightarrow> (\<forall>w \<in> set (all_writes ds). top_level_prefix (fst w) \<in> P) \<and> distinct (map fst (all_writes ds))
     \<and> (\<forall>q. top_level_prefix q \<in> P \<longrightarrow> map_of (all_writes ds) q = change_at f g q)"

lemma dirs_empty: "dirs {} [] f g"
  by (simp add: dirs_def)

lemma dirs_append:
  assumes "dirs P ds f g" "dirs Q es f g" "P \<inter> Q = {}"
  shows "dirs (P \<union> Q) (ds @ es) f g"
proof -
  have out: "map_of (all_writes xs) q = None" if "dirs R xs f g" "top_level_prefix q \<notin> R" for R xs q
    using that by (force simp: dirs_def map_of_eq_None_iff)
  have "fst ` set (all_writes ds) \<inter> fst ` set (all_writes es) = {}"
    using assms by (force simp: dirs_def)
  moreover have "map_of (all_writes (ds @ es)) q = change_at f g q" if "top_level_prefix q \<in> P \<union> Q" for q
  proof (cases "top_level_prefix q \<in> P")
    case True
    then have "top_level_prefix q \<notin> Q" using assms(3) by blast
    then show ?thesis using out [OF assms(2)] assms(1) True by (simp add: dirs_def map_add_def split: option.split)
  next
    case False
    then show ?thesis using out [OF assms(1)] assms(2) that by (simp add: dirs_def map_add_def split: option.split)
  qed
  ultimately show ?thesis using assms by (auto simp: dirs_def)
qed

text \<open>\<open>dir_of p es f\<close>: the entries \<open>es\<close> are those of the directory \<open>p\<close> in the vault \<open>f\<close>.\<close>

definition dir_of :: "string \<Rightarrow> FileEntry list \<Rightarrow> (string \<rightharpoonup> FileEntry) \<Rightarrow> bool" where
  "dir_of p es f \<longleftrightarrow> sorted_entries es \<and> (\<forall>q. entry_map es q = (if top_level_prefix q = p then f q else None))"

lemma dir_of_group: "sorted_entries es \<Longrightarrow> dir_of p (group_of p es) (entry_map es)"
  by (simp add: dir_of_def sorted_group_of entry_map_group_of)

lemma dirs_diff:
  assumes "dir_of p es f" "dir_of p ts g"
  shows "dirs {p} (diff_list es ts) f g"
proof -
  have s: "sorted_entries es" "sorted_entries ts" using assms by (simp_all add: dir_of_def)
  have d: "distinct (map fst (all_writes (diff_list es ts)))" using diff_list_sorted [OF s] strict_sorted_iff by blast
  have look: "map_of (all_writes (diff_list es ts)) q = (if top_level_prefix q = p then change_at f g q else None)" for q
    unfolding diff_list_writes [OF s] change_at_def using assms by (simp add: dir_of_def)
  have "top_level_prefix (fst w) = p" if "w \<in> set (all_writes (diff_list es ts))" for w
  proof -
    have "map_of (all_writes (diff_list es ts)) (fst w) = Some (snd w)" using d that by simp
    then show ?thesis using look [of "fst w"] by (auto split: if_splits)
  qed
  then show ?thesis using d look by (simp add: dirs_def)
qed

lemma child_list_same: "diff_list es es = []"
  by (induction es) simp_all

lemma dir_of_nothing: "(\<forall>q. top_level_prefix q = p \<longrightarrow> f q = None) \<Longrightarrow> dir_of p [] f"
  by (simp add: dir_of_def)

lemma dir_of_absent: "dir_of (top_level_prefix q) [] f \<Longrightarrow> f q = None"
  by (metis dir_of_def entry_map_simps(1))

lemma child_list_Nil: "diff_list es [] = map deleted_of es"
  by (cases es) simp_all

lemma dirs_concat:
  "bt_ok cs \<Longrightarrow> (\<And>c. c \<in> set cs \<Longrightarrow> dirs {fst c} (l c) f g) \<Longrightarrow> dirs (fst ` set cs) (concat (map l cs)) f g"
proof (induction cs)
  case (Cons c cs)
  have "dirs {fst c} (l c) f g" using Cons.prems by simp
  moreover have "dirs (fst ` set cs) (concat (map l cs)) f g" using Cons by simp
  moreover have "{fst c} \<inter> fst ` set cs = {}" using Cons.prems(1) by auto
  ultimately show ?case using dirs_append [of "{fst c}" "l c" f g "fst ` set cs"] by simp
qed (simp add: dirs_empty)

lemma dirs_walk:
  "bt_ok cs \<Longrightarrow> bt_ok ds \<Longrightarrow> \<forall>c \<in> set cs. dir_of (fst c) (F (fst c)) f \<Longrightarrow> \<forall>d \<in> set ds. dir_of (fst d) (G (fst d)) g \<Longrightarrow>
   \<forall>c \<in> set cs. fst c \<notin> fst ` set ds \<longrightarrow> dir_of (fst c) [] g \<Longrightarrow>
   \<forall>d \<in> set ds. fst d \<notin> fst ` set cs \<longrightarrow> dir_of (fst d) [] f \<Longrightarrow>
   \<forall>c \<in> set cs \<inter> set ds. F (fst c) = G (fst c) \<Longrightarrow>
   dirs (fst ` set cs \<union> fst ` set ds) (walk fst fst (dir_deleted F) (dir_added G) (dir_changed F G) cs ds) f g"
proof (induction cs ds rule: two_lists_induct)
  case (left ds)
  have "dirs {fst d} (dir_added G d) f g" if "d \<in> set ds" for d
    using left that dirs_diff [of "fst d" "[]" f "G (fst d)" g] by (simp add: dir_added_def)
  with dirs_concat [OF left(2)] show ?case by simp
next
  case (right c cs)
  have "dirs {fst x} (dir_deleted F x) f g" if "x \<in> set (c # cs)" for x
    using right(3,5) that dirs_diff [of "fst x" "F (fst x)" f "[]" g] by (auto simp: dir_deleted_def child_list_Nil)
  with dirs_concat [OF right(1)] show ?case by simp
next
  case (both c cs d ds)
  have c: "\<forall>x \<in> set cs. fst c < fst x" and d: "\<forall>x \<in> set ds. fst d < fst x" using both.prems(1,2) by auto
  let ?W = "walk fst fst (dir_deleted F) (dir_added G) (dir_changed F G)"
  consider "fst c = fst d" | "fst c < fst d" | "fst d < fst c" by (metis linorder_cases)
  then show ?case
  proof cases
    case 1
    have "dir_changed F G c d = diff_list (F (fst c)) (G (fst c))"
      using both.prems(7) 1 by (cases "snd c = snd d") (auto simp: dir_changed_def child_list_same prod_eq_iff)
    then have "dirs {fst c} (dir_changed F G c d) f g" using both.prems(3,4) 1 by (simp add: dirs_diff)
    moreover have "dirs (fst ` set cs \<union> fst ` set ds) (?W cs ds) f g"
    proof (rule both.IH(1))
      show "\<forall>x \<in> set cs. fst x \<notin> fst ` set ds \<longrightarrow> dir_of (fst x) [] g" using both.prems(5) 1 c by force
      show "\<forall>x \<in> set ds. fst x \<notin> fst ` set cs \<longrightarrow> dir_of (fst x) [] f" using both.prems(6) 1 d by force
    qed (use both.prems in auto)
    moreover have "{fst c} \<inter> (fst ` set cs \<union> fst ` set ds) = {}" using c d 1 by auto
    ultimately show ?thesis
      using dirs_append [of "{fst c}" "dir_changed F G c d" f g "fst ` set cs \<union> fst ` set ds"] 1 by simp
  next
    case 2
    have out: "fst c \<notin> fst ` set (d # ds)" using 2 d by force
    then have "dirs {fst c} (dir_deleted F c) f g"
      using dirs_diff [of "fst c" "F (fst c)" f "[]" g] both.prems(3,5) by (simp add: dir_deleted_def child_list_Nil)
    moreover have "dirs (fst ` set cs \<union> fst ` set (d # ds)) (?W cs (d # ds)) f g"
    proof (rule both.IH(2))
      show "\<forall>x \<in> set (d # ds). fst x \<notin> fst ` set cs \<longrightarrow> dir_of (fst x) [] f"
      proof (intro ballI impI)
        fix x assume x: "x \<in> set (d # ds)" "fst x \<notin> fst ` set cs"
        then have "fst x \<noteq> fst c" using out by (metis imageI)
        then have "fst x \<notin> fst ` set (c # cs)" using x(2) by simp
        then show "dir_of (fst x) [] f" using both.prems(6) x(1) by blast
      qed
    qed (use both.prems in auto)
    moreover have "{fst c} \<inter> (fst ` set cs \<union> fst ` set (d # ds)) = {}" using c out by auto
    ultimately show ?thesis
      using dirs_append [of "{fst c}" "dir_deleted F c" f g "fst ` set cs \<union> fst ` set (d # ds)"] 2 by (simp add: less_imp_neq)
  next
    case 3
    have out: "fst d \<notin> fst ` set (c # cs)" using 3 c by force
    then have "dirs {fst d} (dir_added G d) f g"
      using dirs_diff [of "fst d" "[]" f "G (fst d)" g] both.prems(4,6) by (simp add: dir_added_def)
    moreover have "dirs (fst ` set (c # cs) \<union> fst ` set ds) (?W (c # cs) ds) f g"
    proof (rule both.IH(3))
      show "\<forall>x \<in> set (c # cs). fst x \<notin> fst ` set ds \<longrightarrow> dir_of (fst x) [] g"
      proof (intro ballI impI)
        fix x assume x: "x \<in> set (c # cs)" "fst x \<notin> fst ` set ds"
        then have "fst x \<noteq> fst d" using out by (metis imageI)
        then have "fst x \<notin> fst ` set (d # ds)" using x(2) by simp
        then show "dir_of (fst x) [] g" using both.prems(5) x(1) by blast
      qed
    qed (use both.prems in auto)
    moreover have "{fst d} \<inter> (fst ` set (c # cs) \<union> fst ` set ds) = {}" using d out by auto
    moreover have "fst c \<noteq> fst d" "\<not> fst c < fst d" using 3 by auto
    moreover have "fst ` set (c # cs) \<union> fst ` set (d # ds) = {fst d} \<union> (fst ` set (c # cs) \<union> fst ` set ds)" by auto
    ultimately show ?thesis
      using dirs_append [of "{fst d}" "dir_added G d" f g "fst ` set (c # cs) \<union> fst ` set ds"] by simp
  qed
qed

section \<open>Exact deltas\<close>

lemma dirs_perm: "mset (all_writes ds) = mset (all_writes es) \<Longrightarrow> dirs P ds f g \<Longrightarrow> dirs P es f g"
proof -
  assume m: "mset (all_writes ds) = mset (all_writes es)" and d: "dirs P ds f g"
  have keys: "mset (map fst (all_writes ds)) = mset (map fst (all_writes es))" using m by simp
  have "distinct (map fst (all_writes es))" using d mset_eq_imp_distinct_iff [OF keys] by (simp add: dirs_def)
  moreover have "map_of (all_writes ds) = map_of (all_writes es)"
    using d calculation mset_eq_setD [OF m] by (simp add: dirs_def map_of_inject_set)
  ultimately show ?thesis using d mset_eq_setD [OF m] by (simp add: dirs_def)
qed

lemma dirs_detect: "dirs P ds f g \<Longrightarrow> dirs P (detect_renames ds) f g"
  by (rule dirs_perm [OF detect_renames_writes [symmetric]])

lemma dirs_sort: "dirs P ds f g \<Longrightarrow> dirs P (sort_key k ds) f g"
proof (rule dirs_perm)
  have "mset (map delta_writes ds) = mset (map delta_writes (sort_key k ds))" by simp
  then show "mset (all_writes ds) = mset (all_writes (sort_key k ds))" unfolding all_writes_def by (rule mset_concat_perm)
qed

lemma dirs_apply: "dirs UNIV ds f g \<Longrightarrow> apply_deltas ds f = g"
  by (simp add: fun_eq_iff apply_deltas_def apply_writes_distinct dirs_def change_at_def)

lemma dirs_touched: "dirs UNIV ds f g \<Longrightarrow> fst ` set (all_writes ds) = {q. f q \<noteq> g q}"
proof -
  assume d: "dirs UNIV ds f g"
  have "q \<in> fst ` set (all_writes ds) \<longleftrightarrow> f q \<noteq> g q" for q
    using d map_of_eq_None_iff [of "all_writes ds" q] by (auto simp: dirs_def change_at_def split: if_splits)
  then show ?thesis by blast
qed

lemma dirs_all:
  assumes "dirs P ds f g" "\<And>q. top_level_prefix q \<notin> P \<Longrightarrow> f q = g q"
  shows "dirs UNIV ds f g"
proof -
  have "map_of (all_writes ds) q = change_at f g q" for q
  proof (cases "top_level_prefix q \<in> P")
    case False
    then have "map_of (all_writes ds) q = None" using assms(1) by (force simp: dirs_def map_of_eq_None_iff)
    then show ?thesis using assms(2) [OF False] by (simp add: change_at_def)
  qed (use assms(1) in \<open>simp add: dirs_def\<close>)
  then show ?thesis using assms(1) by (simp add: dirs_def)
qed

lemma dirs_lists:
  assumes "sorted_entries fs" "sorted_entries ts"
  shows "dirs UNIV (diff_list fs ts) (entry_map fs) (entry_map ts)"
  using diff_list_sorted [OF assms] strict_sorted_iff [of "map fst (all_writes (diff_list fs ts))"] diff_list_writes [OF assms]
  by (simp add: dirs_def change_at_def)

lemma reads_v1_dir:
  assumes "reads_v1 fb get root es"
  shows "sorted_entries es" "bt_ok (r1_children root)"
    "\<forall>(p, h) \<in> set (r1_children root). load_all_entries_v1 fb get h = Inr (group_of p es)"
    "p \<notin> fst ` set (r1_children root) \<Longrightarrow> group_of p es = []"
proof -
  show "sorted_entries es" and ok: "bt_ok (r1_children root)" using assms by (simp_all add: reads_v1_def)
  show "\<forall>(p, h) \<in> set (r1_children root). load_all_entries_v1 fb get h = Inr (group_of p es)"
    using assms map_of_is_SomeI [OF bt_ok_distinct [OF ok]] by (fastforce simp: reads_v1_def)
  show "p \<notin> fst ` set (r1_children root) \<Longrightarrow> group_of p es = []"
    using assms by (simp add: reads_v1_def map_of_eq_None_iff)
qed

lemma diff_v1_run:
  assumes a: "reads_v1 fb get a fs" and b: "reads_v1 fb get b ts"
    and col: "root_node_hash H a = root_node_hash H b \<Longrightarrow> r1_children a = r1_children b"
  shows "\<exists>r. compute_deltas_v1_with_stats fb H get a b = Inr r \<and> dirs UNIV (dr_deltas r) (entry_map fs) (entry_map ts)"
proof -
  note ra = reads_v1_dir [OF a] and rb = reads_v1_dir [OF b]
  let ?F = "\<lambda>p. group_of p fs" and ?G = "\<lambda>p. group_of p ts"
  let ?P = "fst ` set (r1_children a) \<union> fst ` set (r1_children b)"
  have same: "\<forall>c \<in> set (r1_children a) \<inter> set (r1_children b). ?F (fst c) = ?G (fst c)"
    using ra(3) rb(3) by fastforce
  have none: "dir_of p [] (entry_map ts)" if "p \<notin> fst ` set (r1_children b)" for p
    using dir_of_group [OF rb(1), of p] rb(4) [OF that] by simp
  have none': "dir_of p [] (entry_map fs)" if "p \<notin> fst ` set (r1_children a)" for p
    using dir_of_group [OF ra(1), of p] ra(4) [OF that] by simp
  have walk: "dirs ?P (walk fst fst (dir_deleted ?F) (dir_added ?G) (dir_changed ?F ?G) (r1_children a) (r1_children b))
      (entry_map fs) (entry_map ts)"
    using none none' dir_of_group [OF ra(1)] dir_of_group [OF rb(1)] same by (intro dirs_walk ra(2) rb(2)) simp_all
  have "entry_map fs q = entry_map ts q" if "top_level_prefix q \<notin> ?P" for q
  proof -
    have "dir_of (top_level_prefix q) [] (entry_map ts)" "dir_of (top_level_prefix q) [] (entry_map fs)"
      using none none' that by simp_all
    then show ?thesis by (simp add: dir_of_absent)
  qed
  note all = dirs_all [OF walk this]
  show ?thesis
  proof (cases "root_node_hash H a = root_node_hash H b")
    case True
    have "group_of p fs = group_of p ts" for p
    proof (cases "p \<in> fst ` set (r1_children a)")
      case True
      then obtain h where "(p, h) \<in> set (r1_children a) \<inter> set (r1_children b)" using col [OF \<open>root_node_hash H a = root_node_hash H b\<close>] by auto
      from bspec [OF same this] show ?thesis by simp
    next
      case False
      then show ?thesis using ra(4) rb(4) col [OF True] by simp
    qed
    then have "entry_map fs q = entry_map ts q" for q
      using entry_map_group_of [OF ra(1), of "top_level_prefix q" q] entry_map_group_of [OF rb(1), of "top_level_prefix q" q] by simp
    then have "dirs UNIV [] (entry_map fs) (entry_map ts)" by (simp add: dirs_def change_at_def)
    then show ?thesis using True by (simp add: compute_deltas_v1_with_stats_def Let_def)
  next
    case False
    obtain stats where "diff_children fb get (r1_children a) (r1_children b) [] (diff_stats_default\<lparr>nodes_visited := 1\<rparr>) =
        Inr ([] @ walk fst fst (dir_deleted ?F) (dir_added ?G) (dir_changed ?F ?G) (r1_children a) (r1_children b), stats)"
      using diff_children_run [OF ra(3) rb(3), of "[]" "diff_stats_default\<lparr>nodes_visited := 1\<rparr>"] by blast
    then show ?thesis using False dirs_detect [OF all] by (simp add: compute_deltas_v1_with_stats_def Let_def del: and_then_Inr)
  qed
qed

section \<open>Property\<close>

text \<open>A stored root that reads as the entries \<open>es\<close>; for Tree v2 with the shape its builder keeps.\<close>

fun readable :: "flatbuf \<Rightarrow> (bytes \<Rightarrow> FileHash) \<Rightarrow> lookup \<Rightarrow> VersionedRoot \<Rightarrow> FileEntry list \<Rightarrow> bool" where
  "readable fb H get (V1 root) es = reads_v1 fb get root es"
| "readable fb H get (V2 root) es = (\<exists>gs. tree_inv H get (rn_tree root) gs \<and> concat gs = es)"

text \<open>Roots of one format that share their hash have the same children.\<close>

fun no_collision :: "(bytes \<Rightarrow> FileHash) \<Rightarrow> VersionedRoot \<Rightarrow> VersionedRoot \<Rightarrow> bool" where
  "no_collision H (V1 a) (V1 b) = (root_node_hash H a = root_node_hash H b \<longrightarrow> r1_children a = r1_children b)"
| "no_collision H (V2 a) (V2 b) =
     (tree_hash H (rn_tree a) = tree_hash H (rn_tree b) \<longrightarrow> tree_hash_bytes (rn_tree a) = tree_hash_bytes (rn_tree b))"
| "no_collision H _ _ = True"

lemma readable_stands: "readable fb H get root es \<Longrightarrow> stands_for fb H get root es"
  by (cases root) (auto dest: tree_inv_loads)

lemma versioned_run:
  assumes a: "readable fb H get a fs" and b: "readable fb H get b ts" and len: "length fs + length ts \<le> MAX_LOADED_ENTRIES"
    and col: "no_collision H a b" and H: "\<And>b. hash_ok (H b)"
  shows "\<exists>ds stats. compute_versioned_deltas_with_stats fb H get a b =
      Inr \<lparr>dr_deltas = sort_key delta_path ds, dr_stats = stats\<rparr>
    \<and> dirs UNIV ds (entry_map fs) (entry_map ts)"
proof -
  have sorted: "sorted_entries fs" "sorted_entries ts"
    using readable_stands [OF a] readable_stands [OF b] stands_for_sorted by blast+
  have lists: "dirs UNIV (detect_renames (diff_entries fs ts [])) (entry_map fs) (entry_map ts)"
    using dirs_detect [OF dirs_lists [OF sorted]] by (simp add: diff_entries_eq)
  note la = stands_for_load [OF readable_stands [OF a]] and lb = stands_for_load [OF readable_stands [OF b]]
  show ?thesis
  proof (cases a; cases b)
    fix x y assume v: "a = V1 x" "b = V1 y"
    then obtain r where "compute_deltas_v1_with_stats fb H get x y = Inr r" "dirs UNIV (dr_deltas r) (entry_map fs) (entry_map ts)"
      using diff_v1_run [of fb get x fs y ts H] a b col by auto
    then show ?thesis using v by (cases r) (auto simp: compute_versioned_deltas_with_stats_def)
  next
    fix x y assume v: "a = V2 x" "b = V2 y"
    then obtain gs hs where inv: "tree_inv H get (rn_tree x) gs" "concat gs = fs" "tree_inv H get (rn_tree y) hs" "concat hs = ts"
      using a b by auto
    then obtain stats where "compute_deltas_with_stats H get (rn_tree x) (rn_tree y) =
        Inr \<lparr>dr_deltas = detect_renames (diff_entries fs ts []), dr_stats = stats\<rparr>"
      using compute_deltas_run [where H = H, OF inv(1,3) _ _ H] len col v by auto
    then show ?thesis using lists v by (auto simp: compute_versioned_deltas_with_stats_def)
  next
    fix x y assume "a = V1 x" "b = V2 y"
    then show ?thesis using la lb lists by (auto simp: compute_versioned_deltas_with_stats_def)
  next
    fix x y assume "a = V2 x" "b = V1 y"
    then show ?thesis using la lb lists by (auto simp: compute_versioned_deltas_with_stats_def)
  qed
qed

text \<open>(C37) The comparison of two stored roots succeeds whatever their formats, two v1 roots, two v2 roots or a pair
  across the migration, and its deltas are exact: applying them to the old state gives the new one, they
  touch every path that differs once and no other path, and they are sorted by path. Two roots of
  one format must not collide under the root hash.\<close>

theorem versioned_deltas_exact:
  assumes "readable fb H get a fs" "readable fb H get b ts" "length fs + length ts \<le> 10000000"
    "no_collision H a b" "\<And>b. hash_ok (H b)"
  shows "\<exists>ds. compute_versioned_deltas fb H get a b = Inr ds \<and> apply_deltas ds (entry_map fs) = entry_map ts
    \<and> distinct (map fst (all_writes ds)) \<and> fst ` set (all_writes ds) = {p. entry_map fs p \<noteq> entry_map ts p}
    \<and> sorted (map delta_path ds)"
proof -
  have len: "length fs + length ts \<le> MAX_LOADED_ENTRIES" using assms(3) by (simp add: MAX_LOADED_ENTRIES_def)
  obtain raw stats where r: "compute_versioned_deltas_with_stats fb H get a b =
        Inr \<lparr>dr_deltas = sort_key delta_path raw, dr_stats = stats\<rparr>"
      "dirs UNIV raw (entry_map fs) (entry_map ts)"
    using versioned_run [where H = H, OF assms(1,2) len assms(4,5)] by blast
  let ?ds = "sort_key delta_path raw"
  note d = dirs_sort [OF r(2), of delta_path]
  have "compute_versioned_deltas fb H get a b = Inr ?ds" using r(1) by (simp add: compute_versioned_deltas_def)
  moreover have "distinct (map fst (all_writes ?ds))" using d by (simp add: dirs_def)
  ultimately show ?thesis using dirs_apply [OF d] dirs_touched [OF d] sorted_sort_key [of delta_path raw] by blast
qed

theorem versioned_deltas_exact_witness:
  "let e = FileEntry.make ''notes/a.md'' ZERO_HASH 1 2; H = (\<lambda>b. replicate 32 (if b = [] then 0 else 1));
       root = (\<lambda>es. \<lparr>r1_vault_id = ''v'', r1_created_ms = 0, r1_version = 1, r1_children = children_of field_layer H es,
               r1_total_files = of_nat (length es), r1_parent_hash = None, r1_device_id = ''d''\<rparr>) in
   \<exists>ds. compute_versioned_deltas field_layer H (\<lambda>h. Inr (leaf_blob_v1 field_layer [e])) (V1 (root [])) (V1 (root [e])) = Inr ds
     \<and> apply_deltas ds Map.empty = [''notes/a.md'' \<mapsto> e]"
proof -
  let ?e = "FileEntry.make ''notes/a.md'' ZERO_HASH 1 2" and ?H = "\<lambda>b :: bytes. replicate 32 (if b = [] then 0 else 1) :: FileHash"
  let ?root = "\<lambda>es. \<lparr>r1_vault_id = ''v'', r1_created_ms = 0, r1_version = 1, r1_children = children_of field_layer ?H es,
               r1_total_files = of_nat (length es), r1_parent_hash = None, r1_device_id = ''d''\<rparr>"
  let ?get = "\<lambda>h :: FileHash. Inr (leaf_blob_v1 field_layer [?e]) :: ChunkError + bytes"
  have typed: "entry_v1_ok ?e"
    by (simp add: entry_v1_ok_def entry_typed_def FileEntry.defs ZERO_HASH_def as_bytes_def from_utf8_ok_ascii)
  have hash: "hash_ok (?H b)" for b by simp
  have inv: "tree_v1_inv field_layer ?H ?get (r1_children (?root es)) (r1_total_files (?root es)) es" if "es = [] \<or> es = [?e]" for es
    using that typed by (auto simp: tree_v1_inv_def one_entry_tree_blobs MAX_LOADED_ENTRIES_V1_def)
      (simp add: tree_blobs_def)?
  have reads: "readable field_layer ?H ?get (V1 (?root es)) es" if "es = [] \<or> es = [?e]" for es
    using inv_reads_v1 [where H = ?H, OF field_layer_ok hash inv [OF that]] by simp
  have "root_preimage (r1_children (?root [?e])) \<noteq> []"
    by (simp add: children_of_def group_push_def root_preimage_def prefix_hash_def leaf_hashes_v1_def leaf_pieces_def
      chunks.simps TARGET_CHUNK_ENTRIES_def)
  moreover have "root_preimage (r1_children (?root [])) = []" by (simp add: children_of_def root_preimage_def)
  ultimately have col: "no_collision ?H (V1 (?root [])) (V1 (?root [?e]))"
    by (simp add: root_node_hash_def del: RootNode.simps)
  have "\<exists>ds. compute_versioned_deltas field_layer ?H ?get (V1 (?root [])) (V1 (?root [?e])) = Inr ds
      \<and> apply_deltas ds (entry_map []) = entry_map [?e]"
    using versioned_deltas_exact [where H = ?H, OF reads [of "[]"] reads [of "[?e]"] _ col hash] by auto
  then show ?thesis unfolding Let_def by (simp add: FileEntry.defs)
qed

end
