(* ===== verification/Guard.thy ===== *)
theory Guard
  imports Versioned_Diff Globs Storage_Path
begin

text \<open>
  The pre-commit guard of the server: \<open>crates/sync-server/src/guard.rs\<close>, the function
  \<open>enforce_guard\<close> of \<open>api.rs\<close> that runs it before every change of a vault's current root, and the
  one-time bypass grants of \<open>devices.rs\<close> it consumes. The scan compares the root to be replaced
  with its replacement and counts deletions, content changes and files whose content moves back in
  time; \<open>triggered\<close> compares the counts with the configured limits.

  The environment variables are a function \<open>env\<close>. The bypass files \<open>guard-bypass\<close> of the device
  directories are a map from directory names (\<open>storage_component\<close>) to contents; the outcomes of the file operations are the
  record \<open>bypass_io\<close>. Logging, the JSON body of the refusal and failures of the blocking
  executor during the scan are left out.
\<close>

section \<open>Configuration\<close>

datatype GuardMode = Enforce | Warn | Off

record GuardConfig =
  gc_mode :: GuardMode
  mtime_regression_max :: nat
  mtime_skew_ms :: u64
  blast_pct :: u64
  blast_min :: u64

definition is_ascii_digit :: "char \<Rightarrow> bool" where
  "is_ascii_digit c \<longleftrightarrow> 48 \<le> (of_char c :: nat) \<and> (of_char c :: nat) < 58"

definition digits_value :: "string \<Rightarrow> nat" where
  "digits_value s = foldl (\<lambda>n c. 10 * n + ((of_char c :: nat) - 48)) 0 s"

text \<open>\<open>u64::from_str\<close>: an optional plus sign and at least one digit, within the range.\<close>

definition parse_u64 :: "string \<Rightarrow> u64 option" where
  "parse_u64 s =
     (let ds = (case s of [] \<Rightarrow> [] | c # r \<Rightarrow> if c = CHR ''+'' then r else s) in
      if ds = [] \<or> \<not> list_all is_ascii_digit ds then None
      else if digits_value ds < 2 ^ 64 then Some (of_nat (digits_value ds)) else None)"

definition env_u64 :: "(string \<Rightarrow> string option) \<Rightarrow> string \<Rightarrow> u64 \<Rightarrow> u64" where
  "env_u64 env key fallback =
     (case Option.bind (env key) parse_u64 of None \<Rightarrow> fallback | Some v \<Rightarrow> v)"

definition guard_from_env :: "(string \<Rightarrow> string option) \<Rightarrow> GuardConfig" where
  "guard_from_env env =
     \<lparr>gc_mode = (if env ''OBSETYNC_GUARD'' = Some ''off'' then Off
                 else if env ''OBSETYNC_GUARD'' = Some ''enforce'' then Enforce else Warn),
      mtime_regression_max = unat (env_u64 env ''OBSETYNC_GUARD_MTIME_K'' 25),
      mtime_skew_ms = env_u64 env ''OBSETYNC_GUARD_MTIME_SKEW_MS'' 43200000,
      blast_pct = env_u64 env ''OBSETYNC_GUARD_BLAST_PCT'' 25,
      blast_min = env_u64 env ''OBSETYNC_GUARD_BLAST_MIN'' 200\<rparr>"

section \<open>The scan\<close>

record GuardScan =
  deletions :: nat
  content_changes :: nat
  mtime_regressions :: nat
  additions :: nat
  current_total :: u64

definition guard_scan_new :: "u64 \<Rightarrow> GuardScan" where
  "guard_scan_new n =
     \<lparr>deletions = 0, content_changes = 0, mtime_regressions = 0, additions = 0, current_total = n\<rparr>"

text \<open>Counts are \<open>usize\<close> and never pass the number of entries of the two roots. The product of the
  percentage wraps, as it does in the release build.\<close>

definition triggered :: "GuardScan \<Rightarrow> GuardConfig \<Rightarrow> string option" where
  "triggered scan cfg =
     (if mtime_regressions scan > mtime_regression_max cfg then Some ''mtime_regression''
      else let blast = (of_nat (deletions scan + content_changes scan) :: u64);
               ceiling = max (blast_min cfg) (current_total scan * blast_pct cfg div 100) in
           if blast > ceiling then Some ''blast_radius'' else None)"

fun compare_entries :: "u64 \<Rightarrow> FileEntry list \<Rightarrow> FileEntry list \<Rightarrow> GuardScan \<Rightarrow> GuardScan" where
  "compare_entries skew_ms (cur # curs) (cand # cands) out =
     (if fe_path cur = fe_path cand then
        compare_entries skew_ms curs cands
          (if fe_hash cur \<noteq> fe_hash cand then
             let out = out\<lparr>content_changes := content_changes out + 1\<rparr> in
             if u64_saturating_add (fe_mtime_ms cand) skew_ms < fe_mtime_ms cur
             then out\<lparr>mtime_regressions := mtime_regressions out + 1\<rparr> else out
           else out)
      else if fe_path cur < fe_path cand then
        compare_entries skew_ms curs (cand # cands) (out\<lparr>deletions := deletions out + 1\<rparr>)
      else compare_entries skew_ms (cur # curs) cands (out\<lparr>additions := additions out + 1\<rparr>))"
| "compare_entries skew_ms curs cands out =
     out\<lparr>deletions := deletions out + length curs, additions := additions out + length cands\<rparr>"

fun scan_current ::
  "flatbuf \<Rightarrow> lookup \<Rightarrow> u64 \<Rightarrow> (string \<rightharpoonup> FileHash) \<Rightarrow> (string \<times> FileHash) list \<Rightarrow> GuardScan \<Rightarrow> ChunkError + GuardScan" where
  "scan_current fb get skew_ms cand_children [] out = Inr out"
| "scan_current fb get skew_ms cand_children ((prefix, cur_hash) # children) out =
     and_then (case cand_children prefix of
         Some cand_hash \<Rightarrow>
           if cand_hash = cur_hash then Inr out
           else and_then (load_all_entries_v1 fb get cur_hash) (\<lambda>cur_entries.
                and_then (load_all_entries_v1 fb get cand_hash) (\<lambda>cand_entries.
                  Inr (compare_entries skew_ms cur_entries cand_entries out)))
       | None \<Rightarrow>
           and_then (load_all_entries_v1 fb get cur_hash) (\<lambda>cur_entries.
             Inr (out\<lparr>deletions := deletions out + length cur_entries\<rparr>)))
       (scan_current fb get skew_ms cand_children children)"

fun scan_candidate ::
  "flatbuf \<Rightarrow> lookup \<Rightarrow> (string \<rightharpoonup> FileHash) \<Rightarrow> (string \<times> FileHash) list \<Rightarrow> GuardScan \<Rightarrow> ChunkError + GuardScan" where
  "scan_candidate fb get cur_children [] out = Inr out"
| "scan_candidate fb get cur_children ((prefix, cand_hash) # children) out =
     and_then (if cur_children prefix = None then
         and_then (load_all_entries_v1 fb get cand_hash) (\<lambda>cand_entries.
           Inr (out\<lparr>additions := additions out + length cand_entries\<rparr>))
       else Inr out)
       (scan_candidate fb get cur_children children)"

definition scan_inner :: "flatbuf \<Rightarrow> lookup \<Rightarrow> RootNode \<Rightarrow> RootNode \<Rightarrow> u64 \<Rightarrow> ChunkError + GuardScan" where
  "scan_inner fb get current candidate skew_ms =
     and_then (scan_current fb get skew_ms (collect_pairs (r1_children candidate)) (r1_children current)
         (guard_scan_new (r1_total_files current)))
       (scan_candidate fb get (collect_pairs (r1_children current)) (r1_children candidate))"

definition scan_versioned ::
  "flatbuf \<Rightarrow> (bytes \<Rightarrow> FileHash) \<Rightarrow> lookup \<Rightarrow> u64 \<Rightarrow> VersionedRoot \<Rightarrow> VersionedRoot \<Rightarrow> ChunkError + GuardScan" where
  "scan_versioned fb H get skew_ms current candidate =
     (case (current, candidate) of
        (V1 a, V1 b) \<Rightarrow> scan_inner fb get a b skew_ms
      | _ \<Rightarrow>
          and_then (load_versioned fb H get current) (\<lambda>current_entries.
          and_then (load_versioned fb H get candidate) (\<lambda>candidate_entries.
            Inr (compare_entries skew_ms current_entries candidate_entries
              (guard_scan_new (versioned_total_files current))))))"

section \<open>Bypass grants and the decision\<close>

record bypass_io =
  run_ok :: bool
  rename_ok :: bool
  read_ok :: bool
  persist_ok :: bool
  sync_ok :: bool

definition u64_saturating_mul :: "u64 \<Rightarrow> u64 \<Rightarrow> u64" where
  "u64_saturating_mul a b = (if unat a * unat b < 2 ^ 64 then a * b else - 1)"

definition grant_deletion_bypass ::
  "(bytes \<Rightarrow> FileHash) \<Rightarrow> bypass_io \<Rightarrow> u64 \<Rightarrow> string \<Rightarrow> u64 \<Rightarrow> (string \<rightharpoonup> string) \<Rightarrow> bool \<times> (string \<rightharpoonup> string)" where
  "grant_deletion_bypass H io now_ms device_id ttl_secs files =
     (let expiry = u64_saturating_add now_ms (u64_saturating_mul ttl_secs 1000) in
      if \<not> persist_ok io then (False, files)
      else (sync_ok io, files(storage_component H device_id \<mapsto> decimal (unat expiry))))"

definition consume_deletion_bypass ::
  "(bytes \<Rightarrow> FileHash) \<Rightarrow> bypass_io \<Rightarrow> u64 \<Rightarrow> string \<Rightarrow> (string \<rightharpoonup> string) \<Rightarrow> bool \<times> (string \<rightharpoonup> string)" where
  "consume_deletion_bypass H io now_ms device_id files =
     (case files (storage_component H device_id) of
        None \<Rightarrow> (False, files)
      | Some value \<Rightarrow>
          if \<not> rename_ok io then (False, files)
          else (let files = files(storage_component H device_id := None) in
            if \<not> sync_ok io then (False, files)
            else if \<not> read_ok io then (False, files)
            else (case parse_u64 (trim value) of None \<Rightarrow> (False, files) | Some exp \<Rightarrow> (now_ms < exp, files))))"

definition deletion_bypass_remaining_ms ::
  "(bytes \<Rightarrow> FileHash) \<Rightarrow> bypass_io \<Rightarrow> u64 \<Rightarrow> string \<Rightarrow> (string \<rightharpoonup> string) \<Rightarrow> u64 option" where
  "deletion_bypass_remaining_ms H io now_ms device_id files =
     Option.bind (if read_ok io then files (storage_component H device_id) else None) (\<lambda>s.
     Option.bind (parse_u64 (trim s)) (\<lambda>exp.
       if now_ms \<le> exp \<and> exp - now_ms > 0 then Some (exp - now_ms) else None))"

datatype GuardError = ScanFailed ChunkError | Rejected GuardScan string

definition enforce_guard ::
  "flatbuf \<Rightarrow> (bytes \<Rightarrow> FileHash) \<Rightarrow> lookup \<Rightarrow> GuardConfig \<Rightarrow> bypass_io \<Rightarrow> u64 \<Rightarrow> string \<Rightarrow> VersionedRoot \<Rightarrow> VersionedRoot
   \<Rightarrow> (string \<rightharpoonup> string) \<Rightarrow> (GuardError + unit) \<times> (string \<rightharpoonup> string)" where
  "enforce_guard fb H get cfg io now_ms device_id current candidate files =
     (if gc_mode cfg = Off then (Inr (), files)
      else case scan_versioned fb H get (mtime_skew_ms cfg) current candidate of
        Inl e \<Rightarrow> (Inl (ScanFailed e), files)
      | Inr scan \<Rightarrow>
          (case triggered scan cfg of
             None \<Rightarrow> (Inr (), files)
           | Some reason \<Rightarrow>
               if gc_mode cfg = Enforce then
                 (let (bypass_granted, files) =
                        (if run_ok io then consume_deletion_bypass H io now_ms device_id files else (False, files)) in
                  if bypass_granted then (Inr (), files) else (Inl (Rejected scan reason), files))
               else (Inr (), files)))"

section \<open>What a scan counts\<close>

text \<open>The change of one path, as the scan classifies it; a content change carries whether it moves the
  modification time back by more than the allowance.\<close>

datatype GuardEvent = Gone | Appeared | Changed bool

definition regressed :: "u64 \<Rightarrow> FileEntry \<Rightarrow> FileEntry \<Rightarrow> bool" where
  "regressed skew_ms cur cand \<longleftrightarrow> unat (fe_mtime_ms cand) + unat skew_ms < unat (fe_mtime_ms cur)"

definition event_gone :: "FileEntry \<Rightarrow> (string \<times> GuardEvent) list" where
  "event_gone cur = [(fe_path cur, Gone)]"

definition event_appeared :: "FileEntry \<Rightarrow> (string \<times> GuardEvent) list" where
  "event_appeared cand = [(fe_path cand, Appeared)]"

definition event_changed :: "u64 \<Rightarrow> FileEntry \<Rightarrow> FileEntry \<Rightarrow> (string \<times> GuardEvent) list" where
  "event_changed skew_ms cur cand =
     (if fe_hash cur = fe_hash cand then [] else [(fe_path cand, Changed (regressed skew_ms cur cand))])"

lemmas event_defs = event_gone_def event_appeared_def event_changed_def

interpretation guard_walk: keyed_walk fe_path fe_path fst event_gone event_appeared "event_changed skew_ms" for skew_ms
  by unfold_locales (auto simp: event_defs)

abbreviation guard_events :: "u64 \<Rightarrow> FileEntry list \<Rightarrow> FileEntry list \<Rightarrow> (string \<times> GuardEvent) list" where
  "guard_events skew_ms \<equiv> walk fe_path fe_path event_gone event_appeared (event_changed skew_ms)"

definition guard_event :: "u64 \<Rightarrow> FileEntry option \<Rightarrow> FileEntry option \<Rightarrow> GuardEvent option" where
  "guard_event skew_ms u v =
     (case (u, v) of
        (Some cur, Some cand) \<Rightarrow> if fe_hash cur = fe_hash cand then None else Some (Changed (regressed skew_ms cur cand))
      | (Some cur, None) \<Rightarrow> Some Gone
      | (None, Some cand) \<Rightarrow> Some Appeared
      | (None, None) \<Rightarrow> None)"

definition tally :: "(string \<times> GuardEvent) list \<Rightarrow> GuardScan \<Rightarrow> GuardScan" where
  "tally evs out =
     (let n = count_list (map snd evs) in
      out\<lparr>deletions := deletions out + n Gone,
          content_changes := content_changes out + n (Changed True) + n (Changed False),
          mtime_regressions := mtime_regressions out + n (Changed True),
          additions := additions out + n Appeared\<rparr>)"

lemma tally_Nil [simp]: "tally [] out = out"
  by (simp add: tally_def)

lemma tally_append: "tally (xs @ ys) out = tally ys (tally xs out)"
  by (simp add: tally_def Let_def)

lemma saturating_less_iff:
  "u64_saturating_add a b < (c :: u64) \<longleftrightarrow> unat a + unat b < unat c"
  using unsigned_less [where ?'a = nat, of c] by (auto simp: word_less_nat_alt unat_u64_saturating_add)

lemma count_uniform:
  "count_list (map snd (concat (map event_gone es))) k = (if k = Gone then length es else 0)"
  "count_list (map snd (concat (map event_appeared es))) k = (if k = Appeared then length es else 0)"
  by (induction es) (auto simp: event_defs split: if_splits)

lemma tally_gone: "tally (concat (map event_gone es)) out = out\<lparr>deletions := deletions out + length es\<rparr>"
  by (simp add: tally_def count_uniform)

lemma tally_appeared: "tally (concat (map event_appeared es)) out = out\<lparr>additions := additions out + length es\<rparr>"
  by (simp add: tally_def count_uniform)

lemma compare_entries_tally: "compare_entries skew_ms cs ds out = tally (guard_events skew_ms cs ds) out"
proof (induction cs ds arbitrary: out rule: two_lists_induct)
  case (left ds)
  show ?case by (simp add: tally_appeared)
next
  case (right c cs)
  show ?case using tally_gone [of "c # cs" out] by simp
next
  case (both c cs d ds)
  have "tally (event_gone c) out = out\<lparr>deletions := deletions out + 1\<rparr>"
    "tally (event_appeared d) out = out\<lparr>additions := additions out + 1\<rparr>"
    "tally (event_changed skew_ms c d) out = (if fe_hash c \<noteq> fe_hash d then
       let out = out\<lparr>content_changes := content_changes out + 1\<rparr> in
       if u64_saturating_add (fe_mtime_ms d) skew_ms < fe_mtime_ms c
       then out\<lparr>mtime_regressions := mtime_regressions out + 1\<rparr> else out else out)"
    by (simp_all add: event_defs tally_def Let_def saturating_less_iff regressed_def)
  then show ?case using both by (simp add: tally_append)
qed

lemma events_distinct:
  "sorted_entries cs \<Longrightarrow> sorted_entries ds \<Longrightarrow> distinct (map fst (guard_events skew_ms cs ds))"
  using guard_walk.walk_strict strict_by_distinct unfolding sorted_entries_def by blast

lemma events_at:
  assumes "sorted_entries cs" "sorted_entries ds"
  shows "map_of (guard_events skew_ms cs ds) q = guard_event skew_ms (entry_map cs q) (entry_map ds q)"
proof -
  have snds: "map_of evs q = map_option snd (index_by fst evs q)" for evs :: "(string \<times> GuardEvent) list"
    by (induction evs) auto
  have "index_by fst (guard_events skew_ms cs ds) q =
      emitted event_gone event_appeared (event_changed skew_ms) (entry_map cs q) (entry_map ds q)"
    using assms guard_walk.walk_index unfolding sorted_entries_def entry_map_def by blast
  then show ?thesis
    by (simp add: snds guard_event_def emitted_def event_defs split: option.split)
qed

lemma count_events:
  "distinct (map fst evs) \<Longrightarrow> count_list (map snd evs) k = card {q. map_of evs q = Some k}"
proof (induction evs)
  case (Cons e evs)
  have "map_of evs (fst e) = None" using Cons.prems by (simp add: map_of_eq_None_iff)
  then have out: "fst e \<notin> {q. map_of evs q = Some k}" by simp
  have fin: "finite {q. map_of evs q = Some k}"
    by (rule finite_subset [of _ "fst ` set evs"]) (force dest: map_of_SomeD, simp)
  have "{q. map_of (e # evs) q = Some k} =
      (if snd e = k then insert (fst e) {q. map_of evs q = Some k} else {q. map_of evs q = Some k})"
    using out by (cases e) auto
  then show ?case using Cons out fin by simp
qed simp

text \<open>The numbers a scan of the vaults \<open>f\<close> and \<open>g\<close> should report.\<close>

definition scan_of :: "u64 \<Rightarrow> (string \<rightharpoonup> FileEntry) \<Rightarrow> (string \<rightharpoonup> FileEntry) \<Rightarrow> u64 \<Rightarrow> GuardScan" where
  "scan_of skew_ms f g n =
     (let num = (\<lambda>k. card {q. guard_event skew_ms (f q) (g q) = Some k}) in
      \<lparr>deletions = num Gone, content_changes = num (Changed True) + num (Changed False),
       mtime_regressions = num (Changed True), additions = num Appeared, current_total = n\<rparr>)"

lemma tally_scan_of:
  assumes "distinct (map fst evs)" "\<And>q. map_of evs q = guard_event skew_ms (f q) (g q)"
  shows "tally evs (guard_scan_new n) = scan_of skew_ms f g n"
  using count_events [OF assms(1)] assms(2) by (simp add: tally_def scan_of_def guard_scan_new_def Let_def)

section \<open>The scan of two v1 roots\<close>

lemma events_same: "guard_events skew_ms es es = []"
  by (induction es) (simp_all add: event_changed_def)

lemma events_all_gone: "guard_events skew_ms es [] = concat (map event_gone es)"
  by (cases es) simp_all

lemma scan_current_run:
  "\<forall>(p, h) \<in> set cs. load_all_entries_v1 fb get h = Inr (F p) \<Longrightarrow>
   \<forall>p h. m p = Some h \<longrightarrow> load_all_entries_v1 fb get h = Inr (G p) \<Longrightarrow> \<forall>p. m p = None \<longrightarrow> G p = [] \<Longrightarrow>
   scan_current fb get skew_ms m cs out = Inr (tally (concat (map (\<lambda>c. guard_events skew_ms (F (fst c)) (G (fst c))) cs)) out)"
proof (induction cs arbitrary: out)
  case (Cons c cs)
  obtain p h where c: "c = (p, h)" by (cases c)
  have load: "load_all_entries_v1 fb get h = Inr (F p)" using Cons.prems(1) c by simp
  have "(case m p of
         Some cand_hash \<Rightarrow>
           if cand_hash = h then Inr out
           else and_then (load_all_entries_v1 fb get h) (\<lambda>cur_entries.
                and_then (load_all_entries_v1 fb get cand_hash) (\<lambda>cand_entries.
                  Inr (compare_entries skew_ms cur_entries cand_entries out)))
       | None \<Rightarrow>
           and_then (load_all_entries_v1 fb get h) (\<lambda>cur_entries.
             Inr (out\<lparr>deletions := deletions out + length cur_entries\<rparr>))) = Inr (tally (guard_events skew_ms (F p) (G p)) out)"
  proof (cases "m p")
    case None
    then show ?thesis using Cons.prems(3) load by (simp add: events_all_gone tally_gone)
  next
    case (Some k)
    then have "load_all_entries_v1 fb get k = Inr (G p)" using Cons.prems(2) by simp
    then show ?thesis using Some load by (auto simp: compare_entries_tally events_same)
  qed
  then show ?case using Cons c by (simp add: tally_append del: and_then_Inr)
qed simp

lemma scan_candidate_run:
  "\<forall>(p, h) \<in> set cs. load_all_entries_v1 fb get h = Inr (G p) \<Longrightarrow> \<forall>p. m p = None \<longrightarrow> F p = [] \<Longrightarrow>
   scan_candidate fb get m cs out =
     Inr (tally (concat (map (\<lambda>c. guard_events skew_ms (F (fst c)) (G (fst c))) (filter (\<lambda>c. m (fst c) = None) cs))) out)"
proof (induction cs arbitrary: out)
  case (Cons c cs)
  then show ?case by (cases c) (simp add: tally_append tally_appeared)
qed simp

lemma dir_events:
  assumes "distinct ps" "\<And>p. distinct (map fst (ev p))"
    "\<And>p q. map_of (ev p) q = (if top_level_prefix q = p then E q else None)"
  shows "distinct (map fst (concat (map ev ps))) \<and>
    (\<forall>q. map_of (concat (map ev ps)) q = (if top_level_prefix q \<in> set ps then E q else None))"
  using assms(1)
proof (induction ps)
  case (Cons p ps)
  let ?L = "concat (map ev ps)"
  have look: "map_of ?L q = (if top_level_prefix q \<in> set ps then E q else None)" for q using Cons by simp
  have "top_level_prefix q = p" if "q \<in> fst ` set (ev p)" for q
    using that assms(3) [of p q] map_of_eq_None_iff [of "ev p" q] by (auto split: if_splits)
  moreover have "top_level_prefix q \<in> set ps" if "q \<in> fst ` set ?L" for q
    using that look [of q] map_of_eq_None_iff [of ?L q] by (auto split: if_splits)
  ultimately have "fst ` set (ev p) \<inter> fst ` set ?L = {}" using Cons.prems by fastforce
  moreover have "map_of (ev p @ ?L) q = (if top_level_prefix q \<in> set (p # ps) then E q else None)" for q
    using Cons.prems look [of q] assms(3) [of p q] by (auto simp: map_add_def split: option.split)
  ultimately show ?case using Cons assms(2) [of p] by simp
qed simp

lemma scan_inner_run:
  assumes "reads_v1 fb get a fs" "reads_v1 fb get b ts"
  shows "scan_inner fb get a b skew_ms = Inr (scan_of skew_ms (entry_map fs) (entry_map ts) (r1_total_files a))"
proof -
  note ra = reads_v1_dir [OF assms(1)] and rb = reads_v1_dir [OF assms(2)]
  let ?a = "r1_children a" and ?b = "r1_children b"
  let ?ev = "\<lambda>p. guard_events skew_ms (group_of p fs) (group_of p ts)"
  let ?new = "filter (\<lambda>c. map_of ?a (fst c) = None) ?b"
  let ?ps = "map fst ?a @ map fst ?new" and ?E = "\<lambda>q. guard_event skew_ms (entry_map fs q) (entry_map ts q)"
  have d: "distinct (map fst (?ev p))" for p by (rule events_distinct [OF sorted_group_of [OF ra(1)] sorted_group_of [OF rb(1)]])
  have at: "map_of (?ev p) q = (if top_level_prefix q = p then ?E q else None)" for p q
    by (simp add: events_at [OF sorted_group_of [OF ra(1)] sorted_group_of [OF rb(1)]] entry_map_group_of ra(1) rb(1) guard_event_def)
  have ps: "distinct ?ps"
    using bt_ok_distinct [OF ra(2)] bt_ok_distinct [OF rb(2)] by (force simp: distinct_map_filter map_of_eq_None_iff)
  have out: "?E q = None" if "top_level_prefix q \<notin> set ?ps" for q
  proof -
    have a: "top_level_prefix q \<notin> fst ` set ?a" using that by simp
    moreover have "top_level_prefix q \<notin> fst ` set ?b" using that a by (force simp: map_of_eq_None_iff)
    ultimately have "entry_map fs q = None" "entry_map ts q = None"
      using ra(4) rb(4) entry_map_group_of [OF ra(1), of "top_level_prefix q" q] entry_map_group_of [OF rb(1), of "top_level_prefix q" q]
      by simp_all
    then show ?thesis by (simp add: guard_event_def)
  qed
  note all = dir_events [of ?ps ?ev ?E, OF ps d at]
  have "tally (concat (map ?ev ?ps)) (guard_scan_new (r1_total_files a)) = scan_of skew_ms (entry_map fs) (entry_map ts) (r1_total_files a)"
    using all out by (intro tally_scan_of) auto
  moreover have "scan_current fb get skew_ms (map_of ?b) ?a out = Inr (tally (concat (map (\<lambda>c. ?ev (fst c)) ?a)) out)" for out
  proof (rule scan_current_run [OF ra(3)])
    show "\<forall>p h. map_of ?b p = Some h \<longrightarrow> load_all_entries_v1 fb get h = Inr (group_of p ts)" using rb(3) by (auto dest: map_of_SomeD)
    show "\<forall>p. map_of ?b p = None \<longrightarrow> group_of p ts = []" using rb(4) by (simp add: map_of_eq_None_iff)
  qed
  moreover have "scan_candidate fb get (map_of ?a) ?b out = Inr (tally (concat (map (\<lambda>c. ?ev (fst c)) ?new)) out)" for out
    using ra(4) by (intro scan_candidate_run [OF rb(3)]) (simp add: map_of_eq_None_iff)
  ultimately show ?thesis
    by (simp add: scan_inner_def collect_pairs_ok ra(2) rb(2) tally_append comp_def)
qed

lemma scan_versioned_run:
  assumes "stands_for fb H get a fs" "stands_for fb H get b ts"
  shows "scan_versioned fb H get skew_ms a b = Inr (scan_of skew_ms (entry_map fs) (entry_map ts) (versioned_total_files a))"
proof -
  note s = stands_for_sorted [OF assms(1)] stands_for_sorted [OF assms(2)]
  have "compare_entries skew_ms fs ts (guard_scan_new n) = scan_of skew_ms (entry_map fs) (entry_map ts) n" for n
    unfolding compare_entries_tally by (intro tally_scan_of events_distinct events_at s)
  then show ?thesis
    using stands_for_load [OF assms(1)] stands_for_load [OF assms(2)] scan_inner_run [of fb get] assms
    by (cases a; cases b) (auto simp: scan_versioned_def versioned_total_files_def)
qed

section \<open>Counts and limits\<close>

abbreviation deleted_paths :: "(string \<rightharpoonup> FileEntry) \<Rightarrow> (string \<rightharpoonup> FileEntry) \<Rightarrow> string set" where
  "deleted_paths f g \<equiv> {p \<in> dom f. g p = None}"

definition changed_paths :: "(string \<rightharpoonup> FileEntry) \<Rightarrow> (string \<rightharpoonup> FileEntry) \<Rightarrow> string set" where
  "changed_paths f g = {p. \<exists>x y. f p = Some x \<and> g p = Some y \<and> fe_hash x \<noteq> fe_hash y}"

definition regressed_paths :: "u64 \<Rightarrow> (string \<rightharpoonup> FileEntry) \<Rightarrow> (string \<rightharpoonup> FileEntry) \<Rightarrow> string set" where
  "regressed_paths skew_ms f g = {p. \<exists>x y. f p = Some x \<and> g p = Some y \<and> fe_hash x \<noteq> fe_hash y
     \<and> unat (fe_mtime_ms y) + unat skew_ms < unat (fe_mtime_ms x)}"

lemma guard_event_iff:
  "guard_event skew_ms u v = Some Gone \<longleftrightarrow> u \<noteq> None \<and> v = None"
  "guard_event skew_ms u v = Some Appeared \<longleftrightarrow> u = None \<and> v \<noteq> None"
  "guard_event skew_ms u v = Some (Changed r) \<longleftrightarrow>
     (\<exists>x y. u = Some x \<and> v = Some y \<and> fe_hash x \<noteq> fe_hash y \<and> r = regressed skew_ms x y)"
  by (auto simp: guard_event_def split: option.splits)

lemma scan_of_counts:
  assumes "finite (dom f)"
  shows "deletions (scan_of skew_ms f g n) = card (deleted_paths f g)"
    "additions (scan_of skew_ms f g n) = card (deleted_paths g f)"
    "content_changes (scan_of skew_ms f g n) = card (changed_paths f g)"
    "mtime_regressions (scan_of skew_ms f g n) = card (regressed_paths skew_ms f g)"
    "current_total (scan_of skew_ms f g n) = n"
proof -
  let ?C = "\<lambda>r. {q. guard_event skew_ms (f q) (g q) = Some (Changed r)}"
  have sub: "?C r \<subseteq> dom f" for r by (auto simp: guard_event_iff)
  have "?C True \<inter> ?C False = {}" by auto
  then have "card (?C True) + card (?C False) = card (?C True \<union> ?C False)"
    using finite_subset [OF sub assms] by (simp add: card_Un_disjoint)
  moreover have "?C True \<union> ?C False = changed_paths f g" by (auto simp: guard_event_iff changed_paths_def)
  ultimately show "content_changes (scan_of skew_ms f g n) = card (changed_paths f g)" by (simp add: scan_of_def)
  have "?C True = regressed_paths skew_ms f g" by (simp add: guard_event_iff regressed_paths_def regressed_def)
  then show "mtime_regressions (scan_of skew_ms f g n) = card (regressed_paths skew_ms f g)" by (simp add: scan_of_def)
qed (simp_all add: scan_of_def guard_event_iff domIff conj_commute)

lemma finite_dom_entry_map [simp]: "finite (dom (entry_map es))"
  by (simp add: entry_map_def)

lemma stands_for_total:
  assumes "stands_for fb H get root es"
  shows "unat (versioned_total_files root) = length es" "length es \<le> MAX_LOADED_ENTRIES"
  using stands_for_load [OF assms] by (auto simp: load_versioned_def split: if_splits)

text \<open>The limits of the guard, without machine arithmetic.\<close>

definition within_limits :: "GuardConfig \<Rightarrow> FileEntry list \<Rightarrow> FileEntry list \<Rightarrow> bool" where
  "within_limits cfg fs ts \<longleftrightarrow>
     card (regressed_paths (mtime_skew_ms cfg) (entry_map fs) (entry_map ts)) \<le> mtime_regression_max cfg
     \<and> card (deleted_paths (entry_map fs) (entry_map ts)) + card (changed_paths (entry_map fs) (entry_map ts))
         \<le> max (unat (blast_min cfg)) (length fs * unat (blast_pct cfg) div 100)"

lemma card_paths_le: "P \<subseteq> dom (entry_map fs) \<Longrightarrow> card P \<le> length fs"
proof -
  assume "P \<subseteq> dom (entry_map fs)"
  then have "P \<subseteq> set (map fe_path fs)" by (simp add: entry_map_def)
  then have "card P \<le> card (set (map fe_path fs))" by (intro card_mono) simp_all
  also have "\<dots> \<le> length (map fe_path fs)" by (rule card_length)
  finally show ?thesis by simp
qed

lemma triggered_iff:
  assumes "unat n = length fs" "length fs \<le> MAX_LOADED_ENTRIES" "length fs * unat (blast_pct cfg) < 2 ^ 64"
  shows "triggered (scan_of (mtime_skew_ms cfg) (entry_map fs) (entry_map ts) n) cfg = None \<longleftrightarrow> within_limits cfg fs ts"
proof -
  let ?b = "card (deleted_paths (entry_map fs) (entry_map ts)) + card (changed_paths (entry_map fs) (entry_map ts))"
  have "card (deleted_paths (entry_map fs) (entry_map ts)) \<le> length fs" by (rule card_paths_le) blast
  moreover have "card (changed_paths (entry_map fs) (entry_map ts)) \<le> length fs"
    by (rule card_paths_le) (auto simp: changed_paths_def)
  ultimately have "?b < 2 ^ 64" using assms(2) by (simp add: MAX_LOADED_ENTRIES_def)
  then have blast: "unat (of_nat ?b :: u64) = ?b" by (simp add: unat_of_nat_u64 del: of_nat_add)
  have "unat (n * blast_pct cfg) = length fs * unat (blast_pct cfg)"
    using assms(1,3) by (simp add: unat_word_ariths)
  then have ceiling: "unat (max (blast_min cfg) (n * blast_pct cfg div 100)) =
      max (unat (blast_min cfg)) (length fs * unat (blast_pct cfg) div 100)"
    by (simp add: max_def word_le_nat_alt unat_div)
  have "max (blast_min cfg) (n * blast_pct cfg div 100) < of_nat ?b \<longleftrightarrow>
      \<not> ?b \<le> max (unat (blast_min cfg)) (length fs * unat (blast_pct cfg) div 100)"
    unfolding word_less_nat_alt blast ceiling by (rule not_le [symmetric])
  then show ?thesis
    unfolding triggered_def within_limits_def Let_def by (simp add: scan_of_counts not_less del: of_nat_add max_less_iff_conj)
qed

section \<open>Properties\<close>

lemma one_leaf_load:
  assumes "flatbuf_ok fb" "hash_ok h" "entry_v1_ok e" "get h = Inr (leaf_blob_v1 fb [e])"
  shows "load_all_entries_v1 fb get h = Inr [e]"
proof -
  have "load_all_entries_v1 fb get (prefix_hash fb (\<lambda>b. h) [] [e]) = Inr [e]"
    using assms by (intro load_prefix) (simp_all add: MAX_LOADED_ENTRIES_V1_def prefix_ok_def as_bytes_def from_utf8_ok_ascii prefix_blobs_def leaf_pieces_def
      chunks.simps TARGET_CHUNK_ENTRIES_def)
  then show ?thesis by (simp add: prefix_hash_def leaf_hashes_v1_def leaf_pieces_def chunks.simps TARGET_CHUNK_ENTRIES_def)
qed

text \<open>A vault with one file, in two versions: the second has other content and an older time.\<close>

definition sample_entry :: "FileHash \<Rightarrow> FileEntry" where
  "sample_entry h = FileEntry.make ''a.md'' h (if h = ZERO_HASH then 9 else 3) 2"

definition sample_get :: lookup where
  "sample_get h = Inr (leaf_blob_v1 field_layer [sample_entry h])"

definition sample_root :: "FileHash \<Rightarrow> VersionedRoot" where
  "sample_root h = V1 \<lparr>r1_vault_id = ''v'', r1_created_ms = 0, r1_version = 1, r1_children = [(top_level_prefix ''a.md'', h)],
     r1_total_files = 1, r1_parent_hash = None, r1_device_id = ''d''\<rparr>"

lemma sample_reads:
  "stands_for field_layer H sample_get (sample_root ZERO_HASH) [sample_entry ZERO_HASH]"
  "stands_for field_layer H sample_get (sample_root (replicate 32 1)) [sample_entry (replicate 32 1)]"
proof -
  have "stands_for field_layer H sample_get (sample_root h) [sample_entry h]" if "hash_ok h" for h
  proof -
    have "entry_v1_ok (sample_entry h)"
      using that by (simp add: sample_entry_def entry_v1_ok_def entry_typed_def FileEntry.defs as_bytes_def from_utf8_ok_ascii)
    then have "load_all_entries_v1 field_layer sample_get h = Inr [sample_entry h]"
      using that by (intro one_leaf_load field_layer_ok) (simp_all add: sample_get_def)
    then show ?thesis
      by (auto simp: sample_root_def sample_entry_def reads_v1_def group_of_def FileEntry.defs MAX_LOADED_ENTRIES_def)
  qed
  from this [of ZERO_HASH] this [of "replicate 32 1"]
  show "stands_for field_layer H sample_get (sample_root ZERO_HASH) [sample_entry ZERO_HASH]"
    "stands_for field_layer H sample_get (sample_root (replicate 32 1)) [sample_entry (replicate 32 1)]"
    by (simp_all add: ZERO_HASH_def)
qed

lemma sample_regressed:
  "card (regressed_paths 5 (entry_map [sample_entry ZERO_HASH]) (entry_map [sample_entry (replicate 32 1)])) = 1"
proof -
  have "replicate 32 1 \<noteq> ZERO_HASH" by (simp add: ZERO_HASH_def)
  then have "regressed_paths 5 (entry_map [sample_entry ZERO_HASH]) (entry_map [sample_entry (replicate 32 1)]) = {''a.md''}"
    by (auto simp: regressed_paths_def sample_entry_def FileEntry.defs)
  then show ?thesis by simp
qed

text \<open>(C38) The guard scan of two readable roots, of whatever formats, always succeeds and its counts are exact:
  the files only in the current root, the files only in the candidate, the files whose content
  differs, and among these the ones whose modification time falls back by more than the allowance.
  The total is the number of files of the current root.\<close>

theorem scan_versioned_exact:
  assumes "stands_for fb H get a fs" "stands_for fb H get b ts"
  shows "\<exists>scan. scan_versioned fb H get skew_ms a b = Inr scan
    \<and> deletions scan = card {p \<in> dom (entry_map fs). entry_map ts p = None}
    \<and> additions scan = card {p \<in> dom (entry_map ts). entry_map fs p = None}
    \<and> content_changes scan = card (changed_paths (entry_map fs) (entry_map ts))
    \<and> mtime_regressions scan = card (regressed_paths skew_ms (entry_map fs) (entry_map ts))
    \<and> unat (current_total scan) = length fs"
  using scan_versioned_run [OF assms] stands_for_total [OF assms(1)] by (simp add: scan_of_counts)

theorem scan_versioned_exact_witness:
  "\<exists>scan. scan_versioned field_layer (\<lambda>b. ZERO_HASH) sample_get 5 (sample_root ZERO_HASH) (sample_root (replicate 32 1)) = Inr scan
    \<and> deletions scan = 0 \<and> mtime_regressions scan = 1"
proof -
  have "deleted_paths (entry_map [sample_entry ZERO_HASH]) (entry_map [sample_entry (replicate 32 1)]) = {}"
    by (auto simp: sample_entry_def FileEntry.defs)
  then show ?thesis
    using scan_versioned_exact [OF sample_reads, of "\<lambda>b. ZERO_HASH" 5] sample_regressed by auto
qed

section \<open>Bypass grants\<close>

lemma digit_char: "d < 10 \<Longrightarrow> (of_char (char_of (48 + d) :: char) :: nat) = 48 + d"
  by (simp add: of_char_of)

lemma digits_value_snoc: "digits_value (s @ [c]) = 10 * digits_value s + ((of_char c :: nat) - 48)"
  by (simp add: digits_value_def)

lemma decimal_digits: "decimal n \<noteq> [] \<and> list_all is_ascii_digit (decimal n) \<and> digits_value (decimal n) = n"
proof (induction n rule: decimal.induct)
  case (1 n)
  show ?case
  proof (cases "n < 10")
    case True
    then have "decimal n = [char_of (48 + n)]" by (subst decimal.simps) simp
    then show ?thesis using digit_char [OF True] True by (simp add: is_ascii_digit_def digits_value_def)
  next
    case False
    have d: "(of_char (char_of (48 + n mod 10) :: char) :: nat) = 48 + n mod 10" by (rule digit_char) simp
    have "decimal n = decimal (n div 10) @ [char_of (48 + n mod 10)]" using False by (subst decimal.simps) simp
    then show ?thesis using 1 [OF False] d by (simp add: is_ascii_digit_def digits_value_snoc)
  qed
qed

lemma space_seqs_ends: "\<forall>q \<in> set space_seqs. q \<noteq> [] \<and> \<not> is_ascii_digit (hd q) \<and> \<not> is_ascii_digit (last q)"
  by (simp add: space_seqs_def is_ascii_digit_def)

lemma trim_left_digits:
  assumes "list_all is_ascii_digit s" "\<forall>q \<in> set seqs. q \<noteq> [] \<and> \<not> is_ascii_digit (hd q)"
  shows "trim_left seqs s = s"
proof -
  have "\<not> starts_with s q" if "q \<in> set seqs" for q
  proof -
    have "q \<noteq> []" "\<not> is_ascii_digit (hd q)" using that assms(2) by auto
    then show ?thesis using assms(1) by (cases s; cases q) auto
  qed
  then have "find (\<lambda>q. q \<noteq> [] \<and> starts_with s q) seqs = None" by (simp add: find_None_iff)
  then show ?thesis by (subst trim_left.simps) simp
qed

lemma trim_digits: "list_all is_ascii_digit s \<Longrightarrow> trim s = s"
  using trim_left_digits [of s space_seqs] trim_left_digits [of "rev s" "map rev space_seqs"] space_seqs_ends
  by (simp add: trim_def hd_rev)

lemma parse_decimal: "n < 2 ^ 64 \<Longrightarrow> parse_u64 (trim (decimal n)) = Some (of_nat n)"
proof -
  assume n: "n < 2 ^ 64"
  note d = decimal_digits [of n]
  obtain c r where c: "decimal n = c # r" using d by (cases "decimal n") auto
  then have "c \<noteq> CHR ''+''" using d by (auto simp: is_ascii_digit_def)
  then show ?thesis using d n c by (simp add: trim_digits parse_u64_def Let_def)
qed

lemma unat_u64_saturating_mul: "unat (u64_saturating_mul a b) = min (unat a * unat b) (2 ^ 64 - 1)"
  by (auto simp: u64_saturating_mul_def unat_word_ariths unsigned_minus_1_eq_mask mask_eq_exp_minus_1)

text \<open>A bypass is granted to a push exactly when the file could be claimed, read and its removal made
  durable, and it holds a time in the future.\<close>

definition bypass_valid :: "bypass_io \<Rightarrow> u64 \<Rightarrow> string option \<Rightarrow> bool" where
  "bypass_valid io now_ms file \<longleftrightarrow> rename_ok io \<and> sync_ok io \<and> read_ok io
     \<and> (\<exists>value exp. file = Some value \<and> parse_u64 (trim value) = Some exp \<and> now_ms < exp)"

lemma consume_eq:
  "consume_deletion_bypass H io now_ms d files =
     (bypass_valid io now_ms (files (storage_component H d)), if rename_ok io then files(storage_component H d := None) else files)"
  by (auto simp: consume_deletion_bypass_def bypass_valid_def Let_def fun_eq_iff split: option.splits)

text \<open>(C39) With the guard enforced, a push between two readable roots passes exactly when the change stays within the
  configured limits, as plain numbers, or the device holds a valid bypass; a bypass file is used
  up by the first push over the limits, whether it lets the push through or not, and by no other
  push. The blast limit is exact as long as the number of files times the percentage fits 64 bits.\<close>

theorem enforce_guard_exact:
  assumes "stands_for fb H get a fs" "stands_for fb H get b ts" "gc_mode cfg = Enforce"
    "length fs * unat (blast_pct cfg) < 2 ^ 64"
  shows "(fst (enforce_guard fb H get cfg io now_ms d a b files) = Inr () \<longleftrightarrow>
      within_limits cfg fs ts \<or> (run_ok io \<and> bypass_valid io now_ms (files (storage_component H d))))
    \<and> snd (enforce_guard fb H get cfg io now_ms d a b files) =
      (if within_limits cfg fs ts \<or> \<not> run_ok io \<or> \<not> rename_ok io then files else files(storage_component H d := None))"
  using triggered_iff [OF stands_for_total [OF assms(1)] assms(4), of ts] scan_versioned_run [OF assms(1,2)] assms(3)
  by (cases "triggered (scan_of (mtime_skew_ms cfg) (entry_map fs) (entry_map ts) (versioned_total_files a)) cfg")
    (simp_all add: enforce_guard_def consume_eq)

theorem enforce_guard_exact_witness:
  "let cfg = \<lparr>gc_mode = Enforce, mtime_regression_max = 0, mtime_skew_ms = 5, blast_pct = 25, blast_min = 200\<rparr>;
       io = \<lparr>run_ok = True, rename_ok = True, read_ok = True, persist_ok = True, sync_ok = True\<rparr>;
       push = (\<lambda>files. enforce_guard field_layer (\<lambda>b. ZERO_HASH) sample_get cfg io 1000 ''phone''
                 (sample_root ZERO_HASH) (sample_root (replicate 32 1)) files) in
   push [''phone'' \<mapsto> decimal 2000] = (Inr (), Map.empty) \<and> fst (push Map.empty) \<noteq> Inr ()"
proof -
  let ?cfg = "\<lparr>gc_mode = Enforce, mtime_regression_max = 0, mtime_skew_ms = 5, blast_pct = 25, blast_min = 200\<rparr>"
  let ?io = "\<lparr>run_ok = True, rename_ok = True, read_ok = True, persist_ok = True, sync_ok = True\<rparr>"
  note guard = enforce_guard_exact [OF sample_reads, of ?cfg "\<lambda>b. ZERO_HASH" ?io 1000 "''phone''"]
  have over: "\<not> within_limits ?cfg [sample_entry ZERO_HASH] [sample_entry (replicate 32 1)]"
    using sample_regressed by (simp add: within_limits_def)
  have "bypass_valid ?io 1000 (Some (decimal 2000))" "\<not> bypass_valid ?io 1000 None"
    using parse_decimal [of 2000] by (simp_all add: bypass_valid_def)
  moreover have "storage_component (\<lambda>b. ZERO_HASH) ''phone'' = ''phone''" by (simp add: safe_component_def safe_char_def)
  ultimately show ?thesis
    using over guard [of "[''phone'' \<mapsto> decimal 2000]"] guard [of Map.empty] unfolding Let_def
    by (simp add: prod_eq_iff)
qed

text \<open>(C40) A grant lets the device's pushes over the limits through once: a claim before the expiry time succeeds,
  one at or after it fails, the claim after the first fails in any case, and the time that
  is displayed is the time left, none when a claim would fail. The expiry saturates instead of wrapping
  round.\<close>

theorem bypass_used_once:
  assumes "persist_ok io" "sync_ok io" "rename_ok io" "read_ok io" "expiry = min (unat t + 1000 * unat ttl) (2 ^ 64 - 1)"
  shows "\<exists>granted spent used. grant_deletion_bypass H io t d ttl files = (True, granted)
    \<and> deletion_bypass_remaining_ms H io now_ms d granted = (if used then Some (of_nat (expiry - unat now_ms)) else None)
    \<and> consume_deletion_bypass H io now_ms d granted = (used, spent)
    \<and> (used \<longleftrightarrow> unat now_ms < expiry)
    \<and> fst (consume_deletion_bypass H io' later d spent) = False"
proof -
  let ?e = "u64_saturating_add t (u64_saturating_mul ttl 1000)"
  have e: "unat ?e = expiry"
    by (auto simp: unat_u64_saturating_add unat_u64_saturating_mul min_def assms(5))
  have p: "parse_u64 (trim (decimal (unat ?e))) = Some ?e"
    using parse_decimal [of "unat ?e"] unsigned_less [where ?'a = nat, of ?e] by simp
  have lt: "now_ms \<le> ?e \<and> ?e - now_ms > 0 \<longleftrightarrow> now_ms < ?e" by (auto simp: word_neq_0_conv [symmetric])
  have "?e - now_ms = of_nat (expiry - unat now_ms)" if "now_ms < ?e"
  proof -
    have "unat (?e - now_ms) = expiry - unat now_ms" using that unat_sub [of now_ms ?e] e by (simp add: less_imp_le)
    then show ?thesis by (metis of_nat_unat ucast_id)
  qed
  then have "deletion_bypass_remaining_ms H io now_ms d (files(storage_component H d \<mapsto> decimal (unat ?e))) =
      (if now_ms < ?e then Some (of_nat (expiry - unat now_ms)) else None)"
    using assms(4) p lt by (simp add: deletion_bypass_remaining_ms_def)
  then show ?thesis
    using assms(1-4) p e by (simp add: grant_deletion_bypass_def consume_eq bypass_valid_def word_less_nat_alt)
qed

theorem bypass_used_once_witness:
  "let io = \<lparr>run_ok = True, rename_ok = True, read_ok = True, persist_ok = True, sync_ok = True\<rparr>; H = (\<lambda>b. ZERO_HASH) in
   \<exists>granted spent. grant_deletion_bypass H io 1000 ''phone'' 60 Map.empty = (True, granted)
     \<and> deletion_bypass_remaining_ms H io 2000 ''phone'' granted = Some 59000
     \<and> consume_deletion_bypass H io 2000 ''phone'' granted = (True, spent)
     \<and> fst (consume_deletion_bypass H io 2001 ''phone'' spent) = False"
  unfolding Let_def
  using bypass_used_once [of "\<lparr>run_ok = True, rename_ok = True, read_ok = True, persist_ok = True, sync_ok = True\<rparr>" 61000 1000 60
      "\<lambda>b. ZERO_HASH" "''phone''" Map.empty 2000 "\<lparr>run_ok = True, rename_ok = True, read_ok = True, persist_ok = True, sync_ok = True\<rparr>" 2001]
  by auto

end
