(* ===== verification/Spec2Isabelle.thy ===== *)
theory Spec2Isabelle
  imports Prelude Sorted_Walk Entries Diff Entry_Merge Merge Globs Storage_Path Seq_Tracker Chunk_Store
    Utf8 Tree_V2_Codec Tree_V2_Segment Tree_V2_Read Tree_V2_Build Tree_V2_Update Tree_V2_Diff Tree_V2_Reach Text_Merge
    Btree Chunk_V1 Flatbuf_Layer Tree_V1 Tree_V1_Update Versioned_Root Versioned_Diff Guard
begin

text \<open>
  Verification library for ObsetyNC, a self-hosted synchroniser for note vaults.

  \<^bold>\<open>The program.\<close> A vault is a set of files. The core crate (\<open>src/crates/sync-core\<close>) keeps its index as
  a Merkle tree of entries (path, content hash, modification time, size) in a content-addressed
  chunk store. Devices push a new root; the server (\<open>src/crates/sync-server\<close>) checks the request for replay,
  scans the change in the pre-commit guard and publishes the root; other devices pull the deltas
  between their root and the new one. Where two devices changed the same vault the trees are merged
  against their common ancestor, and text files both have edited are merged line by line. There are two
  tree formats: v1 with one chunk per top-level directory in a FlatBuffers envelope, and v2
  with content-defined leaves in a binary format of its own.

  \<^bold>\<open>Shared theories.\<close>

  \<^item> \<open>Prelude\<close>: words and their little-endian bytes, Rust's \<open>Result\<close> as a sum with the error on the left
    (\<open>and_then\<close> is the question mark operator), strings as the list of their UTF-8 bytes, facts on
    strictly sorted keyed lists.
  \<^item> \<open>Utf8\<close>: \<open>from_utf8\<close>, \<open>from_utf8_lossy\<close>, \<open>chars\<close> and \<open>is_control\<close> of the standard library.
    \<open>Btree\<close>: \<open>BTreeMap\<close> as an association list with increasing keys.
  \<^item> \<open>Sorted_Walk\<close>: the two-pointer walk that the code writes out in \<open>diff.rs\<close>, \<open>tree.rs\<close> and \<open>guard.rs\<close>. The
    locale \<open>keyed_walk\<close> is its contract; \<open>Diff\<close>, \<open>Entry_Merge\<close> and \<open>Guard\<close> interpret it on their own
    loops.
  \<^item> \<open>Entries\<close> (\<open>chunk.rs\<close>, \<open>hash.rs\<close>): \<open>FileEntry\<close>, \<open>FileHash\<close>, \<open>ChunkError\<close>.

  \<^bold>\<open>Components.\<close> Each operation of the source is one definition of the same name, with a suffix where two
  modules or a library constant have it too; \<open>PROJECT.json\<close> gives the lines of each.

  \<^item> \<open>Chunk_Store\<close> (\<open>store.rs\<close>): the trait \<open>ChunkStore\<close> as a record of operations on a store state, store
    computations as functions from a store to a result and the store they leave, \<open>MemoryChunkStore\<close> with its
    counters and candidate generations. The locales \<open>content_store\<close> and \<open>reliable_store\<close> are what the
    trees rely on; they are interpreted on the memory store. The counters are exact after any
    operations (\<open>memory_counters_exact\<close>), and freshness against an open baseline is exactly absence at its opening
    (\<open>fresh_since_exact\<close>).
  \<^item> \<open>Tree_V2_Codec\<close>, \<open>Tree_V2_Segment\<close>, \<open>Tree_V2_Read\<close>, \<open>Tree_V2_Build\<close>, \<open>Tree_V2_Update\<close>, \<open>Tree_V2_Diff\<close>,
    \<open>Tree_V2_Reach\<close> (\<open>tree_v2.rs\<close>). Leaves, internal nodes and roots decode to exactly what encodes to them,
    and the hash preimage of a root determines it. Segmentation always succeeds and tiles its input.
    The relations \<open>spans\<close>, \<open>holds\<close> and \<open>denotes\<close> say which entries a descriptor stands for in a store; loading and
    paging are characterised by them. Building any valid list reads back as the sorted list; an incremental
    update refines the update of the map from paths to entries, and for short paths gives the very root of
    a rebuild. The recursive diff equals the diff of the two entry lists. The reachable set is
    exactly the chunks the tree needs, however the walk is sliced, and retiring a cursor ends.
  \<^item> \<open>Chunk_V1\<close> (\<open>chunk.rs\<close>), \<open>Tree_V1\<close>, \<open>Tree_V1_Update\<close> (\<open>tree.rs\<close>), \<open>Flatbuf_Layer\<close>: the v1 format. An incremental
    update gives the children, the count and the hash of a rebuild of the changed vault.
  \<^item> \<open>Versioned_Root\<close> (\<open>versioned_root.rs\<close>) and \<open>Versioned_Diff\<close> (\<open>diff.rs\<close>): roots of either format behind one type.
    A root that is built reads back; the comparison of any two stored roots, of whatever formats,
    takes the old state to the new one and touches each differing path once.
  \<^item> \<open>Diff\<close> (\<open>diff.rs\<close>): deltas of two sorted lists and rename detection. Applying the deltas gives the new
    state; a rename is reported exactly for an unambiguous pair.
  \<^item> \<open>Entry_Merge\<close> (\<open>tree.rs\<close>): a batch of upserts and deletions in one pass equals the sequential meaning.
  \<^item> \<open>Merge\<close> (\<open>merge.rs\<close>): the three-way merge of entry lists decides every path by the specification \<open>three_way\<close>
    and loses no update.
  \<^item> \<open>Text_Merge\<close> (\<open>conflict.rs\<close>): classification and the line merge. Without insertions inside the base and without
    carriage returns every line comes from the side that changed it. Two theorems
    describe defects for all inputs: an insertion before a base line drops that line, and untouched CRLF
    lines lose their carriage return.
  \<^item> \<open>Globs\<close> (\<open>sync_rules.rs\<close>, \<open>ignore_match.rs\<close>): both matchers against one declarative meaning, with the places
    where they depart from the comments: a star in the text, a question mark outside ASCII, a
    leading slash.
  \<^item> \<open>Storage_Path\<close> (\<open>storage_component\<close> of \<open>storage.rs\<close>, \<open>hash_to_hex\<close>) and \<open>Seq_Tracker\<close> (\<open>seq_tracker.rs\<close>): the anti-replay
    window under any order of requests, failing reads and writes, and restarts. No number of a device with
    a safe id is accepted twice; with an id that is stored under an encoded name a restart allows a replay.
  \<^item> \<open>Guard\<close> (\<open>guard.rs\<close>, \<open>enforce_guard\<close> of \<open>api.rs\<close>, the bypass of \<open>devices.rs\<close>): the scan counts exactly the deleted,
    added, changed and backdated files; a push passes exactly when it is within the limits or a bypass is valid,
    and a bypass is used once.

  \<^bold>\<open>Parameters and hypotheses.\<close> Code outside the repository is an argument of the definitions that use it.
  The hash function (crate \<open>blake3\<close>) is \<open>H\<close>; where it matters it has 32-byte values, and where chunks are read
  back it is injective on the chunks in question. The FlatBuffers library with its generated accessors is
  \<open>fb\<close> with the law \<open>flatbuf_ok\<close>; \<open>field_layer\<close> of \<open>Flatbuf_Layer\<close> meets the law. The line diff (crate \<open>similar\<close>) is
  \<open>diff\<close> with the law \<open>diff_law\<close>; the witnesses give concrete diffs that meet it. The clock and the
  environment are arguments, and so are the outcomes of file operations (\<open>bypass_io\<close>, \<open>PersistOutcome\<close>, \<open>readable\<close>).
  The theorems on stores are for the memory store or for any store that meets \<open>reliable_store\<close>.

  \<^bold>\<open>Bounds and termination.\<close> No definition takes fuel. The traversals of trees end because each turn uses up the node budget of
  the source (\<open>MAX_VISITED_NODES\<close>), \<open>reach_drain\<close> because every step lowers \<open>reach_measure\<close>, which also gives
  \<open>WALK_UNITS\<close>, a number of units after which any sliced walk is done; the other loops have a measure on their
  input. The limits of the formats (\<open>MAX_NODE_BYTES\<close>, \<open>MAX_LEAF_ENTRIES\<close>, \<open>MAX_LOADED_ENTRIES\<close> and so on) are those of the
  source. Counters and sequence numbers are words of the source's width, with saturating and wrapping
  operations written out; \<open>usize\<close> lengths are natural numbers.

  \<^bold>\<open>Not modelled.\<close> The disk store, the packed object storage and the other file-system code; the resumable variants of build and
  update (\<open>candidate_mutation\<close>, \<open>replacement_rebuild\<close>, \<open>transactional_tree\<close>), which schedule the modelled
  functions; the pass of \<open>merge.rs\<close> that reads file contents and the driver around it; the bindings for
  JavaScript; memory accounting; HTTP handlers other than \<open>enforce_guard\<close>; cryptography and sockets, which are
  external crates. Log output and the formatted arguments of error messages are left out.
\<close>

end
